(* ===== verification/Prelude.thy ===== *)
theory Prelude
  imports Main "HOL-Library.Word" "HOL-Library.Signed_Division"
begin

text \<open>
  The vocabulary shared by every component: bytes and C strings, the character classes of
  the C locale, the \<open>str*\<close> and \<open>ato*\<close> functions of the C library as the code uses them,
  C integer division, and generic lemmas on lists and bits.

  A C string is modelled as the list of its characters without the terminating NUL; reading
  at the position after the last character gives NUL (\<open>peek\<close>). A function of the code that
  walks a pointer past the NUL returns \<open>None\<close> in the model.
\<close>

unbundle bit_operations_syntax

named_theorems cstring_simps \<open>evaluation of character classes and C string helpers\<close>
named_theorems bit_arith \<open>masks and shifts of natural numbers as mod, div and products\<close>

section \<open>Bytes and characters\<close>

type_synonym cstring = string

abbreviation nul :: char where "nul \<equiv> CHR 0x00"
abbreviation tab :: char where "tab \<equiv> CHR 0x09"
abbreviation lf :: char where "lf \<equiv> CHR 0x0A"
abbreviation cr :: char where "cr \<equiv> CHR 0x0D"
abbreviation dquote :: char where "dquote \<equiv> CHR 0x22"
abbreviation squote :: char where "squote \<equiv> CHR 0x27"
abbreviation bslash :: char where "bslash \<equiv> CHR 0x5C"

definition byte :: "char \<Rightarrow> nat" where
  "byte c = of_char c"

definition chr :: "nat \<Rightarrow> char" where
  "chr n = char_of n"

lemma byte_chr: "byte (chr n) = n mod 256"
  by (simp add: byte_def chr_def)

lemma byte_chr_small [simp]: "n < 256 \<Longrightarrow> byte (chr n) = n"
  by (simp add: byte_chr)

lemma chr_byte [simp]: "chr (byte c) = c"
  by (simp add: byte_def chr_def)

lemma byte_less [simp]: "byte c < 256"
  by (simp add: byte_def)

lemma byte_inject [simp]: "byte c = byte d \<longleftrightarrow> c = d"
  by (simp add: byte_def)

lemma chr_inject: "m < 256 \<Longrightarrow> n < 256 \<Longrightarrow> chr m = chr n \<longleftrightarrow> m = n"
  by (metis byte_chr_small)

lemma chr_mod_256: "chr (n mod 256) = chr n"
  by (simp add: chr_def)

text \<open>Reading one character: the NUL at the end of the string, the character before it.\<close>

definition peek :: "cstring \<Rightarrow> char" where
  "peek s = (case s of [] \<Rightarrow> nul | c # _ \<Rightarrow> c)"

lemma peek_simps [simp]: "peek [] = nul" "peek (c # s) = c"
  by (simp_all add: peek_def)

definition wf_cstring :: "cstring \<Rightarrow> bool" where
  "wf_cstring s \<longleftrightarrow> nul \<notin> set s"

text \<open>A buffer that holds a NUL reads as the C string before it.\<close>

definition c_str :: "cstring \<Rightarrow> cstring" where
  "c_str s = takeWhile (\<lambda>c. c \<noteq> nul) s"

lemma wf_c_str [simp]: "wf_cstring (c_str s)"
  by (auto simp: wf_cstring_def c_str_def dest: set_takeWhileD)

lemma c_str_wf: "wf_cstring s \<Longrightarrow> c_str s = s"
  by (auto simp: wf_cstring_def c_str_def takeWhile_eq_all_conv)

definition is_digit :: "char \<Rightarrow> bool" where
  "is_digit c \<longleftrightarrow> 48 \<le> byte c \<and> byte c \<le> 57"

definition is_upper :: "char \<Rightarrow> bool" where
  "is_upper c \<longleftrightarrow> 65 \<le> byte c \<and> byte c \<le> 90"

definition is_lower :: "char \<Rightarrow> bool" where
  "is_lower c \<longleftrightarrow> 97 \<le> byte c \<and> byte c \<le> 122"

definition is_alpha :: "char \<Rightarrow> bool" where
  "is_alpha c \<longleftrightarrow> is_upper c \<or> is_lower c"

text \<open>\<open>isspace\<close> of the C locale: space, \<open>\\t \\n \\v \\f \\r\<close>.\<close>

definition is_space :: "char \<Rightarrow> bool" where
  "is_space c \<longleftrightarrow> byte c = 32 \<or> 9 \<le> byte c \<and> byte c \<le> 13"

definition to_lower :: "char \<Rightarrow> char" where
  "to_lower c = (if is_upper c then chr (byte c + 32) else c)"

lemma is_upper_not_lowered: "\<not> is_upper (to_lower c)"
  by (auto simp: to_lower_def is_upper_def)

lemma to_lower_idem [simp]: "to_lower (to_lower c) = to_lower c"
  using is_upper_not_lowered [of c] by (simp add: to_lower_def [of "to_lower c"])

lemmas char_class_defs = is_digit_def is_upper_def is_lower_def is_alpha_def is_space_def byte_def

lemma is_digit_iff: "is_digit c \<longleftrightarrow> c \<in> set ''0123456789''"
proof
  assume "is_digit c"
  moreover have "48 \<le> n \<Longrightarrow> n \<le> 57 \<Longrightarrow> n \<in> set [48, 49, 50, 51, 52, 53, 54, 55, 56, 57]" for n :: nat
    by simp presburger
  ultimately have "byte c \<in> set [48, 49, 50, 51, 52, 53, 54, 55, 56, 57]"
    by (simp only: is_digit_def)
  then have "c \<in> set (map chr [48, 49, 50, 51, 52, 53, 54, 55, 56, 57])"
    by (metis chr_byte image_eqI list.set_map)
  moreover have "chr (byte d) = d" for d by simp
  from this [of "CHR ''0''"] this [of "CHR ''1''"] this [of "CHR ''2''"] this [of "CHR ''3''"]
    this [of "CHR ''4''"] this [of "CHR ''5''"] this [of "CHR ''6''"] this [of "CHR ''7''"]
    this [of "CHR ''8''"] this [of "CHR ''9''"]
  have "map chr [48, 49, 50, 51, 52, 53, 54, 55, 56, 57] = ''0123456789''"
    by (simp add: byte_def)
  ultimately show "c \<in> set ''0123456789''" by simp
qed (auto simp: is_digit_def byte_def)

section \<open>C string functions\<close>

text \<open>\<open>strcasecmp(s, t) == 0\<close>, \<open>strncmp(s, p, strlen(p)) == 0\<close> and \<open>strcmp\<close>-style suffixes.\<close>

definition strcase_eq :: "cstring \<Rightarrow> cstring \<Rightarrow> bool" where
  "strcase_eq s t \<longleftrightarrow> map to_lower s = map to_lower t"

lemma strcase_eq_refl [simp]: "strcase_eq s s"
  by (simp add: strcase_eq_def)

lemma strcase_eq_sym: "strcase_eq s t \<longleftrightarrow> strcase_eq t s"
  by (auto simp: strcase_eq_def)

lemma strcase_eq_trans: "strcase_eq s t \<Longrightarrow> strcase_eq t u \<Longrightarrow> strcase_eq s u"
  by (simp add: strcase_eq_def)

definition starts_with :: "cstring \<Rightarrow> cstring \<Rightarrow> bool" where
  "starts_with p s \<longleftrightarrow> take (length p) s = p"

lemma starts_with_append [simp]: "starts_with p (p @ s)"
  by (simp add: starts_with_def)

lemma starts_with_Nil [simp]: "starts_with [] s"
  by (simp add: starts_with_def)

lemma starts_with_Cons [simp]:
  "starts_with (c # p) (d # s) \<longleftrightarrow> c = d \<and> starts_with p s"
  "\<not> starts_with (c # p) []"
  by (auto simp: starts_with_def)

text \<open>
  \<open>strchr(set, c)\<close> as a membership test: the C function finds the terminating NUL of
  \<open>set\<close> too, so the test also succeeds for \<open>c = '\\0'\<close>.
\<close>

definition strchr_in :: "cstring \<Rightarrow> char \<Rightarrow> bool" where
  "strchr_in cs c \<longleftrightarrow> c = nul \<or> c \<in> set cs"

text \<open>\<open>strstr\<close> and \<open>strchr\<close>: the suffix of the string at the first occurrence.\<close>

fun strstr :: "cstring \<Rightarrow> cstring \<Rightarrow> cstring option" where
  "strstr [] p = (if p = [] then Some [] else None)"
| "strstr (c # s) p = (if starts_with p (c # s) then Some (c # s) else strstr s p)"

definition strchr :: "cstring \<Rightarrow> char \<Rightarrow> cstring option" where
  "strchr s c = (case dropWhile (\<lambda>d. d \<noteq> c) s of [] \<Rightarrow> None | t \<Rightarrow> Some t)"

lemma strstr_SomeD: "strstr s p = Some t \<Longrightarrow> \<exists>u. s = u @ t \<and> starts_with p t"
proof (induction s)
  case Nil
  then show ?case by (auto split: if_splits)
next
  case (Cons c s)
  then show ?case
    by (cases "starts_with p (c # s)") (auto intro: exI [of _ "c # _"])
qed

lemma strchr_SomeD:
  assumes "strchr s c = Some t"
  shows "\<exists>u r. s = u @ t \<and> t = c # r \<and> c \<notin> set u"
proof -
  from assms have t: "t = dropWhile (\<lambda>d. d \<noteq> c) s" and ne: "t \<noteq> []"
    by (auto simp: strchr_def split: list.splits)
  have "hd t = c"
    using hd_dropWhile [of "\<lambda>d. d \<noteq> c" s] ne t by simp
  moreover have "s = takeWhile (\<lambda>d. d \<noteq> c) s @ t"
    by (simp add: t)
  moreover have "c \<notin> set (takeWhile (\<lambda>d. d \<noteq> c) s)"
    by (auto dest: set_takeWhileD)
  ultimately show ?thesis
    using ne by (metis list.collapse)
qed

subsection \<open>Numbers in strings\<close>

text \<open>
  \<open>atoi\<close>, \<open>atoll\<close>: white space, an optional sign, decimal digits; 0 without digits. The
  result is the mathematical integer (a value outside the C type is undefined there).
\<close>

definition digit_val :: "char \<Rightarrow> nat" where
  "digit_val c = byte c - 48"

definition digits_val :: "cstring \<Rightarrow> nat" where
  "digits_val ds = foldl (\<lambda>n c. 10 * n + digit_val c) 0 ds"

definition atoi_c :: "cstring \<Rightarrow> int" where
  "atoi_c s =
     (let t = dropWhile is_space s;
          neg = (peek t = CHR ''-'');
          u = (if peek t = CHR ''-'' \<or> peek t = CHR ''+'' then tl t else t);
          n = int (digits_val (takeWhile is_digit u))
      in if neg then - n else n)"

definition hex_val :: "char \<Rightarrow> nat option" where
  "hex_val c =
     (if is_digit c then Some (byte c - 48)
      else if 65 \<le> byte c \<and> byte c \<le> 70 then Some (byte c - 55)
      else if 97 \<le> byte c \<and> byte c \<le> 102 then Some (byte c - 87)
      else None)"

text \<open>The value of a run of hexadecimal digits, read as \<open>strtoul(s, nullptr, 16)\<close> reads them.\<close>

fun hex_digits_val :: "nat \<Rightarrow> cstring \<Rightarrow> nat" where
  "hex_digits_val n [] = n"
| "hex_digits_val n (c # s) =
     (case hex_val c of None \<Rightarrow> n | Some d \<Rightarrow> hex_digits_val (16 * n + d) s)"

definition hex_digit :: "nat \<Rightarrow> char" where
  "hex_digit d = (if d < 10 then chr (48 + d) else chr (87 + d))"

text \<open>\<open>printf("%0<w>x", n)\<close>: at least \<open>w\<close> lower case hexadecimal digits.\<close>

fun to_hex :: "nat \<Rightarrow> nat \<Rightarrow> cstring" where
  "to_hex 0 n = (if n = 0 then [] else to_hex 0 (n div 16) @ [hex_digit (n mod 16)])"
| "to_hex (Suc w) n = to_hex w (n div 16) @ [hex_digit (n mod 16)]"

lemma hex_val_digit [simp]: "d < 16 \<Longrightarrow> hex_val (hex_digit d) = Some d"
  by (auto simp: hex_val_def hex_digit_def is_digit_def)

lemma chr_eqI: "byte c = n \<Longrightarrow> chr n = c"
  by auto

lemma hex_digit_simps [simp]:
  "hex_digit 0 = CHR ''0''" "hex_digit (Suc 0) = CHR ''1''" "hex_digit 1 = CHR ''1''"
  "hex_digit 2 = CHR ''2''" "hex_digit 3 = CHR ''3''" "hex_digit 4 = CHR ''4''"
  "hex_digit 5 = CHR ''5''" "hex_digit 6 = CHR ''6''" "hex_digit 7 = CHR ''7''"
  "hex_digit 8 = CHR ''8''" "hex_digit 9 = CHR ''9''" "hex_digit 10 = CHR ''a''"
  "hex_digit 11 = CHR ''b''" "hex_digit 12 = CHR ''c''" "hex_digit 13 = CHR ''d''"
  "hex_digit 14 = CHR ''e''" "hex_digit 15 = CHR ''f''"
  by (simp_all add: hex_digit_def chr_eqI byte_def)

lemma to_hex_numeral:
  "to_hex (numeral k) n = to_hex (pred_numeral k) (n div 16) @ [hex_digit (n mod 16)]"
  unfolding numeral_eq_Suc [of k] by (rule to_hex.simps(2))

lemma hex_digits_val_append:
  assumes "\<forall>c \<in> set xs. hex_val c \<noteq> None"
  shows "hex_digits_val n (xs @ ys) = hex_digits_val (hex_digits_val n xs) ys"
  using assms by (induction xs arbitrary: n) auto

declare to_hex.simps(1) [simp del]

lemma to_hex_0 [simp]: "to_hex 0 0 = []"
  by (simp add: to_hex.simps)

lemma length_to_hex: "n < 16 ^ w \<Longrightarrow> length (to_hex w n) = w"
proof (induction w arbitrary: n)
  case 0
  then show ?case by (simp add: to_hex_0)
next
  case (Suc w)
  then have "n div 16 < 16 ^ w" by (simp add: less_mult_imp_div_less mult.commute)
  with Suc.IH show ?case by simp
qed

lemma hex_val_to_hex: "n < 16 ^ w \<Longrightarrow> c \<in> set (to_hex w n) \<Longrightarrow> hex_val c \<noteq> None"
proof (induction w arbitrary: n)
  case 0
  then show ?case by (simp add: to_hex_0)
next
  case (Suc w)
  then have "n div 16 < 16 ^ w" by (simp add: less_mult_imp_div_less mult.commute)
  with Suc show ?case by auto
qed

lemma hex_digits_val_to_hex:
  "n < 16 ^ w \<Longrightarrow> hex_digits_val 0 (to_hex w n) = n"
proof (induction w arbitrary: n)
  case 0
  then show ?case by (simp add: to_hex_0)
next
  case (Suc w)
  then have b: "n div 16 < 16 ^ w" by (simp add: less_mult_imp_div_less mult.commute)
  with Suc.IH [OF b] hex_val_to_hex [OF b] show ?case
    by (simp add: hex_digits_val_append)
qed

subsection \<open>Decimal numbers\<close>

text \<open>\<open>printf("%i", n)\<close>, also for \<open>PRIi64\<close>.\<close>

fun to_dec :: "nat \<Rightarrow> cstring" where
  "to_dec n = (if n < 10 then [chr (48 + n)] else to_dec (n div 10) @ [chr (48 + n mod 10)])"

declare to_dec.simps [simp del]

definition show_int :: "int \<Rightarrow> cstring" where
  "show_int i = (if i < 0 then CHR ''-'' # to_dec (nat (- i)) else to_dec (nat i))"

lemma digits_val_snoc: "digits_val (xs @ [c]) = 10 * digits_val xs + digit_val c"
  by (simp add: digits_val_def)

lemma to_dec_digits: "c \<in> set (to_dec n) \<Longrightarrow> is_digit c"
proof (induction n rule: to_dec.induct)
  case (1 n)
  then show ?case
    by (subst (asm) to_dec.simps) (auto simp: is_digit_def split: if_splits)
qed

lemma to_dec_ne [simp]: "to_dec n \<noteq> []"
  by (subst to_dec.simps) simp

lemma digits_val_to_dec [simp]: "digits_val (to_dec n) = n"
proof (induction n rule: to_dec.induct)
  case (1 n)
  then show ?case
    by (subst to_dec.simps) (simp add: digits_val_snoc digits_val_def digit_val_def)
qed

lemma takeWhile_to_dec:
  assumes "\<not> is_digit (peek rest)"
  shows "takeWhile is_digit (to_dec n @ rest) = to_dec n"
proof -
  have "takeWhile is_digit rest = []" using assms by (cases rest) auto
  then show ?thesis using to_dec_digits by (simp add: takeWhile_append)
qed

lemma not_digit_simps [simp]:
  "\<not> is_digit nul" "\<not> is_digit lf" "\<not> is_digit cr" "\<not> is_digit (CHR '' '')" "\<not> is_digit (CHR '','')"
  "\<not> is_digit (CHR ''-'')" "\<not> is_digit (CHR ''+'')" "\<not> is_digit (CHR '':'')" "\<not> is_digit (CHR ''='')"
  by (simp_all add: is_digit_def byte_def)

lemma not_space_digit: "is_digit c \<Longrightarrow> \<not> is_space c"
  by (auto simp: is_digit_def is_space_def)

text \<open>What is printed is read back, up to the first character that is not a digit.\<close>

lemma atoi_show_int:
  assumes "\<not> is_digit (peek rest)"
  shows "atoi_c (show_int i @ rest) = i"
proof -
  obtain c r where d: "to_dec (nat \<bar>i\<bar>) = c # r" by (cases "to_dec (nat \<bar>i\<bar>)") auto
  then have c: "is_digit c" using to_dec_digits [of c "nat \<bar>i\<bar>"] by simp
  then have nc: "c \<noteq> CHR ''-''" "c \<noteq> CHR ''+''" by auto
  have tw: "takeWhile is_digit (c # r @ rest) = c # r"
    using takeWhile_to_dec [OF assms, of "nat \<bar>i\<bar>"] d by simp
  have "digits_val (c # r) = nat \<bar>i\<bar>" using d by (metis digits_val_to_dec)
  moreover have "\<not> is_space (CHR ''-'')" by (simp add: is_space_def byte_def)
  ultimately show ?thesis
    using d c nc tw not_space_digit [OF c]
    by (cases "i < 0") (simp_all add: show_int_def atoi_c_def Let_def)
qed

lemmas atoi_show_int_end = atoi_show_int [of "[]", simplified]

lemma show_int_chars: "c \<in> set (show_int i) \<Longrightarrow> is_digit c \<or> c = CHR ''-''"
  by (auto simp: show_int_def dest: to_dec_digits split: if_splits)

section \<open>Integers\<close>

text \<open>C integer division truncates towards zero; the code divides by non-zero values only.\<close>

abbreviation cdiv :: "int \<Rightarrow> int \<Rightarrow> int" where
  "cdiv a b \<equiv> a sdiv b"

lemma cdiv_nonneg: "0 \<le> a \<Longrightarrow> 0 < b \<Longrightarrow> cdiv a b = a div b"
  by (simp add: signed_divide_int_def sgn_if)

lemma nat_and_mask [bit_arith]:
  "(n::nat) AND 63 = n mod 64" "(n::nat) AND 2047 = n mod 2048" "(n::nat) AND 4095 = n mod 4096"
  "(n::nat) AND 65535 = n mod 65536" "(n::nat) AND 262143 = n mod 262144"
  "(n::nat) AND 2097151 = n mod 2097152" "(n::nat) AND 15 = n mod 16" "(n::nat) AND 255 = n mod 256"
proof -
  have m: "2 ^ k - 1 = j \<Longrightarrow> 2 ^ k = l \<Longrightarrow> n AND j = n mod l" for k and j l :: nat
    by (metis mask_eq_exp_minus_1 take_bit_eq_mask take_bit_eq_mod)
  show "n AND 63 = n mod 64" by (rule m [of 6]) simp_all
  show "n AND 2047 = n mod 2048" by (rule m [of 11]) simp_all
  show "n AND 4095 = n mod 4096" by (rule m [of 12]) simp_all
  show "n AND 65535 = n mod 65536" by (rule m [of 16]) simp_all
  show "n AND 262143 = n mod 262144" by (rule m [of 18]) simp_all
  show "n AND 2097151 = n mod 2097152" by (rule m [of 21]) simp_all
  show "n AND 15 = n mod 16" by (rule m [of 4]) simp_all
  show "n AND 255 = n mod 256" by (rule m [of 8]) simp_all
qed

section \<open>Lists\<close>

lemma map_option_append:
  "map_option ((@) []) r = r"
  "map_option ((@) (a # s)) r = map_option ((#) a) (map_option ((@) s) r)"
  by (cases r; simp)+

lemma sum_list_filter_le:
  fixes f :: "'a \<Rightarrow> int"
  assumes "\<And>x. x \<in> set xs \<Longrightarrow> 0 \<le> f x"
  shows "sum_list (map f (filter P xs)) \<le> sum_list (map f xs)"
  using assms by (induction xs) (auto simp: add_increasing)

lemma sum_list_update_int:
  fixes f :: "'a \<Rightarrow> int"
  assumes "i < length xs"
  shows "sum_list (map f (xs[i := y])) = sum_list (map f xs) - f (xs ! i) + f y"
  using assms
proof (induction xs arbitrary: i)
  case Nil
  then show ?case by simp
next
  case (Cons x xs)
  then show ?case by (cases i) auto
qed

section \<open>Paths and machine integers\<close>

text \<open>\<open>FileSystem::BaseFileName\<close>; the value of an expression cast to \<open>int\<close>.\<close>

definition last_pos :: "char \<Rightarrow> cstring \<Rightarrow> nat option" where
  "last_pos c s = (case dropWhile (\<lambda>d. d \<noteq> c) (rev s) of [] \<Rightarrow> None | t \<Rightarrow> Some (length t - 1))"

definition base_file_name :: "cstring \<Rightarrow> cstring" where
  "base_file_name s =
     (let p = last_pos (CHR ''/'') s;
          p1 = last_pos bslash s;
          q = (case p1 of
                 None \<Rightarrow> p
               | Some j \<Rightarrow> (case p of None \<Rightarrow> p1 | Some i \<Rightarrow> if i < j then p1 else p))
      in case q of Some i \<Rightarrow> drop (i + 1) s | None \<Rightarrow> s)"

definition int32 :: "int \<Rightarrow> int" where
  "int32 x = sint (word_of_int x :: 32 word)"

lemma int32_id: "- (2 ^ 31) \<le> x \<Longrightarrow> x < 2 ^ 31 \<Longrightarrow> int32 x = x"
  by (simp add: int32_def signed_of_int signed_take_bit_int_eq_self)

section \<open>Erasing and inserting in a list\<close>

definition del_nth :: "nat \<Rightarrow> 'a list \<Rightarrow> 'a list" where
  "del_nth k xs = take k xs @ drop (Suc k) xs"

definition insert_at :: "nat \<Rightarrow> 'a \<Rightarrow> 'a list \<Rightarrow> 'a list" where
  "insert_at n x xs = take n xs @ x # drop n xs"

lemma del_nth_split: "k < length xs \<Longrightarrow> xs = take k xs @ xs ! k # drop (Suc k) xs"
  by (simp add: id_take_nth_drop)

lemma set_del_nth: "x \<in> set (del_nth k xs) \<Longrightarrow> x \<in> set xs"
  by (auto simp: del_nth_def dest: in_set_takeD in_set_dropD)

lemma find_append:
  "find P (xs @ ys) = (case find P xs of Some x \<Rightarrow> Some x | None \<Rightarrow> find P ys)"
  by (induction xs) simp_all

end
