(* ===== verification/WebText.thy ===== *)
theory WebText
  imports Prelude
begin

text \<open>
  The text codecs of \<open>WebUtil\<close> (\<open>daemon/util/Util.cpp\<close>): the XML and JSON encoders and
  decoders used by the XML-RPC and JSON-RPC servers, the tag and field finders of their
  request parsers, and the HTTP and URL decoders. The in-place decoders return \<open>None\<close> where
  the code moves its read pointer past the terminating NUL.

  Results: the output always fits the buffer the encoder reserved, is free of markup, and
  renders every well-formed UTF-8 text code point by code point; the ASCII round trips; the
  inputs on which the decoders leave the buffer; and how the finders read back what the
  encoders wrote.
\<close>

section \<open>UTF-8 reading shared by both encoders\<close>

definition is_cont :: "char \<Rightarrow> bool" where
  "is_cont c \<longleftrightarrow> byte c AND 192 = 128"

text \<open>
  The multi-byte block: the code point and the rest of the string, \<open>None\<close> for the jump to
  \<open>BreakLoop\<close> when the string ends inside the sequence. Only the first continuation byte is
  checked by the code.
\<close>

definition decode_utf8 :: "char \<Rightarrow> cstring \<Rightarrow> (nat \<times> cstring) option" where
  "decode_utf8 c s =
     (let cp = byte c in
      if drop_bit 5 cp = 6 \<and> is_cont (peek s) then
        (case s of
           c1 # s1 \<Rightarrow> Some ((push_bit 6 cp AND 2047) + (byte c1 AND 63), s1)
         | _ \<Rightarrow> None)
      else if drop_bit 4 cp = 14 \<and> is_cont (peek s) then
        (case s of
           c1 # c2 # s2 \<Rightarrow>
             Some ((push_bit 12 cp AND 65535) + (push_bit 6 (byte c1) AND 4095) + (byte c2 AND 63), s2)
         | _ \<Rightarrow> None)
      else if drop_bit 3 cp = 30 \<and> is_cont (peek s) then
        (case s of
           c1 # c2 # c3 # s3 \<Rightarrow>
             Some ((push_bit 18 cp AND 2097151) + (push_bit 12 (byte c1) AND 262143) +
                   (push_bit 6 (byte c2) AND 4095) + (byte c3 AND 63), s3)
         | _ \<Rightarrow> None)
      else Some (cp, s))"

lemma decode_utf8_suffix:
  "decode_utf8 c s = Some (cp, s') \<Longrightarrow> \<exists>u. s = u @ s'"
  by (auto simp: decode_utf8_def Let_def split: if_splits list.splits)

lemma decode_utf8_length [termination_simp]:
  "decode_utf8 c s = Some (cp, s') \<Longrightarrow> length s' < Suc (length s)"
  using decode_utf8_suffix by fastforce

section \<open>XML\<close>

definition xml_char_valid :: "nat \<Rightarrow> bool" where
  "xml_char_valid cp \<longleftrightarrow>
     cp = 9 \<or> cp = 10 \<or> cp = 13 \<or> (32 \<le> cp \<and> cp \<le> 0xD7FF) \<or>
     (0xE000 \<le> cp \<and> cp \<le> 0xFFFD) \<or> (0x10000 \<le> cp \<and> cp \<le> 0x10FFFF)"

definition xml_ref :: "nat \<Rightarrow> cstring" where
  "xml_ref cp = (if xml_char_valid cp then ''&#x'' @ to_hex 6 cp @ '';'' else ''.'')"

fun xml_encode :: "cstring \<Rightarrow> cstring" where
  "xml_encode [] = []"
| "xml_encode (c # s) =
     (if c = CHR ''<'' then ''&lt;'' @ xml_encode s
      else if c = CHR ''>'' then ''&gt;'' @ xml_encode s
      else if c = CHR ''&'' then ''&amp;'' @ xml_encode s
      else if c = squote then ''&apos;'' @ xml_encode s
      else if c = dquote then ''&quot;'' @ xml_encode s
      else if byte c < 0x20 \<or> byte c > 0x80 then
        (case decode_utf8 c s of
           None \<Rightarrow> []
         | Some (cp, s') \<Rightarrow> xml_ref cp @ xml_encode s')
      else c # xml_encode s)"

text \<open>The size reserved for the output: the first loop of \<open>XmlEncode\<close>.\<close>

definition xml_extra :: "char \<Rightarrow> nat" where
  "xml_extra c =
     (if c = CHR ''>'' \<or> c = CHR ''<'' then 4
      else if c = CHR ''&'' then 5
      else if c = squote \<or> c = dquote then 6
      else if byte c < 0x20 \<or> byte c \<ge> 0x80 then 10
      else 0)"

definition xml_req_size :: "cstring \<Rightarrow> nat" where
  "xml_req_size s = length s + sum_list (map xml_extra s)"

text \<open>
  \<open>XmlDecode\<close>. In the numeric case the code skips digits and semicolons with
  \<open>strchr("0123456789;", *p)\<close>, which also accepts the NUL; in the last case it copies two
  characters, the second of which may be the NUL.
\<close>

definition xml_num_rest :: "cstring \<Rightarrow> cstring option" where
  "xml_num_rest s =
     (case dropWhile (\<lambda>c. strchr_in ''0123456789;'' c) s of [] \<Rightarrow> None | t \<Rightarrow> Some t)"

lemma xml_num_rest_length: "xml_num_rest s = Some t \<Longrightarrow> length t \<le> length s"
  by (auto simp: xml_num_rest_def split: list.splits) (metis length_dropWhile_le)

lemma xml_num_rest_length' [termination_simp]:
  "xml_num_rest (tl s) = Some t \<Longrightarrow> length t < Suc (length s)"
  by (drule xml_num_rest_length) simp

fun xml_decode :: "cstring \<Rightarrow> cstring option" where
  "xml_decode [] = Some []"
| "xml_decode (c # s) =
     (if c = CHR ''&'' then
        if starts_with ''lt;'' s then map_option ((#) CHR ''<'') (xml_decode (drop 3 s))
        else if starts_with ''gt;'' s then map_option ((#) CHR ''>'') (xml_decode (drop 3 s))
        else if starts_with ''amp;'' s then map_option ((#) CHR ''&'') (xml_decode (drop 4 s))
        else if starts_with ''apos;'' s then map_option ((#) squote) (xml_decode (drop 5 s))
        else if starts_with ''quot;'' s then map_option ((#) dquote) (xml_decode (drop 5 s))
        else if peek s = CHR ''#'' then
          (case xml_num_rest (tl s) of
             None \<Rightarrow> None
           | Some t \<Rightarrow> map_option ((#) (chr (nat (atoi_c (tl s) mod 256)))) (xml_decode t))
        else (case s of
            [] \<Rightarrow> None
          | d # s' \<Rightarrow> map_option (\<lambda>r. c # d # r) (xml_decode s'))
      else map_option ((#) c) (xml_decode s))"

text \<open>\<open>XmlFindTag\<close>: the suffix at the value and its length; the tags are cut by \<open>BString<100>\<close>.\<close>

definition bstring100 :: "cstring \<Rightarrow> cstring" where
  "bstring100 s = take 99 s"

definition xml_find_tag :: "cstring \<Rightarrow> cstring \<Rightarrow> (cstring \<times> nat) option" where
  "xml_find_tag xml tag =
     (let openTag = bstring100 (''<'' @ tag @ ''>'');
          closeTag = bstring100 (''</'' @ tag @ ''>'');
          openCloseTag = bstring100 (''<'' @ tag @ ''/>'');
          pstart = strstr xml openTag;
          pstartend = strstr xml openCloseTag
      in case (pstart, pstartend) of
           (None, None) \<Rightarrow> None
         | (None, Some e) \<Rightarrow> Some (e, 0)
         | (Some p, e) \<Rightarrow>
             if (case e of Some e' \<Rightarrow> length e' > length p | None \<Rightarrow> False) then Some (the e, 0)
             else (case strstr p closeTag of
                     None \<Rightarrow> None
                   | Some q \<Rightarrow> Some (drop (length openTag) p,
                                    length p - length q - length openTag)))"

definition xml_parse_tag_value :: "cstring \<Rightarrow> cstring \<Rightarrow> nat \<Rightarrow> (cstring \<times> cstring) option" where
  \<comment> \<open>value buffer and tag end; \<open>None\<close> is \<open>false\<close>\<close>
  "xml_parse_tag_value xml tag bufSize =
     (case xml_find_tag xml tag of
        None \<Rightarrow> None
      | Some (v, vlen) \<Rightarrow>
          (let len = (if vlen < bufSize then vlen else bufSize - 1)
           in Some (take len v, drop vlen v)))"

text \<open>\<open>XmlStripTags\<close> blanks each \<open><...>\<close>; \<open>XmlRemoveEntities\<close> replaces \<open>&name;\<close> by a blank.\<close>

function xml_strip_tags :: "cstring \<Rightarrow> cstring" where
  "xml_strip_tags s =
     (case strchr s CHR ''<'' of
        None \<Rightarrow> s
      | Some t \<Rightarrow>
          (case strchr t CHR ''>'' of
             None \<Rightarrow> s
           | Some e \<Rightarrow> take (length s - length t) s @
                       replicate (length t - length e + 1) CHR '' '' @ xml_strip_tags (tl e)))"
  by pat_completeness auto
termination
proof (relation "measure length", goal_cases)
  case 1
  then show ?case by simp
next
  case (2 s t e)
  obtain u r where "s = u @ t" using strchr_SomeD [OF 2(1)] by blast
  moreover obtain v q where "t = v @ e" "e = CHR ''>'' # q" using strchr_SomeD [OF 2(2)] by blast
  ultimately show ?case by simp
qed

declare xml_strip_tags.simps [simp del]

definition entity_char :: "char \<Rightarrow> bool" where
  "entity_char c \<longleftrightarrow> is_alpha c \<or> strchr_in ''0123456789#'' c"

lemma dropWhile_Cons_length [termination_simp]:
  "dropWhile P s = d # t \<Longrightarrow> length t < length s"
  using length_dropWhile_le [of P s] by simp

lemma dropWhile_Cons_size [termination_simp]:
  "dropWhile P s = d # t \<Longrightarrow> length t < Suc (length s)"
  using length_dropWhile_le [of P s] by simp

fun xml_remove_entities :: "cstring \<Rightarrow> cstring option" where
  "xml_remove_entities [] = Some []"
| "xml_remove_entities (c # s) =
     (if c = CHR ''&'' then
        (case dropWhile entity_char s of
           [] \<Rightarrow> None
         | d # t \<Rightarrow>
             if d = CHR '';'' then map_option ((#) CHR '' '') (xml_remove_entities t)
             else map_option ((#) c) (xml_remove_entities s))
      else map_option ((#) c) (xml_remove_entities s))"

section \<open>JSON\<close>

definition json_escape :: "char \<Rightarrow> cstring option" where
  "json_escape c =
     (if c = dquote then Some [bslash, dquote]
      else if c = bslash then Some [bslash, bslash]
      else if c = CHR ''/'' then Some [bslash, CHR ''/'']
      else if c = CHR 0x08 then Some [bslash, CHR ''b'']
      else if c = CHR 0x0C then Some [bslash, CHR ''f'']
      else if c = lf then Some [bslash, CHR ''n'']
      else if c = cr then Some [bslash, CHR ''r'']
      else if c = tab then Some [bslash, CHR ''t'']
      else None)"

definition json_ref :: "nat \<Rightarrow> cstring" where
  "json_ref cp = bslash # CHR ''u'' # to_hex 4 (if cp \<le> 0xFFFF then cp else byte CHR ''.'')"

fun json_encode :: "cstring \<Rightarrow> cstring" where
  "json_encode [] = []"
| "json_encode (c # s) =
     (case json_escape c of
        Some e \<Rightarrow> e @ json_encode s
      | None \<Rightarrow>
          if byte c < 0x20 \<or> byte c > 0x80 then
            (case decode_utf8 c s of
               None \<Rightarrow> []
             | Some (cp, s') \<Rightarrow> json_ref cp @ json_encode s')
          else c # json_encode s)"

definition json_extra :: "char \<Rightarrow> nat" where
  "json_extra c =
     (if c \<in> {dquote, bslash, CHR ''/'', CHR 0x08, CHR 0x0C, lf, cr, tab} then 1
      else if byte c < 0x20 \<or> byte c \<ge> 0x80 then 6
      else 0)"

definition json_req_size :: "cstring \<Rightarrow> nat" where
  "json_req_size s = length s + sum_list (map json_extra s)"

text \<open>
  \<open>strtoul(s, nullptr, 16)\<close> of a 64-bit \<open>unsigned long\<close>: blanks, sign, optional \<open>0x\<close>,
  saturation at the largest value, negation modulo $2^{64}$.
\<close>

definition strtoul16 :: "cstring \<Rightarrow> nat" where
  "strtoul16 s =
     (let t = dropWhile is_space s;
          neg = (peek t = CHR ''-'');
          u = (if peek t = CHR ''-'' \<or> peek t = CHR ''+'' then tl t else t);
          w = (if (starts_with ''0x'' u \<or> starts_with ''0X'' u) \<and> hex_val (peek (drop 2 u)) \<noteq> None
               then drop 2 u else u);
          v = hex_digits_val 0 w
      in if v \<ge> 2 ^ 64 then 2 ^ 64 - 1 else if neg then (2 ^ 64 - v) mod 2 ^ 64 else v)"

definition json_unescape :: "char \<Rightarrow> char" where
  "json_unescape c =
     (if c = CHR ''b'' then CHR 0x08
      else if c = CHR ''f'' then CHR 0x0C
      else if c = CHR ''n'' then lf
      else if c = CHR ''r'' then cr
      else if c = CHR ''t'' then tab
      else c)"

text \<open>
  \<open>JsonDecode\<close>: at a backslash before the NUL the default branch copies the NUL and passes
  it; \<open>\u\<close> with fewer than four characters left passes it too.
\<close>

fun json_decode :: "cstring \<Rightarrow> cstring option" where
  "json_decode [] = Some []"
| "json_decode (c # s) =
     (if c = bslash then
        (case s of
           [] \<Rightarrow> None
         | d # s' \<Rightarrow>
             if d = CHR ''u'' then
               (if length s' < 4 then None
                else map_option ((#) (chr (strtoul16 (take 4 s')))) (json_decode (drop 4 s')))
             else map_option ((#) (json_unescape d)) (json_decode s'))
      else map_option ((#) c) (json_decode s))"

text \<open>
  \<open>JsonNextValue\<close>: the suffix where the value starts and its length. \<open>json_scan_str\<close> is the
  loop inside a string, counting the characters up to and including the closing quote.
\<close>

fun json_scan_str :: "cstring \<Rightarrow> nat option" where
  "json_scan_str [] = Some 0"
| "json_scan_str (c # s) =
     (if c = bslash then
        (case s of
           d # e # s' \<Rightarrow> map_option ((+) 2) (json_scan_str (e # s'))
         | _ \<Rightarrow> None)
      else if c = dquote then Some 1
      else map_option Suc (json_scan_str s))"

definition json_skip_set :: cstring where
  "json_skip_set = '' ,[{:'' @ [cr, lf, tab, CHR 0x0C]"

definition json_stop_set :: cstring where
  "json_stop_set = '' ,]}'' @ [cr, lf, tab, CHR 0x0C]"

definition json_next_value :: "cstring \<Rightarrow> (cstring \<times> nat) option" where
  "json_next_value s =
     (let t = dropWhile (\<lambda>c. c \<in> set json_skip_set) s in
      case t of
        [] \<Rightarrow> None
      | c # u \<Rightarrow>
          if c = dquote then map_option (\<lambda>n. (t, Suc n)) (json_scan_str u)
          else Some (t, length (takeWhile (\<lambda>d. d \<notin> set json_stop_set) t)))"

definition json_find_field :: "cstring \<Rightarrow> cstring \<Rightarrow> (cstring \<times> nat) option" where
  "json_find_field s field =
     (let openTag = bstring100 (dquote # field @ [dquote]) in
      case strstr s openTag of
        None \<Rightarrow> None
      | Some p \<Rightarrow> json_next_value (drop (length openTag) p))"

section \<open>HTTP and URL texts\<close>

text \<open>
  \<open>HttpUnquote\<close>: after a backslash the code copies the next character but leaves the read
  pointer on it, so the loop looks at that character again.
\<close>

fun http_unquote_loop :: "cstring \<Rightarrow> cstring" where
  "http_unquote_loop [] = []"
| "http_unquote_loop (c # s) =
     (if c = dquote then []
      else if c = bslash then peek s # http_unquote_loop s
      else c # http_unquote_loop s)"

definition http_unquote :: "cstring \<Rightarrow> cstring" where
  "http_unquote s = (if peek s \<noteq> dquote then s else c_str (http_unquote_loop (tl s)))"

definition url_hex :: "char \<Rightarrow> nat" where
  "url_hex c = (case hex_val c of Some d \<Rightarrow> d | None \<Rightarrow> 0)"

fun url_decode :: "cstring \<Rightarrow> cstring" where
  "url_decode [] = []"
| "url_decode (c # s) =
     (if c = CHR ''%'' then
        (case s of
           c1 # c2 # s' \<Rightarrow> chr (push_bit 4 (url_hex c1) + url_hex c2) # url_decode s'
         | _ \<Rightarrow> c # url_decode s)
      else c # url_decode s)"

fun url_encode :: "cstring \<Rightarrow> cstring" where
  "url_encode [] = []"
| "url_encode (c # s) = (if c = CHR '' '' then ''%20'' @ url_encode s else c # url_encode s)"

definition url_req_size :: "cstring \<Rightarrow> nat" where
  "url_req_size s = length s + sum_list (map (\<lambda>c. if c = CHR '' '' then 3 else 0) s)"

fun latin1_to_utf8 :: "cstring \<Rightarrow> cstring" where
  "latin1_to_utf8 [] = []"
| "latin1_to_utf8 (c # s) =
     (if byte c < 128 then c # latin1_to_utf8 s
      else chr (0xc2 + (if byte c > 0xbf then 1 else 0)) #
           chr ((byte c AND 0x3f) + 0x80) # latin1_to_utf8 s)"

section \<open>Correctness of the codecs\<close>

subsection \<open>Encoders that emit token by token\<close>

text \<open>
  What both encoders promise: they read the string step by step, a step consumes one or more
  characters and emits text whose length the reserved size pays for.
\<close>

locale stepped_encoder =
  fixes step :: "char \<Rightarrow> cstring \<Rightarrow> (cstring \<times> cstring) option"
    and encode :: "cstring \<Rightarrow> cstring"
    and cost :: "char \<Rightarrow> nat"
    and safe :: "char \<Rightarrow> bool"
  assumes encode_Nil: "encode [] = []"
    and encode_Cons: "encode (c # s) =
          (case step c s of None \<Rightarrow> [] | Some (out, s') \<Rightarrow> out @ encode s')"
    and step_cost: "step c s = Some (out, s') \<Longrightarrow>
          \<exists>u. s = u @ s' \<and> length out \<le> cost c + sum_list (map cost u)"
    and step_safe: "step c s = Some (out, s') \<Longrightarrow> d \<in> set out \<Longrightarrow> safe d"
begin

lemma encode_fits: "length (encode s) \<le> sum_list (map cost s)"
proof (induction s rule: length_induct)
  case (1 s)
  show ?case
  proof (cases s)
    case Nil
    then show ?thesis by (simp add: encode_Nil)
  next
    case (Cons c r)
    show ?thesis
    proof (cases "step c r")
      case None
      then show ?thesis by (simp add: Cons encode_Cons)
    next
      case (Some p)
      obtain out s' where p: "p = (out, s')" by (cases p)
      then obtain u where u: "r = u @ s'" "length out \<le> cost c + sum_list (map cost u)"
        using step_cost Some by blast
      moreover from u have "length (encode s') \<le> sum_list (map cost s')"
        using 1 Cons by simp
      ultimately show ?thesis unfolding Cons encode_Cons Some p by simp
    qed
  qed
qed

lemma encode_safe: "d \<in> set (encode s) \<Longrightarrow> safe d"
proof (induction s rule: length_induct)
  case (1 s)
  show ?case
  proof (cases s)
    case Nil
    with 1(2) show ?thesis by (simp add: encode_Nil)
  next
    case (Cons c r)
    with 1(2) obtain out s' where st: "step c r = Some (out, s')"
      and d: "d \<in> set out \<or> d \<in> set (encode s')"
      by (cases "step c r") (auto simp: encode_Cons)
    moreover from step_cost [OF st] Cons have "length s' < length s" by auto
    ultimately show ?thesis using 1(1) step_safe by blast
  qed
qed

end

text \<open>
  An encoder whose decoder gives back every text of admissible characters: the law for one
  character lifts to the whole text.
\<close>

locale token_codec =
  fixes tok :: "char \<Rightarrow> cstring"
    and encode :: "cstring \<Rightarrow> cstring"
    and decode :: "cstring \<Rightarrow> cstring option"
    and ok :: "char \<Rightarrow> bool"
  assumes tok_Nil: "encode [] = []"
    and tok_Cons: "ok c \<Longrightarrow> encode (c # s) = tok c @ encode s"
    and decode_Nil: "decode [] = Some []"
    and decode_tok: "ok c \<Longrightarrow> decode (tok c @ t) = map_option ((#) c) (decode t)"
begin

lemma decode_encode: "(\<And>c. c \<in> set s \<Longrightarrow> ok c) \<Longrightarrow> decode (encode s) = Some s"
  by (induction s) (simp_all add: tok_Nil tok_Cons decode_Nil decode_tok)

lemma encode_append:
  "(\<And>c. c \<in> set s \<Longrightarrow> ok c) \<Longrightarrow> encode (s @ t) = encode s @ encode t"
  by (induction s) (simp_all add: tok_Nil tok_Cons)

end

subsection \<open>The XML and JSON encoders as steps\<close>

definition xml_entity :: "char \<Rightarrow> cstring option" where
  "xml_entity c =
     (if c = CHR ''<'' then Some ''&lt;'' else if c = CHR ''>'' then Some ''&gt;''
      else if c = CHR ''&'' then Some ''&amp;'' else if c = squote then Some ''&apos;''
      else if c = dquote then Some ''&quot;'' else None)"

definition encoder_step ::
    "(char \<Rightarrow> cstring option) \<Rightarrow> (nat \<Rightarrow> cstring) \<Rightarrow> char \<Rightarrow> cstring \<Rightarrow> (cstring \<times> cstring) option" where
  "encoder_step entity ref c s =
     (case entity c of
        Some e \<Rightarrow> Some (e, s)
      | None \<Rightarrow>
          if byte c < 0x20 \<or> byte c > 0x80 then
            map_option (\<lambda>(cp, s'). (ref cp, s')) (decode_utf8 c s)
          else Some ([c], s))"

lemma xml_encode_step:
  "xml_encode (c # s) =
     (case encoder_step xml_entity xml_ref c s of None \<Rightarrow> [] | Some (out, s') \<Rightarrow> out @ xml_encode s')"
  by (simp add: encoder_step_def xml_entity_def split: option.split)

lemma json_encode_step:
  "json_encode (c # s) =
     (case encoder_step json_escape json_ref c s of None \<Rightarrow> [] | Some (out, s') \<Rightarrow> out @ json_encode s')"
  by (simp add: encoder_step_def split: option.split)

lemma xml_ref_length: "length (xml_ref cp) \<le> 10"
proof (cases "xml_char_valid cp")
  case True
  then have "cp < 16 ^ 6" by (auto simp: xml_char_valid_def)
  then have "length (to_hex 6 cp) = 6" by (rule length_to_hex)
  with True show ?thesis by (simp add: xml_ref_def)
next
  case False
  then show ?thesis by (simp add: xml_ref_def)
qed

lemma json_ref_length: "length (json_ref cp) = 6"
  by (simp add: json_ref_def length_to_hex byte_def)

text \<open>A step of either encoder is paid for by the reserved size of what it consumed.\<close>

lemma encoder_step_cost:
  assumes st: "encoder_step entity ref c s = Some (out, s')"
    and ent: "\<And>e. entity c = Some e \<Longrightarrow> length e \<le> cost c"
    and one: "1 \<le> cost c"
    and esc: "entity c = None \<Longrightarrow> byte c < 0x20 \<or> byte c > 0x80 \<Longrightarrow> k \<le> cost c"
    and ref: "\<And>cp. length (ref cp) \<le> k"
  shows "\<exists>u. s = u @ s' \<and> length out \<le> cost c + sum_list (map cost u)"
proof (cases "entity c")
  case (Some e)
  with st ent show ?thesis by (auto simp: encoder_step_def)
next
  case None
  show ?thesis
  proof (cases "byte c < 0x20 \<or> byte c > 0x80")
    case True
    with None st obtain cp where d: "decode_utf8 c s = Some (cp, s')" "out = ref cp"
      by (auto simp: encoder_step_def)
    then obtain u where "s = u @ s'" using decode_utf8_suffix by blast
    moreover have "length out \<le> cost c" using d ref [of cp] esc [OF None True] by simp
    ultimately show ?thesis by (auto intro!: exI [of _ u])
  next
    case False
    with None st one show ?thesis by (auto simp: encoder_step_def)
  qed
qed

definition xml_safe :: "char \<Rightarrow> bool" where
  "xml_safe d \<longleftrightarrow> d \<notin> {CHR ''<'', CHR ''>'', squote, dquote} \<and> 32 \<le> byte d \<and> byte d \<le> 128"

definition json_safe :: "char \<Rightarrow> bool" where
  "json_safe d \<longleftrightarrow> 32 \<le> byte d \<and> byte d \<le> 128"

lemma hex_char_safe: "hex_val d \<noteq> None \<Longrightarrow> xml_safe d \<and> json_safe d"
  by (auto simp: hex_val_def is_digit_def xml_safe_def json_safe_def byte_def split: if_splits)

lemma xml_ref_safe: "d \<in> set (xml_ref cp) \<Longrightarrow> xml_safe d"
proof -
  assume d: "d \<in> set (xml_ref cp)"
  have "d \<in> set (to_hex 6 cp) \<Longrightarrow> xml_char_valid cp \<Longrightarrow> xml_safe d"
    using hex_val_to_hex [of cp 6 d] hex_char_safe by (auto simp: xml_char_valid_def)
  with d show ?thesis by (auto simp: xml_ref_def xml_safe_def byte_def split: if_splits)
qed

lemma json_ref_safe: "d \<in> set (json_ref cp) \<Longrightarrow> json_safe d"
proof -
  assume d: "d \<in> set (json_ref cp)"
  have "d \<in> set (to_hex 4 (if cp \<le> 0xFFFF then cp else byte CHR ''.'')) \<Longrightarrow> json_safe d"
    by (rule conjunct2 [OF hex_char_safe], rule hex_val_to_hex) (auto simp: byte_def)
  with d show ?thesis by (auto simp: json_ref_def json_safe_def byte_def)
qed

interpretation xml_enc: stepped_encoder "encoder_step xml_entity xml_ref" xml_encode
  "\<lambda>c. Suc (xml_extra c)" xml_safe
proof
  fix c s out s'
  assume st: "encoder_step xml_entity xml_ref c s = Some (out, s')"
  show "\<exists>u. s = u @ s' \<and> length out \<le> Suc (xml_extra c) + sum_list (map (\<lambda>c. Suc (xml_extra c)) u)"
    by (rule encoder_step_cost [OF st _ _ _ xml_ref_length])
       (auto simp: xml_entity_def xml_extra_def byte_def split: if_splits)
  show "d \<in> set out \<Longrightarrow> xml_safe d" for d
    using st xml_ref_safe
    by (auto simp: encoder_step_def xml_entity_def xml_safe_def byte_def split: if_splits option.splits)
qed (rule xml_encode.simps(1), rule xml_encode_step)

interpretation json_enc: stepped_encoder "encoder_step json_escape json_ref" json_encode
  "\<lambda>c. Suc (json_extra c)" json_safe
proof
  fix c s out s'
  assume st: "encoder_step json_escape json_ref c s = Some (out, s')"
  show "\<exists>u. s = u @ s' \<and> length out \<le> Suc (json_extra c) + sum_list (map (\<lambda>c. Suc (json_extra c)) u)"
    by (rule encoder_step_cost [OF st _ _ _ eq_imp_le [OF json_ref_length]])
       (auto simp: json_escape_def json_extra_def byte_def split: if_splits)
  show "d \<in> set out \<Longrightarrow> json_safe d" for d
    using st json_ref_safe
    by (auto simp: encoder_step_def json_escape_def json_safe_def byte_def split: if_splits option.splits)
qed (rule json_encode.simps(1), rule json_encode_step)

subsection \<open>Round trips\<close>

definition xml_tok :: "char \<Rightarrow> cstring" where
  "xml_tok c = (case xml_entity c of Some e \<Rightarrow> e | None \<Rightarrow> [c])"

definition json_tok :: "char \<Rightarrow> cstring" where
  "json_tok c =
     (case json_escape c of
        Some e \<Rightarrow> e
      | None \<Rightarrow> if byte c < 0x20 then json_ref (byte c) else [c])"

definition url_tok :: "char \<Rightarrow> cstring" where
  "url_tok c = (if c = CHR '' '' then ''%20'' else [c])"

lemma decode_utf8_ascii: "byte c \<le> 128 \<Longrightarrow> decode_utf8 c s = Some (byte c, s)"
proof -
  assume b: "byte c \<le> 128"
  have "drop_bit 5 (byte c) \<noteq> 6" "drop_bit 4 (byte c) \<noteq> 14" "drop_bit 3 (byte c) \<noteq> 30"
    using b by (auto simp: drop_bit_eq_div)
  then show ?thesis by (simp add: decode_utf8_def)
qed

lemma strtoul16_hex4:
  assumes "n < 65536"
  shows "strtoul16 (to_hex 4 n) = n"
proof -
  define s where "s = to_hex 4 n"
  have len: "length s = 4" and val: "hex_digits_val 0 s = n"
    using assms length_to_hex [of n 4] hex_digits_val_to_hex [of n 4] by (simp_all add: s_def)
  have hx: "c \<in> set s \<Longrightarrow> hex_val c \<noteq> None" for c
    using assms hex_val_to_hex [of n 4 c] by (simp add: s_def)
  then obtain a b r where s: "s = a # b # r"
    using len by (cases s; cases "tl s") auto
  have "\<not> is_space a" "a \<noteq> CHR ''-''" "a \<noteq> CHR ''+''" and "b \<noteq> CHR ''x''" "b \<noteq> CHR ''X''"
    using hx [of a] hx [of b] by (auto simp: s hex_val_def is_digit_def is_space_def byte_def split: if_splits)
  then have "strtoul16 s = n"
    using val assms by (simp add: strtoul16_def s)
  then show ?thesis by (simp add: s_def)
qed

lemma json_decode_ref:
  assumes "cp \<le> 0xFFFF"
  shows "json_decode (json_ref cp @ t) = map_option ((#) (chr cp)) (json_decode t)"
proof -
  have l: "length (to_hex 4 cp) = 4" using assms by (intro length_to_hex) simp
  then show ?thesis
    using assms strtoul16_hex4 [of cp] by (simp add: json_ref_def)
qed

interpretation xml_codec: token_codec xml_tok xml_encode xml_decode
  "\<lambda>c. 0x20 \<le> byte c \<and> byte c \<le> 0x80"
proof
  fix c s t
  assume ok: "0x20 \<le> byte c \<and> byte c \<le> 0x80"
  then show "xml_encode (c # s) = xml_tok c @ xml_encode s"
    unfolding xml_encode_step
    by (auto simp: encoder_step_def xml_tok_def split: option.splits)
  show "xml_decode (xml_tok c @ t) = map_option ((#) c) (xml_decode t)"
    by (auto simp: xml_tok_def xml_entity_def)
qed simp_all

interpretation json_codec: token_codec json_tok json_encode json_decode
  "\<lambda>c. byte c \<le> 0x80"
proof
  fix c s t
  assume ok: "byte c \<le> 0x80"
  then show "json_encode (c # s) = json_tok c @ json_encode s"
    unfolding json_encode_step
    by (auto simp: encoder_step_def json_tok_def decode_utf8_ascii split: option.splits)
  show "json_decode (json_tok c @ t) = map_option ((#) c) (json_decode t)"
    using json_decode_ref [of "byte c" t] ok
    by (auto simp: json_tok_def json_escape_def json_unescape_def split: if_splits)
qed simp_all

lemma chr_32: "chr 32 = CHR '' ''"
  using chr_byte [of "CHR '' ''"] by (simp add: byte_def)

interpretation url_codec: token_codec url_tok url_encode "\<lambda>s. Some (url_decode s)"
  "\<lambda>c. c \<noteq> CHR ''%''"
proof
  fix c s t
  show "url_encode (c # s) = url_tok c @ url_encode s"
    by (simp add: url_tok_def)
  assume "c \<noteq> CHR ''%''"
  then show "Some (url_decode (url_tok c @ t)) = map_option ((#) c) (Some (url_decode t))"
    by (auto simp: url_tok_def url_hex_def hex_val_def is_digit_def byte_def chr_32 push_bit_eq_mult)
qed simp_all

subsection \<open>UTF-8 texts\<close>

text \<open>The UTF-8 form of a code point, as a specification.\<close>

definition utf8_enc :: "nat \<Rightarrow> cstring" where
  "utf8_enc cp =
     (if cp < 0x80 then [chr cp]
      else if cp < 0x800 then [chr (0xC0 + cp div 64), chr (0x80 + cp mod 64)]
      else if cp < 0x10000 then
        [chr (0xE0 + cp div 4096), chr (0x80 + cp div 64 mod 64), chr (0x80 + cp mod 64)]
      else
        [chr (0xF0 + cp div 262144), chr (0x80 + cp div 4096 mod 64),
         chr (0x80 + cp div 64 mod 64), chr (0x80 + cp mod 64)])"

lemma and_push_bit: "(n::nat) AND push_bit k m = push_bit k (drop_bit k n AND m)"
  by (rule bit_eqI) (auto simp: bit_simps)

lemma and_192: "(n::nat) AND 192 = 64 * (n div 64 mod 4)"
proof -
  have "(n div 64) AND 3 = n div 64 mod 4"
    using take_bit_eq_mask [of 2 "n div 64"] by (simp add: take_bit_eq_mod mask_eq_exp_minus_1)
  then show ?thesis
    using and_push_bit [of n 6 3] by (simp add: push_bit_eq_mult drop_bit_eq_div)
qed

lemma is_cont_chr: "n < 64 \<Longrightarrow> is_cont (chr (128 + n))"
  by (simp add: is_cont_def and_192)

lemma cont_val: "x < 64 \<Longrightarrow> (128 + x) mod 64 = (x::nat)"
  by (simp add: mod_if)

lemma mod_nat_add_mult: "k mod m = 0 \<Longrightarrow> x < m \<Longrightarrow> (k + x) mod m = (x::nat)"
  by (metis add_0 mod_add_left_eq mod_less)

lemma base64_digits:
  "cp div 4096 * 4096 + cp div 64 mod 64 * 64 + cp mod 64 = (cp::nat)"
  "cp div 262144 * 262144 + cp div 4096 mod 64 * 4096 + cp div 64 mod 64 * 64 + cp mod 64 = (cp::nat)"
proof -
  have d: "cp div 4096 = cp div 64 div 64" "cp div 262144 = cp div 64 div 64 div 64"
    by (simp_all add: div_mult2_eq [symmetric])
  show "cp div 4096 * 4096 + cp div 64 mod 64 * 64 + cp mod 64 = cp"
    using div_mult_mod_eq [of cp 64] div_mult_mod_eq [of "cp div 64" 64] d by linarith
  show "cp div 262144 * 262144 + cp div 4096 mod 64 * 4096 + cp div 64 mod 64 * 64 + cp mod 64 = cp"
    using div_mult_mod_eq [of cp 64] div_mult_mod_eq [of "cp div 64" 64]
      div_mult_mod_eq [of "cp div 64 div 64" 64] unfolding d by linarith
qed

lemma byte_cont: "x < 64 \<Longrightarrow> byte (chr (128 + x)) = 128 + x"
  by simp

lemma cont_shift:
  "y < 64 \<Longrightarrow> (128 + y) * 64 mod 4096 = y * (64::nat)"
  "y < 64 \<Longrightarrow> (128 + y) * 4096 mod 262144 = y * (4096::nat)"
  by (simp_all add: mod_nat_add_mult)

lemma decode_utf8_2:
  assumes "2 \<le> a" "a < 32" "x < 64"
  shows "decode_utf8 (chr (192 + a)) (chr (128 + x) # s) = Some (a * 64 + x, s)"
proof -
  have "(192 + a) div 32 = 6" "(192 + a) * 64 mod 2048 = a * 64"
    using assms by (simp_all add: mod_nat_add_mult)
  then show ?thesis using assms
    by (simp add: decode_utf8_def is_cont_chr drop_bit_eq_div push_bit_eq_mult bit_arith cont_val)
qed

lemma decode_utf8_3:
  assumes "a < 16" "x < 64" "y < 64"
  shows "decode_utf8 (chr (224 + a)) (chr (128 + x) # chr (128 + y) # s) =
    Some (a * 4096 + x * 64 + y, s)"
proof -
  have "(224 + a) div 32 \<noteq> 6" "(224 + a) div 16 = 14" "(224 + a) * 4096 mod 65536 = a * 4096"
    using assms by (simp_all add: mod_nat_add_mult)
  then show ?thesis using assms cont_shift [OF assms(2)]
    by (simp add: decode_utf8_def is_cont_chr drop_bit_eq_div push_bit_eq_mult bit_arith cont_val)
qed

lemma utf8_lead4:
  assumes "a < (8::nat)"
  shows "(240 + a) div 32 = 7" "(240 + a) div 16 = 15" "(240 + a) div 8 = 30"
    "(62914560 + a * 262144) mod 2097152 = a * 262144"
  using assms by (simp_all add: mod_nat_add_mult)

lemma cont_shift_sums:
  "y < 64 \<Longrightarrow> (8192 + y * 64) mod 4096 = y * (64::nat)"
  "y < 64 \<Longrightarrow> (524288 + y * 4096) mod 262144 = y * (4096::nat)"
  by (simp_all add: mod_nat_add_mult)

lemma decode_utf8_4:
  assumes "a < 8" "x < 64" "y < 64" "z < 64"
  shows "decode_utf8 (chr (240 + a)) (chr (128 + x) # chr (128 + y) # chr (128 + z) # s) =
    Some (a * 262144 + x * 4096 + y * 64 + z, s)"
  using assms
  by (simp add: decode_utf8_def is_cont_chr drop_bit_eq_div push_bit_eq_mult bit_arith cont_val
      byte_cont utf8_lead4 cont_shift_sums)

lemma decode_utf8_enc:
  assumes "0x80 \<le> cp" "cp < 0x110000"
  shows "\<exists>c r. utf8_enc cp = c # r \<and> 0xC1 < byte c \<and> decode_utf8 c (r @ s) = Some (cp, s)"
proof -
  consider "cp < 0x800" | "0x800 \<le> cp" "cp < 0x10000" | "0x10000 \<le> cp" by linarith
  then show ?thesis
  proof cases
    case 1
    then have "2 \<le> cp div 64" "cp div 64 < 32" using assms by auto
    then show ?thesis using 1 assms decode_utf8_2 [of "cp div 64" "cp mod 64" s]
      by (simp add: utf8_enc_def)
  next
    case 2
    then have "cp div 4096 < 16" by auto
    from decode_utf8_3 [OF this, of "cp div 64 mod 64" "cp mod 64" s]
    have "decode_utf8 (chr (224 + cp div 4096))
        (chr (128 + cp div 64 mod 64) # chr (128 + cp mod 64) # s) = Some (cp, s)"
      by (simp only: base64_digits)
    with \<open>cp div 4096 < 16\<close> show ?thesis
      using 2 by (simp add: utf8_enc_def)
  next
    case 3
    then have "cp div 262144 < 8" using assms by auto
    from decode_utf8_4 [OF this, of "cp div 4096 mod 64" "cp div 64 mod 64" "cp mod 64" s]
    have "decode_utf8 (chr (240 + cp div 262144))
        (chr (128 + cp div 4096 mod 64) # chr (128 + cp div 64 mod 64) # chr (128 + cp mod 64) # s)
        = Some (cp, s)"
      by (simp only: base64_digits)
    with \<open>cp div 262144 < 8\<close> show ?thesis
      using 3 by (simp add: utf8_enc_def)
  qed
qed

lemma entity_chars_ascii:
  "xml_entity c \<noteq> None \<Longrightarrow> byte c \<le> 0x80" "json_escape c \<noteq> None \<Longrightarrow> byte c \<le> 0x80"
  by (auto simp: xml_entity_def json_escape_def byte_def split: if_splits)

lemma to_lead_not_special:
  assumes "0x80 < byte c"
  shows "xml_entity c = None" "json_escape c = None"
  using assms entity_chars_ascii [of c] by fastforce+

text \<open>What one code point becomes: an entity, a numeric reference or the character itself.\<close>

definition xml_spec_char :: "nat \<Rightarrow> cstring" where
  "xml_spec_char cp =
     (if cp < 0x80 then
        (case xml_entity (chr cp) of Some e \<Rightarrow> e | None \<Rightarrow> if cp < 0x20 then xml_ref cp else [chr cp])
      else xml_ref cp)"

definition json_spec_char :: "nat \<Rightarrow> cstring" where
  "json_spec_char cp =
     (if cp < 0x80 then
        (case json_escape (chr cp) of Some e \<Rightarrow> e | None \<Rightarrow> if cp < 0x20 then json_ref cp else [chr cp])
      else json_ref cp)"

lemma encoder_step_utf8:
  assumes "cp < 0x110000" and high: "\<And>c. 0x80 < byte c \<Longrightarrow> entity c = None"
  shows "\<exists>c r. utf8_enc cp = c # r \<and> encoder_step entity ref c (r @ s) =
     Some ((if cp < 0x80 then
        (case entity (chr cp) of Some e \<Rightarrow> e | None \<Rightarrow> if cp < 0x20 then ref cp else [chr cp])
      else ref cp), s)"
proof (cases "cp < 0x80")
  case True
  then show ?thesis
    by (auto simp: utf8_enc_def encoder_step_def decode_utf8_ascii split: option.split)
next
  case False
  then obtain c r where c: "utf8_enc cp = c # r" "0xC1 < byte c" "decode_utf8 c (r @ s) = Some (cp, s)"
    using decode_utf8_enc [of cp s] assms(1) by auto
  then show ?thesis using False high [of c] by (auto simp: encoder_step_def)
qed

lemma xml_encode_utf8_Cons:
  "cp < 0x110000 \<Longrightarrow> xml_encode (utf8_enc cp @ s) = xml_spec_char cp @ xml_encode s"
  using encoder_step_utf8 [of cp xml_entity xml_ref s] to_lead_not_special
  by (auto simp: xml_encode_step xml_spec_char_def simp del: xml_encode.simps)

lemma json_encode_utf8_Cons:
  "cp < 0x110000 \<Longrightarrow> json_encode (utf8_enc cp @ s) = json_spec_char cp @ json_encode s"
  using encoder_step_utf8 [of cp json_escape json_ref s] to_lead_not_special
  by (auto simp: json_encode_step json_spec_char_def simp del: json_encode.simps)

subsection \<open>Properties\<close>

text \<open>On every well-formed UTF-8 text, whatever its code points, \<open>XmlEncode\<close> and
  \<open>JsonEncode\<close> render the text code point by code point: entities and escapes for the
  markup characters, ASCII as it is, and one numeric reference per other code point (a dot
  for code points XML 1.0 or the \<open>\\u\<close> form cannot carry).\<close>

theorem encoders_render_utf8:
  assumes "\<forall>cp \<in> set cps. cp < 0x110000"
  shows "xml_encode (concat (map utf8_enc cps)) = concat (map xml_spec_char cps) \<and>
         json_encode (concat (map utf8_enc cps)) = concat (map json_spec_char cps)"
  using assms by (induction cps) (simp_all add: xml_encode_utf8_Cons json_encode_utf8_Cons)

theorem encoders_render_utf8_witness:
  "xml_encode (concat (map utf8_enc [0x3C, 0x20AC, 0x1F600])) = ''&lt;&#x0020ac;&#x01f600;'' \<and>
   json_encode (concat (map utf8_enc [0x41, 0xE9])) = ''A'' @ [bslash] @ ''u00e9''"
proof -
  have h: "\<forall>cp \<in> set [0x3C, 0x20AC, 0x1F600]. cp < (0x110000::nat)"
    "\<forall>cp \<in> set [0x41, 0xE9]. cp < (0x110000::nat)" by simp_all
  have chrs: "chr 0x41 = CHR ''A''" "chr 0x3C = CHR ''<''"
    by (simp_all add: chr_eqI byte_def)
  have "concat (map xml_spec_char [0x3C, 0x20AC, 0x1F600]) = ''&lt;&#x0020ac;&#x01f600;''"
    "concat (map json_spec_char [0x41, 0xE9]) = ''A'' @ [bslash] @ ''u00e9''"
    by (simp_all add: xml_spec_char_def json_spec_char_def xml_entity_def json_escape_def xml_ref_def
        json_ref_def xml_char_valid_def chrs to_hex_numeral)
  with encoders_render_utf8 [OF h(1)] encoders_render_utf8 [OF h(2)] show ?thesis by simp
qed


text \<open>No input can inject markup: the output of \<open>XmlEncode\<close> holds no \<open><\<close>, \<open>>\<close> or quote and
  no control character, and the output of \<open>JsonEncode\<close> no control character.\<close>

theorem encoded_text_has_no_markup:
  "list_all (\<lambda>d. d \<notin> {CHR ''<'', CHR ''>'', squote, dquote} \<and> 32 \<le> byte d) (xml_encode s) \<and>
   list_all (\<lambda>d. 32 \<le> byte d) (json_encode s)"
  using xml_enc.encode_safe json_enc.encode_safe
  by (auto simp: xml_safe_def json_safe_def list_all_iff)

text \<open>\<open>XmlDecode\<close> undoes \<open>XmlEncode\<close> on every text of printable ASCII characters.\<close>

theorem xml_decode_encode:
  assumes "\<forall>c \<in> set s. 0x20 \<le> byte c \<and> byte c \<le> 0x80"
  shows "xml_decode (xml_encode s) = Some s"
  using assms by (intro xml_codec.decode_encode) auto

theorem xml_decode_encode_witness: "xml_decode (xml_encode ''a<b & c>d'') = Some ''a<b & c>d''"
  by (rule xml_decode_encode) (simp add: byte_def)

text \<open>\<open>JsonDecode\<close> undoes \<open>JsonEncode\<close> on every text of ASCII characters, control
  characters included.\<close>

theorem json_decode_encode:
  assumes "\<forall>c \<in> set s. byte c \<le> 0x80"
  shows "json_decode (json_encode s) = Some s"
  using assms by (intro json_codec.decode_encode) auto

theorem json_decode_encode_witness:
  "json_decode (json_encode (''a/b'' @ [dquote, lf, CHR 0x01])) = Some (''a/b'' @ [dquote, lf, CHR 0x01])"
  by (rule json_decode_encode) (simp add: byte_def)

text \<open>Beyond ASCII the JSON round trip is lost: \<open>JsonDecode\<close> keeps only the low byte of a
  \<open>\\u\<close> escape, so the UTF-8 form of a code point of the Basic Multilingual Plane above
  U+007F comes back as one byte instead of its two or three.\<close>

theorem json_round_trip_loses_utf8:
  assumes "0x80 \<le> cp" "cp \<le> 0xFFFF"
  shows "json_decode (json_encode (utf8_enc cp)) = Some [chr cp] \<and> utf8_enc cp \<noteq> [chr cp]"
proof -
  have "json_encode (utf8_enc cp) = json_ref cp"
    using json_encode_utf8_Cons [of cp "[]"] assms by (simp add: json_spec_char_def)
  moreover have "json_decode (json_ref cp) = Some [chr cp]"
    using json_decode_ref [of cp "[]"] assms by simp
  moreover have "length (utf8_enc cp) \<noteq> length [chr cp]"
    using assms by (simp add: utf8_enc_def)
  ultimately show ?thesis by metis
qed

theorem json_round_trip_loses_utf8_witness:
  "json_decode (json_encode (utf8_enc 0x20AC)) = Some [chr 0x20AC]"
  using json_round_trip_loses_utf8 [of "0x20AC"] by simp

subsection \<open>Reading back what the encoders wrote\<close>

definition advance :: "nat \<Rightarrow> nat option \<Rightarrow> nat option" where
  "advance n = map_option ((+) n)"

lemma advance_simps [simp]:
  "advance 0 r = r" "advance m (advance n r) = advance (m + n) r"
  "advance n (Some k) = Some (n + k)" "advance n None = None"
  by (cases r; simp add: advance_def)+

lemma json_scan_Cons:
  "c \<noteq> bslash \<Longrightarrow> c \<noteq> dquote \<Longrightarrow> json_scan_str (c # t) = advance 1 (json_scan_str t)"
  "t \<noteq> [] \<Longrightarrow> json_scan_str (bslash # d # t) = advance 2 (json_scan_str t)"
  by (cases "json_scan_str t"; simp add: advance_def) (cases t; simp add: advance_def)

lemma json_scan_str_plain:
  "(\<And>c. c \<in> set u \<Longrightarrow> c \<noteq> bslash \<and> c \<noteq> dquote) \<Longrightarrow>
   json_scan_str (u @ t) = advance (length u) (json_scan_str t)"
  by (induction u) (simp_all add: json_scan_Cons del: json_scan_str.simps)

lemma json_scan_ref:
  assumes "t \<noteq> []"
  shows "json_scan_str (json_ref cp @ t) = advance (length (json_ref cp)) (json_scan_str t)"
proof -
  define n where "n = (if cp \<le> 0xFFFF then cp else byte CHR ''.'')"
  have n: "n < 16 ^ 4" by (auto simp: n_def byte_def)
  have pl: "c \<noteq> bslash \<and> c \<noteq> dquote" if "c \<in> set (to_hex 4 n)" for c
    using hex_val_to_hex [OF n that] by (auto simp: hex_val_def is_digit_def byte_def split: if_splits)
  have "json_scan_str (to_hex 4 n @ t) = advance (length (to_hex 4 n)) (json_scan_str t)"
    by (rule json_scan_str_plain) (rule pl)
  then show ?thesis
    using length_to_hex [OF n] assms
    by (simp add: json_ref_def n_def [symmetric] json_scan_Cons del: json_scan_str.simps)
qed

lemma json_escape_two: "json_escape c = Some e \<Longrightarrow> \<exists>d. e = [bslash, d]"
  by (auto simp: json_escape_def split: if_splits)

lemma json_scan_step:
  assumes "encoder_step json_escape json_ref c s = Some (out, s')" "t \<noteq> []"
  shows "json_scan_str (out @ t) = advance (length out) (json_scan_str t)"
proof (cases "json_escape c")
  case (Some e)
  with assms json_escape_two [OF Some] show ?thesis
    by (auto simp: encoder_step_def json_scan_Cons numeral_2_eq_2 simp del: json_scan_str.simps)
next
  case None
  then have "c \<noteq> bslash" "c \<noteq> dquote" by (auto simp: json_escape_def)
  with None assms show ?thesis
    by (auto simp: encoder_step_def json_scan_ref json_scan_Cons simp del: json_scan_str.simps
        split: if_splits)
qed

lemma json_scan_encode:
  "t \<noteq> [] \<Longrightarrow> json_scan_str (json_encode s @ t) = advance (length (json_encode s)) (json_scan_str t)"
proof (induction s rule: length_induct)
  case (1 s)
  show ?case
  proof (cases s)
    case Nil
    then show ?thesis by simp
  next
    case (Cons c r)
    show ?thesis
    proof (cases "encoder_step json_escape json_ref c r")
      case None
      then show ?thesis by (simp add: Cons json_encode_step del: json_encode.simps)
    next
      case (Some p)
      then obtain out s' where st: "encoder_step json_escape json_ref c r = Some (out, s')"
        by (cases p) simp
      then have "length s' < length s" using json_enc.step_cost [OF st] Cons by auto
      with 1 have ih: "json_scan_str (json_encode s' @ t) =
          advance (length (json_encode s')) (json_scan_str t)" by blast
      have "json_encode s' @ t \<noteq> []" using 1(2) by simp
      from json_scan_step [OF st this] ih show ?thesis
        unfolding Cons json_encode_step st by simp
    qed
  qed
qed

text \<open>\<open>JsonNextValue\<close> delimits exactly the string \<open>JsonEncode\<close> wrote, for any text at
  all: after separators, at the opening quote it returns the position of that quote and the
  length up to and including the closing quote, whatever follows.\<close>

theorem json_next_value_reads_encoded:
  assumes "\<forall>c \<in> set ws. c \<in> set json_skip_set"
  shows "json_next_value (ws @ dquote # json_encode s @ dquote # rest) =
    Some (dquote # json_encode s @ dquote # rest, length (json_encode s) + 2)"
proof -
  have "dropWhile (\<lambda>c. c \<in> set json_skip_set) (ws @ dquote # json_encode s @ dquote # rest) =
      dquote # json_encode s @ dquote # rest"
    using assms by (simp add: dropWhile_append json_skip_set_def)
  then show ?thesis by (simp add: json_next_value_def json_scan_encode)
qed

theorem json_next_value_reads_encoded_witness:
  "json_next_value ('' , '' @ dquote # json_encode [dquote, bslash] @ dquote # '', 7'') =
    Some (dquote # json_encode [dquote, bslash] @ dquote # '', 7'', length (json_encode [dquote, bslash]) + 2)"
  by (rule json_next_value_reads_encoded) (simp add: json_skip_set_def)

lemma strstr_None_hd:
  "p \<noteq> [] \<Longrightarrow> hd p \<notin> set u \<Longrightarrow> strstr (u @ t) p = strstr t p"
proof (induction u)
  case Nil
  then show ?case by simp
next
  case (Cons c u)
  then obtain d q where "p = d # q" by (cases p) auto
  with Cons show ?case by auto
qed

lemma strstr_prefix: "starts_with p s \<Longrightarrow> strstr s p = Some s"
  by (cases s) (auto simp: starts_with_def split: if_splits)

lemma xml_find_tag_at_start:
  assumes "strstr xml (bstring100 (''<'' @ tag @ ''>'')) = Some xml"
    and "strstr xml (bstring100 (''</'' @ tag @ ''>'')) = Some q"
  shows "xml_find_tag xml tag =
    Some (drop (length (bstring100 (''<'' @ tag @ ''>''))) xml,
          length xml - length q - length (bstring100 (''<'' @ tag @ ''>'')))"
proof -
  have "\<not> length e > length xml" if "strstr xml (bstring100 (''<'' @ tag @ ''/>'')) = Some e" for e
    using strstr_SomeD [OF that] by auto
  with assms show ?thesis
    by (auto simp: xml_find_tag_def Let_def split: option.split)
qed

text \<open>\<open>XmlFindTag\<close> finds the value \<open>XmlEncode\<close> wrote between an opening and a closing
  tag and returns exactly its length, whatever the value and whatever follows (tags short
  enough for the 100-byte buffers and without markup of their own).\<close>

theorem xml_find_tag_reads_encoded:
  assumes "length tag \<le> 96" "CHR ''<'' \<notin> set tag" "CHR ''/'' \<notin> set tag"
  shows "xml_find_tag (''<'' @ tag @ ''>'' @ xml_encode s @ ''</'' @ tag @ ''>'' @ rest) tag =
    Some (xml_encode s @ ''</'' @ tag @ ''>'' @ rest, length (xml_encode s))"
proof -
  let ?xml = "''<'' @ tag @ ''>'' @ xml_encode s @ ''</'' @ tag @ ''>'' @ rest"
  let ?close = "''</'' @ tag @ ''>''"
  have nolt: "CHR ''<'' \<notin> set (xml_encode s)"
    using xml_enc.encode_safe by (auto simp: xml_safe_def)
  have bs: "bstring100 (''<'' @ tag @ ''>'') = ''<'' @ tag @ ''>''"
    "bstring100 ?close = ?close" "bstring100 (''<'' @ tag @ ''/>'') = ''<'' @ tag @ ''/>''"
    using assms(1) by (simp_all add: bstring100_def)
  have op: "strstr ?xml (''<'' @ tag @ ''>'') = Some ?xml"
    by (rule strstr_prefix) (simp add: starts_with_def)
  have cl: "strstr ?xml ?close = Some (?close @ rest)"
  proof -
    have t: "\<not> starts_with (CHR ''/'' # tag @ ''>'') (tag @ ''>'' @ xml_encode s @ ?close @ rest)"
      using assms(3) by (cases tag) auto
    have "strstr (tag @ ''>'' @ xml_encode s @ ?close @ rest) ?close = strstr (?close @ rest) ?close"
      using strstr_None_hd [of ?close "tag @ ''>'' @ xml_encode s" "?close @ rest"] nolt assms(2) by simp
    also have "\<dots> = Some (?close @ rest)"
      by (rule strstr_prefix) (simp add: starts_with_def)
    finally show ?thesis using t by simp
  qed
  show ?thesis
    using xml_find_tag_at_start [of ?xml tag "?close @ rest", unfolded bs, OF op cl] by simp
qed

theorem xml_find_tag_reads_encoded_witness:
  "xml_find_tag (''<'' @ ''name'' @ ''>'' @ xml_encode ''a<b'' @ ''</'' @ ''name'' @ ''>'' @ ''<x>'') ''name'' =
    Some (xml_encode ''a<b'' @ ''</'' @ ''name'' @ ''>'' @ ''<x>'', length (xml_encode ''a<b''))"
  by (rule xml_find_tag_reads_encoded) simp_all

subsection \<open>Inputs that leave the buffer\<close>

lemma decoders_Cons:
  "CHR ''&'' \<noteq> c \<Longrightarrow> xml_decode (c # s) = map_option ((#) c) (xml_decode s)"
  "CHR ''&'' \<noteq> c \<Longrightarrow> xml_remove_entities (c # s) = map_option ((#) c) (xml_remove_entities s)"
  "bslash \<noteq> c \<Longrightarrow> json_decode (c # s) = map_option ((#) c) (json_decode s)"
  by auto

lemma decoders_plain:
  "CHR ''&'' \<notin> set s \<Longrightarrow> xml_decode (s @ t) = map_option ((@) s) (xml_decode t)"
  "CHR ''&'' \<notin> set s \<Longrightarrow> xml_remove_entities (s @ t) = map_option ((@) s) (xml_remove_entities t)"
  "bslash \<notin> set s \<Longrightarrow> json_decode (s @ t) = map_option ((@) s) (json_decode t)"
  by (induction s)
    (simp_all add: decoders_Cons map_option_append
      del: xml_decode.simps xml_remove_entities.simps json_decode.simps)

text \<open>The in-place decoders read past the end of their buffer: \<open>XmlDecode\<close> on a text that
  ends in an ampersand or in an unterminated numeric entity, \<open>XmlRemoveEntities\<close> on a text
  whose last ampersand is followed by letters only (such as \<open>AT&T\<close>), and \<open>JsonDecode\<close> on a
  text that ends in a backslash or in a short \<open>\u\<close> escape.\<close>

theorem decoders_leave_buffer:
  assumes "CHR ''&'' \<notin> set s" "bslash \<notin> set s"
    and "\<forall>c \<in> set ds. is_digit c" "\<forall>c \<in> set w. is_alpha c" "length h < 4"
  shows "xml_decode (s @ ''&'') = None \<and> xml_decode (s @ ''&#'' @ ds) = None \<and>
    xml_remove_entities (s @ ''&'' @ w) = None \<and>
    json_decode (s @ [bslash]) = None \<and> json_decode (s @ bslash # CHR ''u'' # h) = None"
proof (intro conjI)
  have "strchr_in ''0123456789;'' c" if "is_digit c" for c
    using that by (auto simp: strchr_in_def is_digit_iff)
  then have d: "dropWhile (\<lambda>c. strchr_in ''0123456789;'' c) ds = []"
    using assms(3) by (simp add: dropWhile_eq_Nil_conv)
  have "xml_decode (''&#'' @ ds) = None"
    by (simp add: xml_num_rest_def d del: dropWhile_eq_Nil_conv)
  then show "xml_decode (s @ ''&#'' @ ds) = None"
    using assms(1) by (simp add: decoders_plain del: xml_decode.simps)
  have w: "dropWhile entity_char w = []"
    using assms(4) by (simp add: dropWhile_eq_Nil_conv entity_char_def)
  have "xml_remove_entities (''&'' @ w) = None"
    by (simp add: w del: dropWhile_eq_Nil_conv)
  then show "xml_remove_entities (s @ ''&'' @ w) = None"
    using assms(1) by (simp add: decoders_plain del: xml_remove_entities.simps)
qed (use assms in \<open>simp_all add: decoders_plain\<close>)

theorem decoders_leave_buffer_witness:
  "xml_decode (''a'' @ ''&#'' @ ''12'') = None \<and> xml_remove_entities (''a'' @ ''&'' @ ''T'') = None \<and>
   json_decode (''a'' @ bslash # CHR ''u'' # ''0'') = None"
  using decoders_leave_buffer [of "''a''" "''12''" "''T''" "''0''"]
  by (simp add: is_digit_def is_alpha_def is_upper_def byte_def)

text \<open>\<open>HttpUnquote\<close> returns a quoted text without escapes as it is, but a quoted pair
  \<open>\"\<close> ends the result: what follows an escaped quote is lost.\<close>

theorem http_unquote_truncates_at_escaped_quote:
  assumes "\<forall>c \<in> set s. c \<noteq> dquote \<and> c \<noteq> bslash \<and> c \<noteq> nul"
  shows "http_unquote (dquote # s @ dquote # t) = s \<and>
         http_unquote (dquote # s @ bslash # dquote # t) = s @ [dquote]"
proof -
  have "http_unquote_loop (s @ dquote # t) = s"
    "http_unquote_loop (s @ bslash # dquote # t) = s @ [dquote]"
    using assms by (induction s) simp_all
  then show ?thesis
    using assms by (auto simp: http_unquote_def c_str_def takeWhile_eq_all_conv)
qed

theorem http_unquote_truncates_at_escaped_quote_witness:
  "http_unquote (dquote # ''say '' @ bslash # dquote # ''hi'' @ [bslash, dquote, dquote]) = ''say '' @ [dquote]"
  using http_unquote_truncates_at_escaped_quote [of "''say ''" "''hi'' @ [bslash, dquote, dquote]"] by simp

lemma latin1_lead:
  "128 \<le> n \<Longrightarrow> n < 256 \<Longrightarrow> 194 + (if 191 < n then 1 else 0) = 192 + n div (64::nat)"
  by (cases "191 < n"; simp; presburger)

text \<open>\<open>Latin1ToUtf8\<close> is the UTF-8 form of the text read as ISO-8859-1: character by
  character, the UTF-8 encoding of the code point the byte stands for.\<close>

theorem latin1_to_utf8_correct:
  "latin1_to_utf8 s = concat (map (\<lambda>c. utf8_enc (byte c)) s)"
proof (induction s)
  case Nil
  then show ?case by simp
next
  case (Cons c s)
  have b: "byte c < 256" by simp
  have "latin1_to_utf8 [c] = utf8_enc (byte c)"
  proof (cases "byte c < 128")
    case False
    have "0xc2 + (if byte c > 0xbf then 1 else 0) = 0xC0 + byte c div 64"
      using b False latin1_lead [of "byte c"] by simp
    then have "chr (0xc2 + (if byte c > 0xbf then 1 else 0)) = chr (0xC0 + byte c div 64)"
      by (rule arg_cong)
    moreover have "byte c < 2048" using b by linarith
    ultimately show ?thesis using False by (simp add: utf8_enc_def bit_arith add.commute)
  qed (simp add: utf8_enc_def)
  with Cons show ?case by auto
qed

end
