(* ===== verification/Crc.thy ===== *)
theory Crc
  imports Prelude
begin

text \<open>
  \<open>Crc32\<close> of \<open>daemon/util/Util.cpp\<close>: the running checksum of the article decoder and the
  article writer, and \<open>Crc32::Combine\<close>, the GF(2) matrix algorithm that joins the checksums of
  two adjacent segments without reading their data again. The checksum of a block itself is
  computed by the external \<open>rapidyenc_crc\<close>; it is a parameter of the model, and its documented
  result, the CRC-32 of the data continued from an initial value, is the specification
  \<open>crc32_update\<close>.

  Result: joining segment checksums with \<open>Combine\<close> gives the checksum of the joined data.
\<close>

unbundle bit_operations_syntax

type_synonym u32 = "32 word"

section \<open>The model\<close>

fun gf2_loop :: "u32 \<Rightarrow> u32 list \<Rightarrow> u32 \<Rightarrow> u32" where
  "gf2_loop acc [] vec = acc"
| "gf2_loop acc (m # mat) vec =
     (if vec = 0 then acc
      else gf2_loop (if vec AND 1 \<noteq> 0 then acc XOR m else acc) mat (drop_bit 1 vec))"

definition gf2_matrix_times :: "u32 list \<Rightarrow> u32 \<Rightarrow> u32" where
  "gf2_matrix_times mat vec = gf2_loop 0 mat vec"

definition gf2_matrix_square :: "u32 list \<Rightarrow> u32 list" where
  "gf2_matrix_square mat = map (\<lambda>n. gf2_matrix_times mat (mat ! n)) [0..<32]"

definition crc_odd_init :: "u32 list" where
  \<comment> \<open>the operator for one zero bit: the polynomial, then the rows 1, 2, 4, ...\<close>
  "crc_odd_init = 0xEDB88320 # map (\<lambda>n. push_bit n 1) [0..<31]"

function combine_loop :: "u32 list \<Rightarrow> u32 \<Rightarrow> u32 \<Rightarrow> u32" where
  "combine_loop oddm crc1 len2 =
     (let evenm = gf2_matrix_square oddm;
          crc1' = (if len2 AND 1 \<noteq> 0 then gf2_matrix_times evenm crc1 else crc1);
          len2' = drop_bit 1 len2
      in if len2' = 0 then crc1'
         else
           (let oddm' = gf2_matrix_square evenm;
                crc1'' = (if len2' AND 1 \<noteq> 0 then gf2_matrix_times oddm' crc1' else crc1');
                len2'' = drop_bit 1 len2'
            in if len2'' \<noteq> 0 then combine_loop oddm' crc1'' len2'' else crc1''))"
  by pat_completeness auto
termination
proof (relation "measure (\<lambda>(oddm, crc1, len2). unat len2)", goal_cases)
  case 1
  then show ?case by simp
next
  case (2 oddm crc1 len2 x xa xb xc xd xe)
  then have "unat len2 \<noteq> 0"
    by (metis drop_bit_of_0 unat_eq_zero)
  moreover have "unat (drop_bit 1 (drop_bit 1 len2)) = unat len2 div 4"
    unfolding unat_drop_bit_eq by (simp add: drop_bit_eq_div flip: div_mult2_eq)
  ultimately show ?case using 2 by simp
qed

declare combine_loop.simps [simp del]

definition crc32_combine :: "u32 \<Rightarrow> u32 \<Rightarrow> u32 \<Rightarrow> u32" where
  "crc32_combine crc1 crc2 len2 =
     (if len2 \<le> 0 then crc1
      else
        (let oddm = gf2_matrix_square (gf2_matrix_square crc_odd_init)
         in combine_loop oddm crc1 len2 XOR crc2))"

text \<open>The running checksum: \<open>Reset\<close>, \<open>Append\<close> with the external block function, \<open>Finish\<close>.\<close>

definition crc_reset :: u32 where
  "crc_reset = 0"

definition crc_append :: "(cstring \<Rightarrow> u32 \<Rightarrow> u32) \<Rightarrow> cstring \<Rightarrow> u32 \<Rightarrow> u32" where
  "crc_append rapidyenc_crc block currentCrc = rapidyenc_crc block currentCrc"

definition crc_finish :: "u32 \<Rightarrow> u32" where
  "crc_finish currentCrc = currentCrc"

section \<open>CRC-32 as a specification\<close>

definition crc_bit :: "u32 \<Rightarrow> u32" where
  "crc_bit c = (if c AND 1 \<noteq> 0 then drop_bit 1 c XOR 0xEDB88320 else drop_bit 1 c)"

definition crc_byte :: "u32 \<Rightarrow> char \<Rightarrow> u32" where
  "crc_byte c b = (crc_bit ^^ 8) (c XOR word_of_nat (byte b))"

definition crc_raw :: "u32 \<Rightarrow> cstring \<Rightarrow> u32" where
  "crc_raw c bs = foldl crc_byte c bs"

definition crc32_update :: "cstring \<Rightarrow> u32 \<Rightarrow> u32" where
  "crc32_update bs c = NOT (crc_raw (NOT c) bs)"

abbreviation crc32 :: "cstring \<Rightarrow> u32" where
  "crc32 bs \<equiv> crc32_update bs 0"

section \<open>Linear maps of 32-bit vectors\<close>

definition xor_linear :: "(u32 \<Rightarrow> u32) \<Rightarrow> bool" where
  "xor_linear f \<longleftrightarrow> (\<forall>x y. f (x XOR y) = f x XOR f y)"

lemma xor_linearD: "xor_linear f \<Longrightarrow> f (x XOR y) = f x XOR f y"
  by (simp add: xor_linear_def)

lemma xor_linear_0: "xor_linear f \<Longrightarrow> f 0 = 0"
  using xor_linearD [of f 0 0] by simp

lemma xor_linear_comp: "xor_linear f \<Longrightarrow> xor_linear g \<Longrightarrow> xor_linear (f \<circ> g)"
  by (simp add: xor_linear_def)

lemma xor_linear_funpow: "xor_linear f \<Longrightarrow> xor_linear (f ^^ n)"
  by (induction n) (simp_all add: xor_linear_def)

text \<open>A list of 32 columns represents a map when its columns are the images of the unit vectors.\<close>

definition represents :: "u32 list \<Rightarrow> (u32 \<Rightarrow> u32) \<Rightarrow> bool" where
  "represents mat f \<longleftrightarrow>
     length mat = 32 \<and> xor_linear f \<and> (\<forall>n < 32. mat ! n = f (push_bit n 1))"

lemma word_split_low_bit:
  fixes v :: u32
  shows "push_bit n v = (if v AND 1 \<noteq> 0 then push_bit n 1 else 0) XOR push_bit (Suc n) (drop_bit 1 v)"
proof (rule bit_word_eqI)
  fix i
  assume i: "i < LENGTH(32)"
  show "bit (push_bit n v) i =
      bit ((if v AND 1 \<noteq> 0 then push_bit n 1 else 0) XOR push_bit (Suc n) (drop_bit 1 v)) i"
    using i by (cases i n rule: linorder_cases)
      (auto simp: bit_simps and_one_eq mod_2_eq_odd bit_0 Suc_le_eq Suc_diff_Suc simp del: push_bit_Suc)
qed

lemma gf2_loop_linear:
  assumes f: "xor_linear f" and "k + length mat = 32"
    and "\<forall>n < length mat. mat ! n = f (push_bit (k + n) 1)"
  shows "gf2_loop acc mat vec = acc XOR f (push_bit k vec)"
  using assms(2,3)
proof (induction mat arbitrary: k acc vec)
  case Nil
  then have "push_bit k vec = 0"
    by (intro bit_word_eqI) (simp add: bit_simps)
  then show ?case using xor_linear_0 [OF f] by simp
next
  case (Cons m mat)
  have m: "m = f (push_bit k 1)" using Cons.prems(2) by force
  have ih: "gf2_loop s mat v = s XOR f (push_bit (Suc k) v)" for s v
    using Cons.prems by (intro Cons.IH) force+
  show ?case
  proof (cases "vec = 0")
    case True
    then show ?thesis using xor_linear_0 [OF f] by simp
  next
    case False
    have "f (push_bit k vec) =
        (if vec AND 1 \<noteq> 0 then m else 0) XOR f (push_bit (Suc k) (drop_bit 1 vec))"
      by (subst word_split_low_bit)
         (use xor_linear_0 [OF f] in \<open>simp add: xor_linearD [OF f] m del: push_bit_Suc\<close>)
    with False show ?thesis
      by (simp add: ih ac_simps del: push_bit_Suc)
  qed
qed

lemma gf2_times_represents:
  assumes "represents mat f"
  shows "gf2_matrix_times mat v = f v"
  using gf2_loop_linear [of f 0 mat 0 v] assms
  by (simp add: represents_def gf2_matrix_times_def)

lemma gf2_square_represents:
  assumes "represents mat f"
  shows "represents (gf2_matrix_square mat) (f \<circ> f)"
  using assms
  by (auto simp: represents_def gf2_matrix_square_def xor_linear_comp
      gf2_times_represents [OF assms])

section \<open>The zero operators and the loop\<close>

lemma crc_bit_linear: "xor_linear crc_bit"
proof -
  have "crc_bit (x XOR y) = crc_bit x XOR crc_bit y" for x y
  proof -
    have odd: "((x XOR y) AND 1 \<noteq> 0) \<longleftrightarrow> ((x AND 1 \<noteq> 0) \<noteq> (y AND 1 \<noteq> 0))"
      by (simp add: and_one_eq mod_2_eq_odd even_xor_iff)
    show ?thesis
      by (cases "x AND 1 = 0"; cases "y AND 1 = 0")
         (use odd in \<open>simp_all add: crc_bit_def drop_bit_xor ac_simps\<close>)
  qed
  then show ?thesis by (simp add: xor_linear_def)
qed

lemma crc_bit_unit: "crc_bit 1 = 0xEDB88320" "n < 31 \<Longrightarrow> crc_bit (push_bit (Suc n) 1) = push_bit n 1"
proof -
  show "crc_bit 1 = 0xEDB88320" by (simp add: crc_bit_def)
  assume n: "n < 31"
  have "push_bit (Suc n) 1 AND (1::u32) = 0"
    by (rule bit_word_eqI) (auto simp: bit_simps)
  moreover have "drop_bit 1 (push_bit (Suc n) (1::u32)) = push_bit n 1"
    using n by (intro bit_word_eqI) (auto simp: bit_simps simp del: push_bit_Suc)
  ultimately show "crc_bit (push_bit (Suc n) 1) = push_bit n 1"
    by (simp add: crc_bit_def del: push_bit_Suc)
qed

lemma crc_odd_init_represents: "represents crc_odd_init crc_bit"
  unfolding represents_def
proof (intro conjI allI impI)
  show "length crc_odd_init = 32" by (simp add: crc_odd_init_def)
  show "xor_linear crc_bit" by (rule crc_bit_linear)
  fix n :: nat
  assume "n < 32"
  show "crc_odd_init ! n = crc_bit (push_bit n 1)"
  proof (cases n)
    case 0
    then show ?thesis by (simp add: crc_odd_init_def crc_bit_unit)
  next
    case (Suc m)
    then have "crc_bit (push_bit n 1) = push_bit m 1"
      using \<open>n < 32\<close> crc_bit_unit(2) [of m] by simp
    with Suc \<open>n < 32\<close> show ?thesis by (simp add: crc_odd_init_def)
  qed
qed

text \<open>The zero operator applied as often as the remaining length says.\<close>

lemma funpow_half:
  "(if n mod 2 \<noteq> 0 then f c else c) = (f ^^ (n mod 2)) (c :: 'a)"
proof -
  have "n mod 2 = 0 \<or> n mod 2 = 1" by auto
  then show ?thesis by auto
qed

lemma low_bit_unat: "(len AND (1::u32) \<noteq> 0) \<longleftrightarrow> unat len mod 2 \<noteq> 0"
proof -
  have "(len AND 1 \<noteq> 0) \<longleftrightarrow> odd len" by (simp add: and_one_eq mod_2_eq_odd)
  moreover have "odd len \<longleftrightarrow> bit len 0" by (simp add: bit_0)
  moreover have "bit len 0 \<longleftrightarrow> bit (unat len) 0" by (simp only: bit_unsigned_iff) (simp add: bit_0)
  moreover have "bit (unat len) 0 \<longleftrightarrow> odd (unat len)" by (simp add: bit_0)
  ultimately show ?thesis by (simp add: odd_iff_mod_2_eq_one)
qed

lemma unat_shift: "unat (drop_bit 1 (len::u32)) = unat len div 2"
  unfolding unat_drop_bit_eq by (simp add: drop_bit_eq_div)

lemma combine_loop_funpow:
  "represents oddm f \<Longrightarrow> combine_loop oddm c len = ((f \<circ> f) ^^ unat len) c"
proof (induction oddm c len arbitrary: f rule: combine_loop.induct)
  case (1 oddm c len)
  define g where "g = f \<circ> f"
  define evenm where "evenm = gf2_matrix_square oddm"
  define c1 where "c1 = (if len AND 1 \<noteq> 0 then gf2_matrix_times evenm c else c)"
  define l1 where "l1 = drop_bit 1 len"
  define oddm' where "oddm' = gf2_matrix_square evenm"
  define c2 where "c2 = (if l1 AND 1 \<noteq> 0 then gf2_matrix_times oddm' c1 else c1)"
  define l2 where "l2 = drop_bit 1 l1"
  have ev: "represents evenm g" using gf2_square_represents [OF 1(2)] by (simp add: evenm_def g_def)
  then have od: "represents oddm' (g \<circ> g)" by (simp add: oddm'_def gf2_square_represents)
  have c1: "c1 = (g ^^ (unat len mod 2)) c"
    by (simp add: c1_def gf2_times_represents [OF ev] low_bit_unat funpow_half)
  have c2: "c2 = ((g \<circ> g) ^^ (unat l1 mod 2)) c1"
    unfolding c2_def by (simp only: gf2_times_represents [OF od] low_bit_unat funpow_half)
  have sq: "((g \<circ> g) ^^ k) = g ^^ (2 * k)" for k
    using funpow_mult [where m = 2 and n = k and f = g] by (simp add: numeral_2_eq_2 comp_def)
  have u1: "unat l1 = unat len div 2" and u2: "unat l2 = unat len div 2 div 2"
    by (simp_all only: l1_def l2_def unat_shift)
  have step1: "(g ^^ (2 * (unat len div 2))) c1 = (g ^^ unat len) c"
    by (simp add: c1 flip: funpow_add comp_apply [of "g ^^ _" "g ^^ _"])
  have unf: "combine_loop oddm c len =
      (if l1 = 0 then c1 else if l2 \<noteq> 0 then combine_loop oddm' c2 l2 else c2)"
    by (subst combine_loop.simps)
       (simp add: Let_def evenm_def c1_def l1_def oddm'_def c2_def l2_def)
  show ?case
  proof (cases "l1 = 0")
    case True
    then have "unat len div 2 = 0" using u1 by simp
    with True step1 show ?thesis by (simp add: unf flip: g_def)
  next
    case False
    have step2: "(g ^^ (4 * (unat len div 2 div 2))) c2 = (g ^^ (2 * (unat len div 2))) c1"
    proof -
      have "4 * (unat len div 2 div 2) + 2 * (unat l1 mod 2) = 2 * (unat len div 2)"
        unfolding u1 using div_mult_mod_eq [of "unat len div 2" 2] by linarith
      then show ?thesis by (metis c2 comp_apply funpow_add sq)
    qed
    show ?thesis
    proof (cases "l2 = 0")
      case True
      then have "unat len div 2 div 2 = 0" using u2 by simp
      with True False step1 step2 show ?thesis by (simp add: unf flip: g_def)
    next
      case l2: False
      have "combine_loop oddm' c2 l2 = (((g \<circ> g) \<circ> (g \<circ> g)) ^^ unat l2) c2"
        by (rule 1(1) [OF evenm_def c1_def l1_def False oddm'_def c2_def l2_def l2 od])
      also have "((g \<circ> g) \<circ> (g \<circ> g)) ^^ unat l2 = g ^^ (4 * unat l2)"
      proof -
        have "(g \<circ> g) \<circ> (g \<circ> g) = g ^^ 4" by (simp add: numeral_eq_Suc comp_assoc)
        then show ?thesis by (simp only: funpow_mult)
      qed
      finally show ?thesis using l2 False step1 step2 u2
        by (simp add: unf flip: g_def)
    qed
  qed
qed

section \<open>Combining checksums\<close>

lemma crc_byte_xor: "crc_byte (c XOR d) b = crc_byte c b XOR (crc_bit ^^ 8) d"
proof -
  have "crc_byte (c XOR d) b = (crc_bit ^^ 8) ((c XOR word_of_nat (byte b)) XOR d)"
    by (simp add: crc_byte_def ac_simps)
  then show ?thesis
    unfolding crc_byte_def by (simp only: xor_linearD [OF xor_linear_funpow [OF crc_bit_linear]])
qed

lemma crc_raw_xor:
  "crc_raw (c XOR d) bs = crc_raw c bs XOR (crc_bit ^^ (8 * length bs)) d"
proof (induction bs arbitrary: c d)
  case Nil
  then show ?case by (simp add: crc_raw_def)
next
  case (Cons b bs)
  have "crc_raw (c XOR d) (b # bs) = crc_raw (crc_byte c b XOR (crc_bit ^^ 8) d) bs"
    by (simp add: crc_raw_def crc_byte_xor)
  also have "\<dots> = crc_raw (crc_byte c b) bs XOR (crc_bit ^^ (8 * length bs)) ((crc_bit ^^ 8) d)"
    by (rule Cons.IH)
  also have "(crc_bit ^^ (8 * length bs)) ((crc_bit ^^ 8) d) = (crc_bit ^^ (8 * length (b # bs))) d"
  proof -
    have "8 * length (b # bs) = 8 * length bs + 8" by simp
    then show ?thesis by (simp only: funpow_add comp_apply)
  qed
  finally show ?case by (simp add: crc_raw_def)
qed

lemma crc32_update_append: "crc32_update (xs @ ys) c = crc32_update ys (crc32_update xs c)"
  by (simp add: crc32_update_def crc_raw_def)

lemma crc32_update_Nil: "crc32_update [] c = c"
  by (simp add: crc32_update_def crc_raw_def)

lemma crc32_append_zero_op:
  "crc32 (xs @ ys) = (crc_bit ^^ (8 * length ys)) (crc32 xs) XOR crc32 ys"
proof -
  have n: "NOT (crc32 xs) = NOT 0 XOR crc32 xs"
    by (rule bit_word_eqI) (simp add: bit_simps)
  have "crc32 (xs @ ys) = NOT (crc_raw (NOT 0 XOR crc32 xs) ys)"
    unfolding crc32_update_append by (subst crc32_update_def) (simp only: n)
  also have "\<dots> = NOT (crc_raw (NOT 0) ys) XOR (crc_bit ^^ (8 * length ys)) (crc32 xs)"
    by (simp only: crc_raw_xor) simp
  finally show ?thesis by (simp add: crc32_update_def xor.commute)
qed

lemma crc32_combine_funpow:
  "crc32_combine c1 c2 len = (if len = 0 then c1 else (crc_bit ^^ (8 * unat len)) c1 XOR c2)"
proof -
  have sq: "crc_bit \<circ> crc_bit = crc_bit ^^ 2" by (simp add: numeral_2_eq_2)
  have four: "(crc_bit ^^ 2) \<circ> (crc_bit ^^ 2) = crc_bit ^^ 4" by (simp flip: funpow_add)
  have "represents (gf2_matrix_square (gf2_matrix_square crc_odd_init)) (crc_bit ^^ 4)"
    using gf2_square_represents [OF gf2_square_represents [OF crc_odd_init_represents]]
    by (simp only: sq four)
  then have "combine_loop (gf2_matrix_square (gf2_matrix_square crc_odd_init)) c1 len =
      (((crc_bit ^^ 4) \<circ> (crc_bit ^^ 4)) ^^ unat len) c1"
    by (rule combine_loop_funpow)
  also have "(crc_bit ^^ 4) \<circ> (crc_bit ^^ 4) = crc_bit ^^ 8" by (simp flip: funpow_add)
  finally show ?thesis
    by (simp add: crc32_combine_def Let_def funpow_mult word_le_0_iff)
qed

text \<open>
  What the users of \<open>Crc32\<close> rely on about the external block function: continuing a checksum
  over two blocks is continuing it over their concatenation.
\<close>

locale crc_engine =
  fixes engine :: "cstring \<Rightarrow> u32 \<Rightarrow> u32"
  assumes engine_Nil: "engine [] c = c"
    and engine_append: "engine (xs @ ys) c = engine ys (engine xs c)"
begin

lemma append_blocks: "foldl (\<lambda>c b. crc_append engine b c) c blocks = engine (concat blocks) c"
  by (induction blocks arbitrary: c) (simp_all add: crc_append_def engine_Nil engine_append)

end

interpretation crc: crc_engine crc32_update
  by unfold_locales (rule crc32_update_Nil, rule crc32_update_append)

text \<open>C7: \<open>Crc32::Combine\<close> is correct: given the checksums of two adjacent pieces of data and the
  length of the second, it returns the checksum of the joined data, for every length that
  fits its 32-bit argument. The block function is the external \<open>rapidyenc_crc\<close>, which computes
  the CRC-32 of the block continued from the given value.\<close>

theorem crc32_combine_correct:
  assumes "\<forall>bs c. rapidyenc_crc bs c = crc32_update bs c" and "length ys < 2 ^ 32"
  shows "crc32_combine (crc_append rapidyenc_crc xs crc_reset) (crc_append rapidyenc_crc ys crc_reset)
           (word_of_nat (length ys)) = crc_append rapidyenc_crc (xs @ ys) crc_reset"
proof -
  have "unat (word_of_nat (length ys) :: u32) = length ys"
    using assms(2) by (simp add: unat_of_nat take_bit_eq_mod)
  moreover from this have "(word_of_nat (length ys) :: u32) = 0 \<longleftrightarrow> ys = []"
    by (metis length_0_conv unat_eq_zero)
  ultimately show ?thesis
    using crc32_append_zero_op [of xs ys]
    by (auto simp: crc32_combine_funpow crc_append_def crc_reset_def assms(1) crc32_update_Nil)
qed

theorem crc32_combine_correct_witness:
  "crc32_combine (crc_append crc32_update ''ab'' crc_reset) (crc_append crc32_update ''c'' crc_reset)
     (word_of_nat (length ''c'')) = crc_append crc32_update (''ab'' @ ''c'') crc_reset"
  by (rule crc32_combine_correct) simp_all

text \<open>\<open>Combine\<close> joins any number of segments from the left: folding it over the checksums and
  lengths of the segments of a file gives the checksum of the file, however it was cut.\<close>

theorem crc32_combine_segments:
  assumes "\<forall>s \<in> set segs. length s < 2 ^ 32"
  shows "foldl (\<lambda>crc s. crc32_combine crc (crc32 s) (word_of_nat (length s))) (crc32 hd_seg) segs =
    crc32 (hd_seg @ concat segs)"
  using assms
proof (induction segs arbitrary: hd_seg)
  case Nil
  then show ?case by simp
next
  case (Cons s segs)
  have "crc32_combine (crc32 hd_seg) (crc32 s) (word_of_nat (length s)) = crc32 (hd_seg @ s)"
    using crc32_combine_funpow crc32_append_zero_op [of hd_seg s] Cons.prems
    by (cases "s = []") (auto simp: word_of_nat_eq_0_iff unat_of_nat take_bit_eq_mod crc32_update_Nil dest: dvd_imp_le)
  with Cons show ?case by simp
qed

end
