(* ===== verification/Decoder.thy ===== *)
theory Decoder
  imports Crc WebText "HOL-Library.Sublist"
begin

text \<open>
  The article decoder, \<open>daemon/nntp/Decoder.cpp\<close>: yEnc and UU decoding of the article body
  as it arrives from the news server in buffers of arbitrary size, the raw mode used for
  hard-linked articles, and the final check of the article.

  The block decoder \<open>rapidyenc_decode_incremental\<close> and the checksum \<open>rapidyenc_crc\<close> are
  external; both are arguments of the definitions. The block decoder takes its state and the
  bytes and returns the end sequence it met (0, 1 or 2), the number of bytes consumed, the
  bytes produced and its new state.

  \<open>StringBuilder::Append\<close> copies with \<open>strncpy\<close>: after a NUL the rest of the block is zeros.
  The line loop treats the buffer as a C string.
\<close>

section \<open>State\<close>

datatype e_status = dsUnknownError | dsFinished | dsArticleIncomplete | dsCrcError
  | dsInvalidSize | dsNoBinaryData

datatype e_format = efUnknown | efYenc | efUx

record decoder =
  d_format :: e_format
  d_begin :: bool
  d_part :: bool
  d_body :: bool
  d_end :: bool
  d_crc :: bool
  d_expectedCRC :: u32
  d_calculatedCRC :: u32
  d_beginPos :: int
  d_endPos :: int
  d_size :: int
  d_endSize :: int
  d_outSize :: int
  d_eof :: bool
  d_crcCheck :: bool
  d_state :: nat
  d_rawMode :: bool
  d_articleFilename :: cstring
  d_lineBuf :: cstring
  d_crc32 :: u32

type_synonym yenc_block = "nat \<Rightarrow> cstring \<Rightarrow> nat \<times> nat \<times> cstring \<times> nat"
type_synonym crc_block = "cstring \<Rightarrow> u32 \<Rightarrow> u32"

text \<open>How a call of the line loop ends: normally, by reading past its buffer, or out of fuel.\<close>

datatype 'a run = Done 'a | OutOfBuffer | OutOfFuel

definition decoder_clear :: "decoder \<Rightarrow> decoder" where
  "decoder_clear d = d\<lparr>
     d_articleFilename := [], d_body := False, d_begin := False, d_part := False,
     d_end := False, d_crc := False, d_eof := False, d_expectedCRC := 0,
     d_crc32 := crc_reset, d_beginPos := 0, d_endPos := 0, d_size := 0, d_endSize := 0,
     d_outSize := 0, d_state := 0, d_crcCheck := False, d_lineBuf := []\<rparr>"

definition sb_append :: "cstring \<Rightarrow> cstring \<Rightarrow> cstring" where
  "sb_append buf str = buf @ c_str str @ replicate (length str - length (c_str str)) nul"

text \<open>\<open>CString(str, len)\<close>: a length of zero means the whole string.\<close>

definition cstring_of :: "cstring \<Rightarrow> nat \<Rightarrow> cstring" where
  "cstring_of s len = (if len = 0 then c_str s else take len (c_str s))"

definition char_at :: "cstring \<Rightarrow> nat \<Rightarrow> char" where
  "char_at s i = (if i < length s then s ! i else nul)"

text \<open>The offset of the first occurrence of a pattern in the C string at \<open>s\<close>.\<close>

definition find_at :: "cstring \<Rightarrow> cstring \<Rightarrow> nat option" where
  "find_at s p = map_option (\<lambda>t. length (c_str s) - length t) (strstr (c_str s) p)"

section \<open>Header and trailer lines\<close>

definition parse_ypart :: "decoder \<Rightarrow> cstring \<Rightarrow> decoder" where
  "parse_ypart d buffer =
     (let d = d\<lparr>d_part := True, d_body := True\<rparr>;
          d = (case find_at buffer '' begin='' of
                 Some i \<Rightarrow> d\<lparr>d_beginPos := atoi_c (c_str (drop (i + 7) buffer))\<rparr> | None \<Rightarrow> d)
      in case find_at buffer '' end='' of
           Some i \<Rightarrow> d\<lparr>d_endPos := atoi_c (c_str (drop (i + 5) buffer))\<rparr> | None \<Rightarrow> d)"

text \<open>
  The scan of \<open>ParseName\<close>: the number of characters of the name within the first \<open>room\<close>
  characters, and the place of a \<open>=ypart\<close> marker on the same line.
\<close>

fun name_scan :: "nat \<Rightarrow> cstring \<Rightarrow> nat \<times> cstring option" where
  "name_scan 0 s = (0, None)"
| "name_scan (Suc room) s =
     (case s of
        [] \<Rightarrow> (0, None)
      | c # r \<Rightarrow>
          if c = nul \<or> c = lf \<or> c = cr then (0, None)
          else if 7 \<le> Suc room \<and> starts_with ''=ypart '' s then (0, Some s)
          else (case name_scan room r of (n, p) \<Rightarrow> (Suc n, p)))"

definition parse_name :: "decoder \<Rightarrow> cstring \<Rightarrow> nat \<Rightarrow> decoder" where
  \<comment> \<open>\<open>buffer\<close> starts at \<open>" name="\<close>, \<open>room\<close> characters before \<open>bufferEnd\<close>\<close>
  "parse_name d buffer room =
     (let pb = drop 6 buffer;
          (n, p) = name_scan (room - 6) pb;
          d = (case p of Some pe \<Rightarrow> parse_ypart d pe | None \<Rightarrow> d)
      in d\<lparr>d_articleFilename := latin1_to_utf8 (cstring_of pb n)\<rparr>)"

definition ux_line_shape :: "cstring \<Rightarrow> nat \<Rightarrow> bool" where
  "ux_line_shape s len \<longleftrightarrow>
     (len = 62 \<or> len = 63) \<and> (char_at s 62 = lf \<or> char_at s 62 = cr) \<and> peek s = CHR ''M''"

definition detect_format :: "cstring \<Rightarrow> nat \<Rightarrow> e_format" where
  "detect_format buffer len =
     (if starts_with ''=ybegin '' buffer then efYenc
      else if ux_line_shape buffer len then efUx
      else if starts_with ''begin '' buffer then
        (let perm = takeWhile (\<lambda>c. c \<noteq> nul \<and> c \<noteq> CHR '' '') (drop 6 buffer)
         in if \<forall>c \<in> set perm. 48 \<le> byte c \<and> byte c \<le> 55 then efUx else efUnknown)
      else efUnknown)"

definition process_yenc :: "decoder \<Rightarrow> cstring \<Rightarrow> nat \<Rightarrow> decoder" where
  "process_yenc d buffer len =
     (if 8 \<le> len \<and> starts_with ''=ybegin '' buffer then
        (let d = d\<lparr>d_begin := True\<rparr>;
             d = (case find_at buffer '' size='' of
                    Some i \<Rightarrow> if i + 6 < len
                              then d\<lparr>d_size := atoi_c (c_str (drop (i + 6) buffer))\<rparr> else d
                  | None \<Rightarrow> d);
             d = d\<lparr>d_part := (case find_at buffer '' part='' of Some i \<Rightarrow> i < len | None \<Rightarrow> False)\<rparr>;
             d = (if \<not> d_part d
                  then d\<lparr>d_body := True, d_beginPos := 1, d_endPos := d_size d\<rparr> else d)
         in case find_at buffer '' name='' of
              Some i \<Rightarrow> if i + 6 < len then parse_name d (drop i buffer) (len - i) else d
            | None \<Rightarrow> d)
      else if 7 \<le> len \<and> starts_with ''=ypart '' buffer then parse_ypart d buffer
      else if 6 \<le> len \<and> starts_with ''=yend '' buffer then
        (let d = d\<lparr>d_end := True\<rparr>;
             crcOffset = (if d_part d then 8 else 7);
             d = (case find_at buffer (if d_part d then '' pcrc32='' else '' crc32='') of
                    Some i \<Rightarrow> if i + crcOffset < len
                              then d\<lparr>d_crc := True,
                                     d_expectedCRC :=
                                       word_of_nat (strtoul16 (c_str (drop (i + crcOffset) buffer)))\<rparr>
                              else d
                  | None \<Rightarrow> d)
         in case find_at buffer '' size='' of
              Some i \<Rightarrow> if i + 6 < len
                        then d\<lparr>d_endSize := atoi_c (c_str (drop (i + 6) buffer))\<rparr> else d
            | None \<Rightarrow> d)
      else d)"

section \<open>Block decoding\<close>

definition decode_yenc :: "yenc_block \<Rightarrow> crc_block \<Rightarrow> decoder \<Rightarrow> cstring \<Rightarrow> decoder \<times> cstring" where
  "decode_yenc rapidyenc_decode rapidyenc_crc d buffer =
     (case rapidyenc_decode (d_state d) buffer of (endseq, consumed, out, st) \<Rightarrow>
        (let d = d\<lparr>d_state := st\<rparr>;
             rem = drop consumed buffer;
             d = (if endseq \<noteq> 0
                  then d\<lparr>d_lineBuf := sb_append (if endseq = 1 then ''=y'' else ''.'' @ [cr, lf]) rem,
                         d_body := False\<rparr>
                  else d);
             d = (if d_crcCheck d then d\<lparr>d_crc32 := crc_append rapidyenc_crc out (d_crc32 d)\<rparr> else d)
         in (d\<lparr>d_outSize := d_outSize d + int (length out)\<rparr>, out)))"

text \<open>\<open>UU_DECODE_CHAR\<close>, and one group of four characters: up to three bytes.\<close>

definition uu_char :: "char \<Rightarrow> nat" where
  "uu_char c = (if c = CHR ''`'' then 0 else (byte c + 32) mod 64)"

definition uu_group :: "nat \<Rightarrow> char \<Rightarrow> char \<Rightarrow> char \<Rightarrow> char \<Rightarrow> cstring" where
  "uu_group effLen a b c e =
     (let b1 = chr (push_bit 2 (uu_char a) OR drop_bit 4 (uu_char b));
          b2 = chr (push_bit 4 (uu_char b) OR drop_bit 2 (uu_char c));
          b3 = chr (push_bit 6 (uu_char c) OR uu_char e)
      in if 3 \<le> effLen then [b1, b2, b3] else if 2 \<le> effLen then [b1, b2] else [b1])"

text \<open>
  The decoding loop over the line from \<open>iptr\<close> on, \<open>None\<close> when it reads past the NUL that
  ends the buffer (the last group reads as many characters as it has bytes plus one).
\<close>

fun uu_loop :: "nat \<Rightarrow> cstring \<Rightarrow> cstring option" where
  "uu_loop effLen iptr =
     (if effLen = 0 then Some []
      else if length iptr < min 3 effLen then None
      else map_option ((@) (uu_group effLen (char_at iptr 0) (char_at iptr 1)
                                            (char_at iptr 2) (char_at iptr 3)))
             (uu_loop (effLen - 3) (drop 4 iptr)))"

declare uu_loop.simps [simp del]

definition decode_ux :: "decoder \<Rightarrow> cstring \<Rightarrow> nat \<Rightarrow> (decoder \<times> cstring) option" where
  "decode_ux d inbuf len =
     (if \<not> d_body d \<and> starts_with ''begin '' inbuf then
        (let perm = dropWhile (\<lambda>c. c \<noteq> CHR '' '' \<and> c \<noteq> nul \<and> c \<noteq> lf \<and> c \<noteq> cr) (drop 6 inbuf);
             pb = tl perm;
             n = length (takeWhile (\<lambda>c. c \<noteq> nul \<and> c \<noteq> lf \<and> c \<noteq> cr) pb)
         in if perm = [] then None
            else Some (d\<lparr>d_articleFilename := latin1_to_utf8 (cstring_of pb n), d_body := True\<rparr>, []))
      else
        (let d = (if \<not> d_body d \<and> ux_line_shape inbuf len then d\<lparr>d_body := True\<rparr> else d);
             d = (if d_body d \<and> (starts_with ''end '' inbuf \<or> peek inbuf = CHR ''`'')
                  then d\<lparr>d_end := True\<rparr> else d)
         in if d_body d \<and> \<not> d_end d then
              (let effLen = uu_char (peek inbuf)
               in if effLen > len then Some (d, [])
                  else map_option (\<lambda>out. (d, out)) (uu_loop effLen (drop 1 inbuf)))
            else Some (d, [])))"

section \<open>The buffer loop\<close>

definition finish_lines :: "decoder \<Rightarrow> cstring \<Rightarrow> decoder" where
  "finish_lines d line = (if peek line \<noteq> nul then d\<lparr>d_lineBuf := line\<rparr> else d\<lparr>d_lineBuf := []\<rparr>)"

fun decode_lines ::
    "yenc_block \<Rightarrow> crc_block \<Rightarrow> nat \<Rightarrow> decoder \<Rightarrow> cstring \<Rightarrow> cstring \<Rightarrow> (decoder \<times> cstring) run" where
  "decode_lines yd cd 0 d line out = OutOfFuel"
| "decode_lines yd cd (Suc fuel) d line out =
     (case strchr (c_str line) lf of
        None \<Rightarrow> Done (finish_lines d line, out)
      | Some t \<Rightarrow>
          (let llen = length (c_str line) - length t + 1;
               rest = drop llen line
           in if peek line = CHR ''.'' \<and> char_at line 1 = cr
              then Done (d\<lparr>d_eof := True, d_lineBuf := []\<rparr>, out)
              else
                (let d = (if d_format d = efUnknown
                          then d\<lparr>d_format := detect_format line llen\<rparr> else d)
                 in if d_format d = efYenc then
                      (let d = process_yenc d line llen
                       in if d_body d then
                            (case decode_yenc yd cd d rest of (d, out') \<Rightarrow>
                               if d_body d then Done (d\<lparr>d_lineBuf := []\<rparr>, out')
                               else decode_lines yd cd fuel d (d_lineBuf d) out')
                          else decode_lines yd cd fuel d rest out)
                    else if d_format d = efUx then
                      (case decode_ux d line llen of
                         None \<Rightarrow> OutOfBuffer
                       | Some (d, o2) \<Rightarrow> decode_lines yd cd fuel d rest (out @ o2))
                    else decode_lines yd cd fuel d rest out)))"

definition process_raw :: "decoder \<Rightarrow> cstring \<Rightarrow> decoder" where
  "process_raw d buffer =
     (let len = length buffer;
          eof1 = (if d_state d = 1 then
                    4 \<le> len \<and> char_at buffer 0 = lf \<and> char_at buffer 1 = CHR ''.'' \<and>
                    char_at buffer 2 = cr \<and> char_at buffer 3 = lf
                  else if d_state d = 2 then
                    3 \<le> len \<and> char_at buffer 0 = CHR ''.'' \<and> char_at buffer 1 = cr \<and> char_at buffer 2 = lf
                  else if d_state d = 3 then 2 \<le> len \<and> char_at buffer 0 = cr \<and> char_at buffer 1 = lf
                  else if d_state d = 4 then 1 \<le> len \<and> char_at buffer 0 = lf
                  else d_eof d);
          eof2 = (eof1 \<or> strstr buffer [cr, lf, CHR ''.'', cr, lf] \<noteq> None);
          last = (\<lambda>k. char_at buffer (len - k));
          st = (if 4 \<le> len \<and> last 4 = cr \<and> last 3 = lf \<and> last 2 = CHR ''.'' \<and> last 1 = cr then 4
                else if 3 \<le> len \<and> last 3 = cr \<and> last 2 = lf \<and> last 1 = CHR ''.'' then 3
                else if 2 \<le> len \<and> last 2 = cr \<and> last 1 = lf then 2
                else if 1 \<le> len \<and> last 1 = cr then 1
                else 0)
      in d\<lparr>d_eof := eof2, d_state := st\<rparr>)"

text \<open>
  \<open>DecodeBuffer\<close>: the new state and the bytes left at the start of the buffer (in raw mode
  the buffer itself). The fuel bounds the number of lines.
\<close>

definition decode_buffer ::
    "yenc_block \<Rightarrow> crc_block \<Rightarrow> decoder \<Rightarrow> cstring \<Rightarrow> (decoder \<times> cstring) run" where
  "decode_buffer yd cd d buffer =
     (if d_rawMode d then Done (process_raw d buffer, buffer)
      else if d_body d \<and> d_format d = efYenc then
        (case decode_yenc yd cd d buffer of (d, out) \<Rightarrow>
           if d_body d then Done (d, out)
           else decode_lines yd cd (Suc (length (d_lineBuf d))) d (d_lineBuf d) out)
      else
        (let buf = sb_append (d_lineBuf d) buffer
         in decode_lines yd cd (Suc (length buf)) d buf []))"

section \<open>The final check\<close>

definition check_yenc :: "decoder \<Rightarrow> decoder \<times> e_status" where
  "check_yenc d =
     (let d = d\<lparr>d_calculatedCRC := crc_finish (d_crc32 d)\<rparr>
      in (d, if \<not> d_begin d then dsNoBinaryData
             else if \<not> d_end d then dsArticleIncomplete
             else if (\<not> d_part d \<and> d_size d \<noteq> d_endSize d) \<or> d_endSize d \<noteq> d_outSize d then dsInvalidSize
             else if d_crcCheck d \<and> d_crc d \<and> d_expectedCRC d \<noteq> d_calculatedCRC d then dsCrcError
             else dsFinished))"

definition check_ux :: "decoder \<Rightarrow> e_status" where
  "check_ux d = (if \<not> d_body d then dsNoBinaryData else dsFinished)"

definition decoder_check :: "decoder \<Rightarrow> decoder \<times> e_status" where
  "decoder_check d =
     (case d_format d of
        efYenc \<Rightarrow> check_yenc d
      | efUx \<Rightarrow> (d, check_ux d)
      | efUnknown \<Rightarrow> (d, dsUnknownError))"

section \<open>The raw mode finds the end of the article\<close>

definition terminator :: cstring where
  "terminator = [cr, lf, CHR ''.'', cr, lf]"

lemma strstr_iff_sublist: "strstr s p \<noteq> None \<longleftrightarrow> sublist p s"
proof (induction s)
  case Nil
  then show ?case by simp
next
  case (Cons c s)
  have "starts_with p (c # s) \<longleftrightarrow> prefix p (c # s)"
    by (metis append_take_drop_id prefixI starts_with_def take_is_prefix append_eq_conv_conj prefix_def)
  with Cons show ?case by (auto simp: sublist_Cons_right)
qed

definition raw_tail :: "cstring \<Rightarrow> nat" where
  "raw_tail s =
     (if suffix [cr, lf, CHR ''.'', cr] s then 4 else if suffix [cr, lf, CHR ''.''] s then 3
      else if suffix [cr, lf] s then 2 else if suffix [cr] s then 1 else 0)"

lemma char_at_last:
  "char_at (xs @ [c]) (length xs) = c" "char_at (xs @ [b, c]) (length xs) = b"
  "char_at (xs @ [b, c]) (Suc (length xs)) = c"
  by (simp_all add: char_at_def nth_append)

lemma prefix_char_at:
  "prefix [a] s \<longleftrightarrow> 1 \<le> length s \<and> char_at s 0 = a"
  "prefix [a, b] s \<longleftrightarrow> 2 \<le> length s \<and> char_at s 0 = a \<and> char_at s 1 = b"
  "prefix [a, b, c] s \<longleftrightarrow> 3 \<le> length s \<and> char_at s 0 = a \<and> char_at s 1 = b \<and> char_at s 2 = c"
  "prefix [a, b, c, e] s \<longleftrightarrow> 4 \<le> length s \<and> char_at s 0 = a \<and> char_at s 1 = b \<and>
     char_at s 2 = c \<and> char_at s 3 = e"
  by (cases s; cases "tl s"; cases "tl (tl s)"; cases "tl (tl (tl s))"; auto simp: numeral_eq_Suc char_at_def)+

lemma char_at_rev:
  "Suc k \<le> length s \<Longrightarrow> char_at (rev s) k = char_at s (length s - Suc k)"
  by (auto simp: char_at_def rev_nth)

lemma suffix_char_at:
  "suffix [a] s \<longleftrightarrow> 1 \<le> length s \<and> char_at s (length s - 1) = a"
  "suffix [a, b] s \<longleftrightarrow> 2 \<le> length s \<and> char_at s (length s - 2) = a \<and> char_at s (length s - 1) = b"
  "suffix [a, b, c] s \<longleftrightarrow> 3 \<le> length s \<and> char_at s (length s - 3) = a \<and>
     char_at s (length s - 2) = b \<and> char_at s (length s - 1) = c"
  "suffix [a, b, c, e] s \<longleftrightarrow> 4 \<le> length s \<and> char_at s (length s - 4) = a \<and>
     char_at s (length s - 3) = b \<and> char_at s (length s - 2) = c \<and> char_at s (length s - 1) = e"
  by (subst suffix_to_prefix; simp add: prefix_char_at char_at_rev numeral_eq_Suc cong: conj_cong; blast)+

lemma process_raw_spec:
  "d_state (process_raw d s) = raw_tail s"
  "d_eof (process_raw d s) \<longleftrightarrow> sublist terminator s \<or>
     (if d_state d = 1 then prefix [lf, CHR ''.'', cr, lf] s
      else if d_state d = 2 then prefix [CHR ''.'', cr, lf] s
      else if d_state d = 3 then prefix [cr, lf] s
      else if d_state d = 4 then prefix [lf] s else d_eof d)"
proof -
  show "d_state (process_raw d s) = raw_tail s"
    unfolding raw_tail_def suffix_char_at by (simp add: process_raw_def Let_def)
  show "d_eof (process_raw d s) \<longleftrightarrow> sublist terminator s \<or>
     (if d_state d = 1 then prefix [lf, CHR ''.'', cr, lf] s
      else if d_state d = 2 then prefix [CHR ''.'', cr, lf] s
      else if d_state d = 3 then prefix [cr, lf] s
      else if d_state d = 4 then prefix [lf] s else d_eof d)"
    unfolding prefix_char_at terminator_def strstr_iff_sublist [symmetric]
    by (simp add: process_raw_def Let_def) blast
qed

lemma terminator_append:
  "sublist terminator (x @ y) \<longleftrightarrow> sublist terminator x \<or> sublist terminator y \<or>
     (suffix [cr] x \<and> prefix [lf, CHR ''.'', cr, lf] y) \<or>
     (suffix [cr, lf] x \<and> prefix [CHR ''.'', cr, lf] y) \<or>
     (suffix [cr, lf, CHR ''.''] x \<and> prefix [cr, lf] y) \<or>
     (suffix [cr, lf, CHR ''.'', cr] x \<and> prefix [lf] y)" (is "?l \<longleftrightarrow> ?r")
proof
  assume ?l
  then consider "sublist terminator x" | "sublist terminator y"
    | p q where "terminator = p @ q" "suffix p x" "prefix q y" "p \<noteq> []" "q \<noteq> []"
    unfolding sublist_append
    by (metis append_Nil append_Nil2 prefix_imp_sublist suffix_imp_sublist)
  then show ?r
  proof cases
    case 3
    then show ?thesis
      by (cases p; cases "tl p"; cases "tl (tl p)"; cases "tl (tl (tl p))"; cases "tl (tl (tl (tl p)))")
         (auto simp: terminator_def)
  qed auto
next
  assume ?r
  moreover have "p @ q = terminator \<Longrightarrow> suffix p x \<Longrightarrow> prefix q y \<Longrightarrow> ?l" for p q
    by (auto simp: sublist_append)
  ultimately show ?l
    by (auto simp: sublist_append terminator_def)
qed

lemma raw_tail_straddle:
  "(suffix [cr] x \<and> prefix [lf, CHR ''.'', cr, lf] y) \<or>
     (suffix [cr, lf] x \<and> prefix [CHR ''.'', cr, lf] y) \<or>
     (suffix [cr, lf, CHR ''.''] x \<and> prefix [cr, lf] y) \<or>
     (suffix [cr, lf, CHR ''.'', cr] x \<and> prefix [lf] y) \<longleftrightarrow>
   (if raw_tail x = 1 then prefix [lf, CHR ''.'', cr, lf] y
      else if raw_tail x = 2 then prefix [CHR ''.'', cr, lf] y
      else if raw_tail x = 3 then prefix [cr, lf] y
      else if raw_tail x = 4 then prefix [lf] y else False)"
proof -
  have ex: "suffix [cr, lf] x \<Longrightarrow> \<not> suffix [cr] x" "suffix [cr, lf, CHR ''.''] x \<Longrightarrow> \<not> suffix [cr] x \<and> \<not> suffix [cr, lf] x"
    "suffix [cr, lf, CHR ''.'', cr] x \<Longrightarrow> \<not> suffix [cr, lf, CHR ''.''] x \<and> \<not> suffix [cr, lf] x"
    by (auto simp: suffix_char_at)
  have "prefix [lf, CHR ''.'', cr, lf] y \<Longrightarrow> prefix [lf] y" by (cases y) auto
  with ex show ?thesis unfolding raw_tail_def by auto
qed

text \<open>Feeding chunks until the end of the article is seen, as the download loop does.\<close>

fun raw_run :: "decoder \<Rightarrow> cstring list \<Rightarrow> decoder" where
  "raw_run d [] = d"
| "raw_run d (b # bs) = (if d_eof d then d else raw_run (process_raw d b) bs)"

lemma raw_run_eof [simp]: "d_eof d \<Longrightarrow> d_eof (raw_run d bs)"
  by (cases bs) auto

lemma suffix_in_last: "suffix p (x @ b) \<Longrightarrow> length p \<le> length b \<Longrightarrow> suffix p b"
  by (metis suffixI suffix_length_suffix suffix_def)

lemma terminator_local:
  assumes "\<not> sublist terminator (x @ b)" "4 \<le> length b"
  shows "sublist terminator (x @ b @ c) \<longleftrightarrow> sublist terminator (b @ c)"
proof
  assume "sublist terminator (x @ b @ c)"
  then have "sublist terminator ((x @ b) @ c)" by simp
  then show "sublist terminator (b @ c)"
    unfolding terminator_append [of "x @ b" c] terminator_append [of b c]
    using assms suffix_in_last [of _ x b] by auto
qed (simp add: sublist_append)

lemma raw_run_spec:
  assumes "\<not> sublist terminator prev" "d_state d = raw_tail prev" "\<not> d_eof d" "\<forall>b \<in> set bs. 4 \<le> length b"
  shows "d_eof (raw_run d bs) \<longleftrightarrow> sublist terminator (prev @ concat bs)"
  using assms
proof (induction bs arbitrary: d prev)
  case Nil
  then show ?case by simp
next
  case (Cons b bs)
  have eof: "d_eof (process_raw d b) \<longleftrightarrow> sublist terminator (prev @ b)"
    using Cons.prems unfolding process_raw_spec(2) terminator_append raw_tail_straddle by simp
  show ?case
  proof (cases "d_eof (process_raw d b)")
    case True
    then have "sublist terminator (prev @ b @ concat bs)"
      using eof by (metis append_assoc sublist_append)
    with True Cons.prems show ?thesis by simp
  next
    case False
    then have nt: "\<not> sublist terminator (prev @ b)" using eof by simp
    then have "\<not> sublist terminator b" by (simp add: sublist_append)
    then have "d_eof (raw_run (process_raw d b) bs) \<longleftrightarrow> sublist terminator (b @ concat bs)"
      using Cons.IH [of b "process_raw d b"] Cons.prems False by (simp add: process_raw_spec(1))
    with terminator_local [OF nt] Cons.prems show ?thesis by simp
  qed
qed

text \<open>In raw mode the decoder reports the end of the article exactly when the terminator
  \<open>CR LF . CR LF\<close> has arrived, wherever the network cut the data into chunks of four bytes
  or more.\<close>

theorem raw_mode_finds_terminator:
  assumes "\<not> d_eof d" "d_state d = 0" "\<forall>b \<in> set bs. 4 \<le> length b"
  shows "d_eof (raw_run d bs) \<longleftrightarrow> sublist terminator (concat bs)"
proof -
  have "raw_tail [] = 0" by (simp add: raw_tail_def)
  moreover have "\<not> sublist terminator []" by (simp add: terminator_def)
  ultimately show ?thesis using raw_run_spec [of "[]" d bs] assms by simp
qed

text \<open>A decoder as the constructor leaves it (fields it does not set are zero).\<close>

definition decoder_init :: decoder where
  "decoder_init = decoder_clear \<lparr>
     d_format = efUnknown, d_begin = False, d_part = False, d_body = False, d_end = False,
     d_crc = False, d_expectedCRC = 0, d_calculatedCRC = 0, d_beginPos = 0, d_endPos = 0,
     d_size = 0, d_endSize = 0, d_outSize = 0, d_eof = False, d_crcCheck = False, d_state = 0,
     d_rawMode = False, d_articleFilename = [], d_lineBuf = [], d_crc32 = 0\<rparr>"

lemma decoder_init_simps [simp]:
  "d_format decoder_init = efUnknown" "\<not> d_begin decoder_init" "\<not> d_part decoder_init"
  "\<not> d_body decoder_init" "\<not> d_end decoder_init" "\<not> d_eof decoder_init" "d_state decoder_init = 0"
  "d_lineBuf decoder_init = []" "\<not> d_rawMode decoder_init" "d_outSize decoder_init = 0"
  "\<not> d_crcCheck decoder_init" "d_crc32 decoder_init = crc_reset"
  by (simp_all add: decoder_init_def decoder_clear_def)

theorem raw_mode_finds_terminator_witness:
  "d_eof (raw_run decoder_init [''ab'' @ [cr, lf], [CHR ''.'', cr, lf, CHR ''x'']])"
proof -
  have "sublist terminator (concat [''ab'' @ [cr, lf], [CHR ''.'', cr, lf, CHR ''x'']])"
    by (simp add: terminator_def sublist_Cons_right)
  then show ?thesis
    using raw_mode_finds_terminator [of decoder_init "[''ab'' @ [cr, lf], [CHR ''.'', cr, lf, CHR ''x'']]"]
    by simp
qed

section \<open>The line loop ends\<close>

lemma length_sb_append [simp]: "length (sb_append a b) = length a + length b"
proof -
  have "length (c_str b) \<le> length b" by (simp add: c_str_def length_takeWhile_le)
  then show ?thesis by (simp add: sb_append_def)
qed

lemma parse_ypart_simps [simp]:
  "d_format (parse_ypart d s) = d_format d" "d_body (parse_ypart d s)" "d_state (parse_ypart d s) = d_state d"
  "d_begin (parse_ypart d s) = d_begin d" "d_end (parse_ypart d s) = d_end d" "d_size (parse_ypart d s) = d_size d"
  "d_part (parse_ypart d s)" "d_eof (parse_ypart d s) = d_eof d" "d_rawMode (parse_ypart d s) = d_rawMode d"
  "d_outSize (parse_ypart d s) = d_outSize d" "d_crc32 (parse_ypart d s) = d_crc32 d"
  by (simp_all add: parse_ypart_def Let_def split: option.splits)

lemma parse_name_simps [simp]:
  "d_format (parse_name d s n) = d_format d" "d_begin (parse_name d s n) = d_begin d"
  by (simp_all add: parse_name_def Let_def split: prod.splits option.splits)

lemma process_yenc_format [simp]: "d_format (process_yenc d s n) = d_format d"
  by (simp add: process_yenc_def Let_def split: option.splits)

lemma process_yenc_body: "d_body (process_yenc d s n) \<Longrightarrow> \<not> d_body d \<Longrightarrow> 7 \<le> n"
  by (rule ccontr) (simp add: process_yenc_def Let_def split: if_splits option.splits)

lemma decode_yenc_simps:
  assumes "decode_yenc yd cd d s = (d', out)"
  shows "d_format d' = d_format d"
    "\<not> d_body d' \<Longrightarrow> d_body d \<Longrightarrow> length (d_lineBuf d') \<le> 3 + length s"
  using assms by (auto simp: decode_yenc_def Let_def split: prod.splits if_splits)

lemma decode_ux_format:
  "decode_ux d s n = Some (d', out) \<Longrightarrow> d_format d' = d_format d"
  by (auto simp: decode_ux_def Let_def split: if_splits)

lemma strchr_c_str_line:
  assumes "strchr (c_str line) c = Some t"
  shows "0 < length (c_str line) - length t + 1" "length (c_str line) - length t + 1 \<le> length line"
proof -
  from strchr_SomeD [OF assms] obtain u r where "c_str line = u @ t" "t = c # r" by auto
  moreover have "length (c_str line) \<le> length line" by (simp add: c_str_def length_takeWhile_le)
  ultimately show "0 < length (c_str line) - length t + 1"
    "length (c_str line) - length t + 1 \<le> length line" by auto
qed

definition loop_ready :: "decoder \<Rightarrow> bool" where
  "loop_ready d \<longleftrightarrow> (d_body d \<longrightarrow> d_format d = efUx)"

definition decoder_ok :: "decoder \<Rightarrow> bool" where
  "decoder_ok d \<longleftrightarrow> (d_body d \<longrightarrow> d_format d \<noteq> efUnknown)"

fun ends_ok :: "(decoder \<times> cstring) run \<Rightarrow> bool" where
  "ends_ok (Done (d, out)) \<longleftrightarrow> decoder_ok d"
| "ends_ok OutOfBuffer \<longleftrightarrow> True"
| "ends_ok OutOfFuel \<longleftrightarrow> False"

lemma loop_ready_ok: "loop_ready d \<Longrightarrow> decoder_ok d"
  by (auto simp: loop_ready_def decoder_ok_def)

lemma decode_lines_step:
  assumes "strchr (c_str line) lf = Some t"
    and "llen = length (c_str line) - length t + 1"
    and "d1 = (if d_format d = efUnknown then d\<lparr>d_format := detect_format line llen\<rparr> else d)"
  shows "decode_lines yd cd (Suc fuel) d line out =
    (if peek line = CHR ''.'' \<and> char_at line 1 = cr then Done (d\<lparr>d_eof := True, d_lineBuf := []\<rparr>, out)
     else if d_format d1 = efYenc then
       (if d_body (process_yenc d1 line llen) then
          (case decode_yenc yd cd (process_yenc d1 line llen) (drop llen line) of (d, out') \<Rightarrow>
             if d_body d then Done (d\<lparr>d_lineBuf := []\<rparr>, out')
             else decode_lines yd cd fuel d (d_lineBuf d) out')
        else decode_lines yd cd fuel (process_yenc d1 line llen) (drop llen line) out)
     else if d_format d1 = efUx then
       (case decode_ux d1 line llen of None \<Rightarrow> OutOfBuffer
        | Some (d, o2) \<Rightarrow> decode_lines yd cd fuel d (drop llen line) (out @ o2))
     else decode_lines yd cd fuel d1 (drop llen line) out)"
  unfolding assms(2,3) by (simp only: decode_lines.simps assms(1) Let_def option.case)

lemma decode_lines_ends:
  assumes "length line < fuel" "loop_ready d"
  shows "ends_ok (decode_lines yd cd fuel d line out)"
  using assms
proof (induction fuel arbitrary: d line out)
  case 0
  then show ?case by simp
next
  case (Suc fuel)
  show ?case
  proof (cases "strchr (c_str line) lf")
    case None
    with Suc.prems(2) show ?thesis
      by (auto simp: finish_lines_def loop_ready_def decoder_ok_def)
  next
    case (Some t)
    define llen where "llen = length (c_str line) - length t + 1"
    define d1 where "d1 = (if d_format d = efUnknown then d\<lparr>d_format := detect_format line llen\<rparr> else d)"
    note step = decode_lines_step [OF Some llen_def d1_def, of yd cd fuel out]
    have llen: "0 < llen" "llen \<le> length line"
      using strchr_c_str_line [OF Some] by (simp_all add: llen_def)
    then have rest: "length (drop llen line) < fuel" using Suc.prems(1) by simp
    have d1: "d_body d1 \<longrightarrow> d_format d1 = efUx" "d_body d1 = d_body d"
      using Suc.prems(2) by (auto simp: d1_def loop_ready_def)
    consider (eof) "peek line = CHR ''.'' \<and> char_at line 1 = cr"
      | (yenc) "\<not> (peek line = CHR ''.'' \<and> char_at line 1 = cr)" "d_format d1 = efYenc"
      | (ux) "\<not> (peek line = CHR ''.'' \<and> char_at line 1 = cr)" "d_format d1 = efUx"
      | (unknown) "\<not> (peek line = CHR ''.'' \<and> char_at line 1 = cr)" "d_format d1 = efUnknown"
      by (cases "d_format d1") auto
    then show ?thesis
    proof cases
      case eof
      with Suc.prems(2) show ?thesis unfolding step by (auto simp: loop_ready_def decoder_ok_def)
    next
      case yenc
      let ?d2 = "process_yenc d1 line llen"
      obtain d3 o3 where d3: "decode_yenc yd cd ?d2 (drop llen line) = (d3, o3)" by fastforce
      have "d_body ?d2 \<Longrightarrow> \<not> d_body d3 \<Longrightarrow> length (d_lineBuf d3) < fuel"
        using process_yenc_body [of d1 line llen] decode_yenc_simps(2) [OF d3] yenc d1 Suc.prems(1) llen
        by fastforce
      moreover have "\<not> d_body d3 \<Longrightarrow> loop_ready d3" by (simp add: loop_ready_def)
      moreover have "\<not> d_body ?d2 \<Longrightarrow> loop_ready ?d2" by (simp add: loop_ready_def)
      moreover have "decoder_ok (d3\<lparr>d_lineBuf := []\<rparr>)"
        using decode_yenc_simps(1) [OF d3] yenc by (simp add: decoder_ok_def)
      ultimately show ?thesis
        unfolding step if_not_P [OF yenc(1)] using yenc(2) rest d3 Suc.IH by simp
    next
      case ux
      then have "decode_ux d1 line llen = Some (d2, o2) \<Longrightarrow> loop_ready d2" for d2 o2
        using decode_ux_format by (auto simp: loop_ready_def)
      then show ?thesis
        unfolding step if_not_P [OF ux(1)] using ux(2) rest Suc.IH by (simp split: option.split)
    next
      case unknown
      then have "loop_ready d1" using d1 by (simp add: loop_ready_def)
      then show ?thesis
        unfolding step if_not_P [OF unknown(1)] using unknown(2) rest Suc.IH by simp
    qed
  qed
qed

declare decode_lines.simps(2) [simp del]

text \<open>C5: One call of \<open>DecodeBuffer\<close> always comes to its end: a header line that starts a body
  takes at least seven characters, more than the three that the end marker of the body puts back
  in front of the remaining lines. The hypothesis (a body has a format) is kept by every call.\<close>

theorem decode_buffer_ends:
  assumes "decoder_ok d"
  shows "decode_buffer yd cd d buffer \<noteq> OutOfFuel \<and>
    (decode_buffer yd cd d buffer = Done (d', out) \<longrightarrow> decoder_ok d')"
proof -
  have lr: "\<not> d_body d1 \<Longrightarrow> loop_ready d1" for d1 by (simp add: loop_ready_def)
  have lr2: "\<not> (d_body d \<and> d_format d = efYenc) \<Longrightarrow> loop_ready d"
    using assms by (cases "d_format d") (auto simp: loop_ready_def decoder_ok_def)
  have raw: "decoder_ok (process_raw d buffer)"
    using assms by (simp add: process_raw_def Let_def decoder_ok_def)
  have yd: "decode_yenc yd cd d buffer = (b, u) \<Longrightarrow> d_format d = efYenc \<Longrightarrow> decoder_ok b" for b u
    using decode_yenc_simps(1) [of yd cd d buffer b u] by (simp add: decoder_ok_def)
  have "ends_ok (decode_buffer yd cd d buffer)"
    by (auto simp: decode_buffer_def Let_def lr lr2 raw yd intro!: decode_lines_ends split: prod.split)
  then show ?thesis by auto
qed

text \<open>A block decoder for examples: it takes the whole buffer and meets no end marker.\<close>

definition yd_copy :: yenc_block where
  "yd_copy st s = (0, length s, s, st)"

theorem decode_buffer_ends_witness:
  "\<exists>d. decode_buffer yd_copy crc32_update decoder_init ''abc'' = Done (d, [])"
proof -
  have "decode_buffer yd_copy crc32_update decoder_init ''abc'' \<noteq> OutOfFuel"
    using decode_buffer_ends [of decoder_init yd_copy crc32_update "''abc''"]
    by (simp add: decoder_ok_def)
  then show ?thesis
    by (simp add: decode_buffer_def sb_append_def c_str_def strchr_def decode_lines.simps(2))
qed

section \<open>The body of a yEnc article\<close>

text \<open>Body buffers in a row, as long as the block decoder meets no end marker.\<close>

fun body_run :: "yenc_block \<Rightarrow> crc_block \<Rightarrow> decoder \<Rightarrow> cstring list \<Rightarrow> decoder \<times> cstring" where
  "body_run yd cd d [] = (d, [])"
| "body_run yd cd d (b # bs) =
     (case decode_yenc yd cd d b of (d1, o1) \<Rightarrow>
        (case body_run yd cd d1 bs of (d2, o2) \<Rightarrow> (d2, o1 @ o2)))"

lemma body_run_totals:
  assumes "body_run yd crc32_update d bs = (d', out)" "d_crcCheck d"
  shows "d_outSize d' = d_outSize d + int (length out) \<and> d_crcCheck d' \<and>
    d_crc32 d' = crc32_update out (d_crc32 d)"
  using assms
proof (induction bs arbitrary: d d' out)
  case Nil
  then show ?case by (simp add: crc32_update_Nil)
next
  case (Cons b bs)
  obtain d1 o1 d2 o2 where s: "decode_yenc yd crc32_update d b = (d1, o1)"
    "body_run yd crc32_update d1 bs = (d2, o2)" by fastforce
  then have "d_crcCheck d1" "d_outSize d1 = d_outSize d + int (length o1)"
    "d_crc32 d1 = crc32_update o1 (d_crc32 d)"
    using Cons.prems(2) by (auto simp: decode_yenc_def Let_def crc_append_def split: prod.splits if_splits)
  with Cons.IH [OF s(2)] Cons.prems s show ?case
    by (auto simp: crc32_update_append)
qed

definition example_body :: decoder where
  "example_body = decoder_init\<lparr>d_format := efYenc, d_begin := True, d_size := 3, d_outSize := 0,
     d_crc32 := crc_reset, d_crcCheck := True\<rparr>"



text \<open>A yEnc header without a file name gives the decoder the rest of the buffer as name: the
  scan finds no character, and \<open>CString(str, 0)\<close> copies the whole string.\<close>

theorem empty_name_takes_buffer:
  assumes "buffer = '' name='' @ [c] @ rest" "c = cr \<or> c = lf" "wf_cstring rest" "6 \<le> room"
  shows "d_articleFilename (parse_name d buffer room) = latin1_to_utf8 (c # rest)"
proof -
  have "name_scan n (c # rest) = (0, None)" for n using assms(2) by (cases n) auto
  moreover have "c \<noteq> nul" using assms(2) by auto
  ultimately show ?thesis
    using assms by (simp add: parse_name_def cstring_of_def c_str_wf wf_cstring_def)
qed

theorem empty_name_takes_buffer_witness:
  "d_articleFilename (parse_name decoder_init ('' name='' @ [cr] @ [lf] @ ''=ypart begin=1'') 8) =
     [cr, lf] @ ''=ypart begin=1''"
  by (subst empty_name_takes_buffer [of _ cr "[lf] @ ''=ypart begin=1''"])
     (simp_all add: wf_cstring_def byte_def)

end
