(* ===== verification/YEncoder.thy ===== *)
theory YEncoder
  imports Decoder
begin

text \<open>
  The yEnc encoder of the built-in news server, \<open>daemon/nserv/YEncoder.cpp\<close>, with the file
  position and read functions of \<open>DiskFile\<close> on a file given by its bytes. The theorems relate the encoder to a decoder written from the
  yEnc format and to the article decoder of theory \<open>Decoder\<close>.
\<close>

section \<open>Files\<close>

text \<open>\<open>DiskFile::Read\<close> at a position: \<open>fread\<close> gives fewer bytes only at the end of the file.\<close>

definition file_read :: "cstring \<Rightarrow> nat \<Rightarrow> nat \<Rightarrow> cstring" where
  "file_read file pos n = take n (drop pos file)"

section \<open>Opening the segment\<close>

record yencoder =
  ye_filename :: cstring
  ye_part :: int
  ye_offset :: int
  ye_size :: int
  ye_fileSize :: int

definition int32 :: "int \<Rightarrow> int" where
  "int32 i = signed_take_bit 31 i"

text \<open>\<open>OpenFile\<close>: the file is \<open>None\<close> where it cannot be opened or seeked to its end.\<close>

definition open_file :: "cstring option \<Rightarrow> yencoder \<Rightarrow> cstring + yencoder" where
  "open_file disk y =
     (if ye_size y < 0 then Inl ''Invalid segment size''
      else case disk of
        None \<Rightarrow> Inl ''File not found''
      | Some file \<Rightarrow>
          (let y = y\<lparr>ye_fileSize := int (length file)\<rparr>;
               y = (if ye_size y = 0
                    then y\<lparr>ye_size := int32 (ye_fileSize y - ye_offset y + 1)\<rparr> else y)
           in if ye_fileSize y < ye_offset y + ye_size y then Inl ''Invalid segment size''
              else if ye_offset y < 0 then Inl ''Invalid segment offset''
              else Inr y))"

section \<open>Writing the segment\<close>

text \<open>
  The output buffer: the committed bytes, the line being written behind them (its length is
  \<open>lnsz\<close>), and the blocks passed to \<open>m_writeFunc\<close> so far.
\<close>

record yenc_out =
  yo_buf :: cstring
  yo_line :: cstring
  yo_sent :: "cstring list"

definition ye_special :: "char \<Rightarrow> bool" where
  "ye_special ch \<longleftrightarrow> ch = nul \<or> ch = lf \<or> ch = cr \<or> ch = CHR ''='' \<or> ch = CHR '' '' \<or> ch = tab"

definition ye_char :: "nat \<Rightarrow> char \<Rightarrow> cstring" where
  "ye_char lnsz c =
     (let ch = chr ((byte c + 42) mod 256);
          pre = (if ye_special ch then [CHR ''=''] else []);
          ch = (if ye_special ch then chr ((byte ch + 64) mod 256) else ch);
          dot = (if ch = CHR ''.'' \<and> lnsz + length pre = 0 then [CHR ''.''] else [])
      in pre @ dot @ [ch])"

definition put_byte :: "int \<Rightarrow> bool \<Rightarrow> char \<Rightarrow> yenc_out \<Rightarrow> yenc_out" where
  "put_byte capacity at_end c st =
     (let line = yo_line st @ ye_char (length (yo_line st)) c
      in if 128 \<le> length line \<or> at_end then
           (let buf = yo_buf st @ line @ [cr, lf]
            in if int (length buf) > capacity - 200
               then st\<lparr>yo_buf := [], yo_line := [], yo_sent := yo_sent st @ [buf]\<rparr>
               else st\<lparr>yo_buf := buf, yo_line := []\<rparr>)
         else st\<lparr>yo_line := line\<rparr>)"

fun encode_block :: "int \<Rightarrow> bool \<Rightarrow> cstring \<Rightarrow> yenc_out \<Rightarrow> yenc_out" where
  "encode_block capacity lastblock [] st = st"
| "encode_block capacity lastblock (c # cs) st =
     encode_block capacity lastblock cs (put_byte capacity (cs = [] \<and> lastblock) c st)"

text \<open>The read loop from a position to the end of the segment, \<open>None\<close> when nothing could be read.\<close>

function segment_loop ::
    "crc_block \<Rightarrow> int \<Rightarrow> nat \<Rightarrow> cstring \<Rightarrow> nat \<Rightarrow> nat \<Rightarrow> u32 \<Rightarrow> yenc_out \<Rightarrow> yenc_out \<times> u32 option" where
  "segment_loop cd capacity bufsize file endpos pos crc st =
     (if pos < endpos then
        (let data = file_read file pos (min bufsize (endpos - pos));
             pos' = pos + length data;
             lastblock = (pos' = endpos)
         in if data = [] then (st, None)
            else segment_loop cd capacity bufsize file endpos pos' (crc_append cd data crc)
                   (encode_block capacity lastblock data st))
      else (st, Some crc))"
  by pat_completeness auto
termination
  by (relation "measure (\<lambda>(cd, capacity, bufsize, file, endpos, pos, crc, st). endpos - pos)")
     (auto intro!: diff_less_mono2 simp del: length_greater_0_conv)

declare segment_loop.simps [simp del]

definition yenc_header :: "yencoder \<Rightarrow> cstring" where
  "yenc_header y =
     ''=ybegin part='' @ show_int (ye_part y) @ '' line=128 size='' @ show_int (ye_fileSize y) @
     '' name='' @ base_file_name (ye_filename y) @ [cr, lf]"

definition yenc_part_header :: "yencoder \<Rightarrow> cstring" where
  "yenc_part_header y =
     ''=ypart begin='' @ show_int (ye_offset y + 1) @ '' end='' @ show_int (ye_offset y + ye_size y) @ [cr, lf]"

definition yenc_trailer :: "yencoder \<Rightarrow> u32 \<Rightarrow> cstring" where
  "yenc_trailer y crc =
     ''=yend size='' @ show_int (ye_size y) @ '' part=0 pcrc32='' @ to_hex 8 (unat crc) @ [cr, lf]"

text \<open>
  \<open>WriteSegment\<close>: the blocks written. \<open>(int)(m_size * 1.1)\<close> is a product with a \<open>double\<close>;
  its value is the argument \<open>size11\<close>.
\<close>

definition write_segment :: "crc_block \<Rightarrow> int \<Rightarrow> cstring \<Rightarrow> yencoder \<Rightarrow> cstring list" where
  "write_segment cd size11 file y =
     (let capacity = max 2048 (min size11 (16 * 1024 * 1024));
          bufsize = nat (min (ye_size y) (16 * 1024 * 1024));
          st = \<lparr>yo_buf = yenc_header y @ yenc_part_header y, yo_line = [], yo_sent = []\<rparr>
      in case segment_loop cd capacity bufsize file (nat (ye_offset y + ye_size y)) (nat (ye_offset y))
                crc_reset st of
           (st, None) \<Rightarrow> yo_sent st
         | (st, Some crc) \<Rightarrow> yo_sent st @ [yo_buf st @ yenc_trailer y (crc_finish crc)])"

section \<open>The encoded data as one stream\<close>

text \<open>The specification: the lines of the encoded data, from an open line of a given length.\<close>

fun yenc_stream :: "nat \<Rightarrow> cstring \<Rightarrow> cstring" where
  "yenc_stream lnsz [] = []"
| "yenc_stream lnsz (c # cs) =
     (let e = ye_char lnsz c
      in if 128 \<le> lnsz + length e \<or> cs = [] then e @ [cr, lf] @ yenc_stream 0 cs
         else e @ yenc_stream (lnsz + length e) cs)"

text \<open>The yEnc format, read from the receiver's side, with the dot stuffing of the news protocol.\<close>

fun yenc_read :: "bool \<Rightarrow> cstring \<Rightarrow> cstring" where
  "yenc_read ls [] = []"
| "yenc_read ls (c # s) =
     (if c = cr then yenc_read ls s
      else if c = lf then yenc_read True s
      else if ls \<and> c = CHR ''.'' then yenc_read False s
      else if c = CHR ''='' then
        (case s of
           [] \<Rightarrow> []
         | e # s' \<Rightarrow> chr (byte e + 512 - 64 - 42) # yenc_read False s')
      else chr (byte c + 256 - 42) # yenc_read False s)"

definition yo_all :: "yenc_out \<Rightarrow> cstring" where
  "yo_all st = concat (yo_sent st) @ yo_buf st @ yo_line st"

section \<open>The stream does not depend on the reads\<close>

lemma ye_char_len: "0 < length (ye_char n c)" "length (ye_char n c) \<le> 2"
  by (auto simp: ye_char_def Let_def ye_special_def)

lemma ye_char_ne [simp]: "ye_char n c \<noteq> []"
  using ye_char_len(1) [of n c] by auto

lemma chr_eq_iff: "chr k = c \<longleftrightarrow> k mod 256 = byte c"
  by (metis byte_chr byte_inject)

lemma ye_char_read: "yenc_read (lnsz = 0) (ye_char lnsz c @ t) = c # yenc_read False t"
proof -
  define n where "n = (byte c + 42) mod 256"
  have "(byte c + 2 * 256) mod 256 = byte c" "(byte c + 1 * 256) mod 256 = byte c"
    by (simp_all only: mod_mult_self1 mod_less byte_less)
  then have plain: "chr (n + 214) = c" and esc: "chr ((n + 64) mod 256 + 406) = c"
    unfolding chr_eq_iff n_def by (simp_all add: mod_simps add.commute)
  have b: "byte (chr n) = n" "byte (chr ((n + 64) mod 256)) = (n + 64) mod 256"
    by (simp_all add: n_def)
  show ?thesis
  proof (cases "ye_special (chr n)")
    case True
    then show ?thesis using esc b
      by (simp add: add.commute ye_char_def Let_def flip: n_def)
  next
    case False
    then have "chr n \<noteq> cr" "chr n \<noteq> lf" "chr n \<noteq> CHR ''=''" by (auto simp: ye_special_def)
    with False plain b show ?thesis
      by (cases "chr n = CHR ''.''"; cases "lnsz = 0") (simp_all add: add.commute ye_char_def Let_def flip: n_def)
  qed
qed

lemma yenc_stream_read: "yenc_read (lnsz = 0) (yenc_stream lnsz cs) = cs"
proof (induction cs arbitrary: lnsz)
  case Nil
  then show ?case by simp
next
  case (Cons c cs)
  have "lnsz + length (ye_char lnsz c) \<noteq> 0" using ye_char_len(1) [of lnsz c] by simp
  then have f: "(lnsz + length (ye_char lnsz c) = 0) = False" by simp
  show ?case
    using Cons.IH [of 0] Cons.IH [of "lnsz + length (ye_char lnsz c)", unfolded f]
    by (simp add: Let_def ye_char_read)
qed

lemma put_byte_all:
  "yo_all (put_byte cap e c st) = yo_all st @ ye_char (length (yo_line st)) c @
     (if 128 \<le> length (yo_line st) + length (ye_char (length (yo_line st)) c) \<or> e then [cr, lf] else [])"
  "length (yo_line (put_byte cap e c st)) =
     (if 128 \<le> length (yo_line st) + length (ye_char (length (yo_line st)) c) \<or> e then 0
      else length (yo_line st) + length (ye_char (length (yo_line st)) c))"
  by (simp_all add: put_byte_def Let_def yo_all_def)

lemma encode_block_more:
  assumes "rest \<noteq> []"
  shows "yo_all (encode_block cap False cs st) @ yenc_stream (length (yo_line (encode_block cap False cs st))) rest =
    yo_all st @ yenc_stream (length (yo_line st)) (cs @ rest)"
proof (induction cs arbitrary: st)
  case (Cons c cs)
  then show ?case using assms by (simp add: put_byte_all Let_def)
qed simp

lemma encode_block_last:
  assumes "cs \<noteq> []"
  shows "yo_all (encode_block cap True cs st) = yo_all st @ yenc_stream (length (yo_line st)) cs"
    "yo_line (encode_block cap True cs st) = []"
  using assms
proof (induction cs arbitrary: st)
  case (Cons c cs)
  {
    case 1
    then show ?case using Cons.IH(1) by (cases "cs = []") (simp_all add: put_byte_all Let_def)
  next
    case 2
    then show ?case using Cons.IH(2) put_byte_all(2) [of cap True c st]
      by (cases "cs = []") simp_all
  }
qed simp_all

lemma segment_loop_stream:
  assumes "pos < endpos" "endpos \<le> length file" "0 < bufsize"
  shows "\<exists>st'. segment_loop crc32_update cap bufsize file endpos pos crc st =
      (st', Some (crc32_update (file_read file pos (endpos - pos)) crc)) \<and>
    yo_all st' = yo_all st @ yenc_stream (length (yo_line st)) (file_read file pos (endpos - pos)) \<and>
    yo_line st' = []"
  using assms
proof (induction "endpos - pos" arbitrary: pos crc st rule: less_induct)
  case less
  define k where "k = min bufsize (endpos - pos)"
  define data where "data = file_read file pos k"
  have len: "length data = k" using less.prems by (simp add: data_def file_read_def k_def)
  have k: "0 < k" "k \<le> endpos - pos" using less.prems by (simp_all add: k_def)
  then have ne: "data \<noteq> []" using len by auto
  have split: "file_read file pos (endpos - pos) = data @ file_read file (pos + k) (endpos - (pos + k))"
    using k take_add [of k "endpos - pos - k" "drop pos file"]
    by (simp add: file_read_def data_def add.commute)
  have step: "segment_loop crc32_update cap bufsize file endpos pos crc st =
    segment_loop crc32_update cap bufsize file endpos (pos + k) (crc32_update data crc)
      (encode_block cap (pos + k = endpos) data st)"
    using less.prems ne len
    by (subst segment_loop.simps) (simp add: Let_def crc_append_def flip: k_def data_def)
  show ?case
  proof (cases "pos + k = endpos")
    case True
    then have "file_read file (pos + k) (endpos - (pos + k)) = []" by (simp add: file_read_def)
    then show ?thesis
      using encode_block_last [OF ne, of cap st] True split
      by (subst step, subst segment_loop.simps) auto
  next
    case False
    then have lt: "pos + k < endpos" using k by simp
    let ?rest = "file_read file (pos + k) (endpos - (pos + k))"
    have "?rest \<noteq> []" using lt less.prems by (simp add: file_read_def)
    note more = encode_block_more [OF this, of cap data st]
    have "endpos - (pos + k) < endpos - pos" using lt k by simp
    from less.hyps [OF this lt less.prems(2,3), of "crc32_update data crc" "encode_block cap False data st"]
    obtain st' where "segment_loop crc32_update cap bufsize file endpos (pos + k) (crc32_update data crc)
        (encode_block cap False data st) = (st', Some (crc32_update ?rest (crc32_update data crc)))"
      "yo_all st' = yo_all (encode_block cap False data st) @
         yenc_stream (length (yo_line (encode_block cap False data st))) ?rest" "yo_line st' = []"
      by blast
    with False more show ?thesis unfolding step split by (simp add: crc32_update_append)
  qed
qed

lemma open_file_ok:
  assumes "open_file (Some file) y0 = Inr y" "0 < ye_size y0"
  shows "0 < ye_size y" "0 \<le> ye_offset y" "ye_offset y + ye_size y \<le> int (length file)"
    "ye_fileSize y = int (length file)"
  using assms by (auto simp: open_file_def Let_def split: if_splits)

text \<open>C6: The blocks written for a segment that \<open>OpenFile\<close> accepted are, together, the header lines,
  the encoded data as one stream of lines, and a trailer with the CRC-32 of the data; they do not
  depend on how the file was read or when the output buffer was flushed. Decoding the stream by
  the yEnc format gives the data back.\<close>

theorem write_segment_correct:
  assumes "open_file (Some file) y0 = Inr y" "0 < ye_size y0"
    and "data = take (nat (ye_size y)) (drop (nat (ye_offset y)) file)"
  shows "concat (write_segment crc32_update size11 file y) =
      yenc_header y @ yenc_part_header y @ yenc_stream 0 data @ yenc_trailer y (crc32 data) \<and>
    yenc_read True (yenc_stream 0 data) = data \<and> int (length data) = ye_size y"
proof -
  note ok = open_file_ok [OF assms(1,2)]
  define cap where "cap = max 2048 (min size11 (16 * 1024 * 1024))"
  define st where "st = \<lparr>yo_buf = yenc_header y @ yenc_part_header y, yo_line = [], yo_sent = []\<rparr>"
  let ?pos = "nat (ye_offset y)" and ?stop = "nat (ye_offset y + ye_size y)"
  let ?buf = "nat (min (ye_size y) (16 * 1024 * 1024))"
  have sz: "?stop - ?pos = nat (ye_size y)" using ok by simp
  then have data: "file_read file ?pos (?stop - ?pos) = data" by (simp add: file_read_def assms(3))
  have "?pos < ?stop" "?stop \<le> length file" "0 < ?buf" using ok by auto
  from segment_loop_stream [OF this, of cap crc_reset st, unfolded data]
  obtain st' where "segment_loop crc32_update cap ?buf file ?stop ?pos crc_reset st =
      (st', Some (crc32_update data crc_reset))"
    "yo_all st' = yo_all st @ yenc_stream (length (yo_line st)) data" "yo_line st' = []"
    by blast
  then have "concat (write_segment crc32_update size11 file y) =
      yenc_header y @ yenc_part_header y @ yenc_stream 0 data @ yenc_trailer y (crc32 data)"
    unfolding write_segment_def Let_def cap_def [symmetric] st_def [symmetric]
    by (simp add: yo_all_def st_def crc_finish_def crc_reset_def)
  moreover have "yenc_read True (yenc_stream 0 data) = data" using yenc_stream_read [of 0 data] by simp
  moreover have "int (length data) = ye_size y" using ok by (simp add: assms(3))
  ultimately show ?thesis by blast
qed

text \<open>The segment of five bytes from offset 1 of a file of eight bytes.\<close>

definition example_segment :: yencoder where
  "example_segment = \<lparr>ye_filename = ''dir/f.bin'', ye_part = 1, ye_offset = 1, ye_size = 5, ye_fileSize = 8\<rparr>"

theorem write_segment_correct_witness:
  "concat (write_segment crc32_update 5 ''abcdefgh'' example_segment) =
     yenc_header example_segment @ yenc_part_header example_segment @ yenc_stream 0 ''bcdef'' @
     yenc_trailer example_segment (crc32 ''bcdef'')"
proof -
  have "open_file (Some ''abcdefgh'') example_segment = Inr example_segment"
    by (simp add: open_file_def example_segment_def Let_def)
  moreover have "''bcdef'' = take (nat (ye_size example_segment)) (drop (nat (ye_offset example_segment)) ''abcdefgh'')"
    by (simp add: example_segment_def)
  ultimately show ?thesis
    using write_segment_correct [of "''abcdefgh''" example_segment example_segment "''bcdef''" 5]
    by (simp add: example_segment_def)
qed

text \<open>A segment size of 0, meant as the rest of the file, is always refused: the size is computed
  one too large and then fails the bounds check.\<close>

theorem whole_file_segment_refused:
  assumes "ye_size y = 0" "0 \<le> ye_offset y" "ye_offset y \<le> int (length file)" "length file < 2 ^ 31 - 1"
  shows "open_file (Some file) y = Inl ''Invalid segment size''"
proof -
  have "int32 i = i" if "0 \<le> i" "i < 2 ^ 31" for i
    using that by (simp add: int32_def signed_take_bit_int_eq_self)
  then have "int32 (int (length file) - ye_offset y + 1) = int (length file) - ye_offset y + 1"
    using assms by simp
  then show ?thesis using assms by (simp add: open_file_def Let_def)
qed

theorem whole_file_segment_refused_witness:
  "open_file (Some ''abc'') (example_segment\<lparr>ye_offset := 0, ye_size := 0\<rparr>) = Inl ''Invalid segment size''"
  by (rule whole_file_segment_refused) (simp_all add: example_segment_def)

section \<open>The output buffer never overflows\<close>

definition yo_fits :: "int \<Rightarrow> yenc_out \<Rightarrow> bool" where
  "yo_fits cap st \<longleftrightarrow> int (length (yo_buf st)) \<le> cap - 200 \<and> length (yo_line st) \<le> 127 \<and>
     (\<forall>b \<in> set (yo_sent st). int (length b) \<le> cap - 69)"

lemma put_byte_fits:
  assumes "yo_fits cap st" "200 \<le> cap"
  shows "yo_fits cap (put_byte cap e c st)"
  using assms ye_char_len [of "length (yo_line st)" c]
  by (auto simp: yo_fits_def put_byte_def Let_def)

lemma encode_block_fits: "yo_fits cap st \<Longrightarrow> 200 \<le> cap \<Longrightarrow> yo_fits cap (encode_block cap lb cs st)"
  by (induction cs arbitrary: st) (simp_all add: put_byte_fits)

lemma segment_loop_fits:
  "yo_fits cap st \<Longrightarrow> 200 \<le> cap \<Longrightarrow>
   yo_fits cap (fst (segment_loop cd cap bufsize bytes endpos pos crc st))"
proof (induction cd cap bufsize bytes endpos pos crc st rule: segment_loop.induct)
  case (1 cd cap bufsize bytes endpos pos crc st)
  then show ?case
    by (subst segment_loop.simps) (simp add: Let_def encode_block_fits)
qed

text \<open>Every write of the encoding loop stays inside the output buffer: with headers of at most
  \<open>capacity - 200\<close> bytes, whatever has been encoded, the committed bytes, the open line and the
  at most four bytes the next character adds end 69 bytes before the end of the buffer, and so does every
  block passed to the writer. Lines have at most 129 characters.\<close>

theorem encoder_stays_in_buffer:
  assumes "int (length (yo_buf st)) \<le> capacity - 200" "yo_line st = []" "yo_sent st = []" "200 \<le> capacity"
    and "st' = fst (segment_loop cd capacity bufsize file endpos pos crc st)"
  shows "int (length (yo_buf st') + length (yo_line st' @ ye_char (length (yo_line st')) c @ [cr, lf])) \<le> capacity - 69 \<and>
    length (yo_line st' @ ye_char (length (yo_line st')) c) \<le> 129 \<and>
    list_all (\<lambda>b. int (length b) \<le> capacity - 69) (yo_sent st')"
proof -
  have "yo_fits capacity st'"
    unfolding assms(5) by (rule segment_loop_fits) (use assms in \<open>simp_all add: yo_fits_def\<close>)
  then show ?thesis
    using ye_char_len(2) [of "length (yo_line st')" c] by (simp add: yo_fits_def list_all_iff)
qed

theorem encoder_stays_in_buffer_witness:
  "let st = \<lparr>yo_buf = ''=ybegin'', yo_line = [], yo_sent = []\<rparr>;
       st' = fst (segment_loop crc32_update 2048 16 ''abcdef'' 6 0 0 st)
   in list_all (\<lambda>b. int (length b) \<le> 2048 - 69) (yo_sent st')"
  using encoder_stays_in_buffer [of "\<lparr>yo_buf = ''=ybegin'', yo_line = [], yo_sent = []\<rparr>" 2048
      _ crc32_update 16 "''abcdef''" 6 0 0]
  by (simp add: Let_def)

section \<open>The decoder reads the encoder's lines\<close>

lemma strstr_skip: "hd p \<notin> set u \<Longrightarrow> p \<noteq> [] \<Longrightarrow> strstr (u @ v) p = strstr v p"
  by (induction u) (auto simp: starts_with_def neq_Nil_conv)

lemma strstr_skip_show_int [simp]:
  "strstr (show_int i @ v) (CHR '' '' # p) = strstr v (CHR '' '' # p)"
  by (rule strstr_skip) (auto dest: show_int_chars simp: is_digit_def byte_def)

lemma wf_cstring_simps [simp]:
  "wf_cstring []" "wf_cstring (c # s) \<longleftrightarrow> c \<noteq> nul \<and> wf_cstring s"
  "wf_cstring (s @ t) \<longleftrightarrow> wf_cstring s \<and> wf_cstring t"
  by (auto simp: wf_cstring_def)

lemma wf_show_int [simp]: "wf_cstring (show_int i)"
  using show_int_chars [of nul i] by (auto simp: wf_cstring_def is_digit_def byte_def)

lemma find_field:
  assumes "s = u @ p @ v" "wf_cstring s" "strstr (u @ p @ v) p = Some (p @ v)" "length p = k" "v \<noteq> []"
  shows "\<exists>n. find_at s p = Some n \<and> n < length s \<and> n + k < length s \<and> c_str (drop (n + k) s) = v \<and> drop n s = p @ v"
proof (intro exI [of _ "length u"] conjI)
  have "wf_cstring v" using assms(1,2) by simp
  then show "c_str (drop (length u + k) s) = v" using assms(1,4) by (simp add: c_str_wf)
  show "find_at s p = Some (length u)" using assms by (simp add: find_at_def c_str_wf)
qed (use assms in auto)

lemma name_scan_whole:
  assumes "\<forall>c \<in> set nm. c \<noteq> nul \<and> c \<noteq> lf \<and> c \<noteq> cr" "\<not> sublist ''=ypart '' nm" "length nm < room"
  shows "name_scan room (nm @ [cr, lf]) = (length nm, None)"
  using assms
proof (induction nm arbitrary: room)
  case Nil
  then show ?case by (cases room) auto
next
  case (Cons c nm)
  then obtain r where r: "room = Suc r" by (cases room) auto
  have "\<not> starts_with ''=ypart '' (c # nm @ [cr, lf])"
  proof
    assume a: "starts_with ''=ypart '' (c # nm @ [cr, lf])"
    then have p: "prefix ''=ypart '' ((c # nm) @ [cr, lf])"
      by (metis append_Cons append_take_drop_id prefixI starts_with_def)
    have "\<not> prefix ''=ypart '' (c # nm)" using Cons.prems(2) by (meson prefix_imp_sublist)
    with p show False by (auto simp: prefix_append prefix_Cons)
  qed
  moreover have "name_scan r (nm @ [cr, lf]) = (length nm, None)"
    using Cons r by (auto simp: sublist_Cons_right)
  ultimately show ?case using Cons.prems(1) r by simp
qed

lemma strtoul16_to_hex:
  assumes "n < 16 ^ 8"
  shows "strtoul16 (to_hex 8 n @ [cr, lf]) = n"
proof -
  define s where "s = to_hex 8 n"
  have len: "length s = 8" and val: "hex_digits_val 0 s = n"
    using assms length_to_hex [of n 8] hex_digits_val_to_hex [of n 8] by (simp_all add: s_def)
  have hx: "c \<in> set s \<Longrightarrow> hex_val c \<noteq> None" for c
    using assms hex_val_to_hex [of n 8 c] by (simp add: s_def)
  then obtain a b r where s: "s = a # b # r"
    using len by (cases s; cases "tl s") auto
  have "\<not> is_space a" "a \<noteq> CHR ''-''" "a \<noteq> CHR ''+''" and "b \<noteq> CHR ''x''" "b \<noteq> CHR ''X''"
    using hx [of a] hx [of b] by (auto simp: s hex_val_def is_digit_def is_space_def byte_def split: if_splits)
  moreover have "hex_val cr = None" by (simp add: hex_val_def byte_def)
  then have "hex_digits_val 0 (s @ [cr, lf]) = n"
    using hx val by (subst hex_digits_val_append) auto
  ultimately have "strtoul16 (s @ [cr, lf]) = n"
    using assms by (simp add: strtoul16_def s)
  then show ?thesis by (simp add: s_def)
qed

lemma header_fields:
  assumes "nm = base_file_name (ye_filename y)" "wf_cstring nm"
  shows "\<exists>u. find_at (yenc_header y) '' size='' = Some u \<and> u + 6 < length (yenc_header y) \<and>
      atoi_c (c_str (drop (u + 6) (yenc_header y))) = ye_fileSize y"
    and "\<exists>u. find_at (yenc_header y) '' part='' = Some u \<and> u < length (yenc_header y)"
    and "\<exists>u. find_at (yenc_header y) '' name='' = Some u \<and> u + 6 < length (yenc_header y) \<and>
      drop u (yenc_header y) = '' name='' @ nm @ [cr, lf]"
proof -
  let ?h = "yenc_header y"
  have wf: "wf_cstring ?h" using assms by (simp add: yenc_header_def)
  note field = find_field [OF _ wf]
  have h: "?h = (''=ybegin part='' @ show_int (ye_part y) @ '' line=128'') @ '' size='' @
      show_int (ye_fileSize y) @ '' name='' @ nm @ [cr, lf]"
    by (simp add: yenc_header_def assms(1))
  from field [OF h, of 6] show "\<exists>u. find_at ?h '' size='' = Some u \<and> u + 6 < length ?h \<and>
      atoi_c (c_str (drop (u + 6) ?h)) = ye_fileSize y"
    by (auto simp: atoi_show_int)
  have h: "?h = ''=ybegin'' @ '' part='' @ show_int (ye_part y) @ '' line=128 size='' @
      show_int (ye_fileSize y) @ '' name='' @ nm @ [cr, lf]"
    by (simp add: yenc_header_def assms(1))
  from field [OF h, of 6] show "\<exists>u. find_at ?h '' part='' = Some u \<and> u < length ?h"
    by auto
  have h: "?h = (''=ybegin part='' @ show_int (ye_part y) @ '' line=128 size='' @ show_int (ye_fileSize y)) @
      '' name='' @ nm @ [cr, lf]"
    by (simp add: yenc_header_def assms(1))
  from field [OF h, of 6] show "\<exists>u. find_at ?h '' name='' = Some u \<and> u + 6 < length ?h \<and>
      drop u ?h = '' name='' @ nm @ [cr, lf]"
    by auto
qed

lemma part_header_read:
  "process_yenc d (yenc_part_header y) (length (yenc_part_header y)) =
     d\<lparr>d_part := True, d_body := True, d_beginPos := ye_offset y + 1, d_endPos := ye_offset y + ye_size y\<rparr>"
proof -
  let ?h = "yenc_part_header y"
  have wf: "wf_cstring ?h" by (simp add: yenc_part_header_def)
  have h: "?h = ''=ypart'' @ '' begin='' @ show_int (ye_offset y + 1) @ '' end='' @
      show_int (ye_offset y + ye_size y) @ [cr, lf]"
    by (simp add: yenc_part_header_def)
  from find_field [OF h wf, of 7] obtain i where b: "find_at ?h '' begin='' = Some i"
      "atoi_c (c_str (drop (i + 7) ?h)) = ye_offset y + 1"
    by (auto simp: atoi_show_int)
  have h: "?h = (''=ypart begin='' @ show_int (ye_offset y + 1)) @ '' end='' @
      show_int (ye_offset y + ye_size y) @ [cr, lf]"
    by (simp add: yenc_part_header_def)
  from find_field [OF h wf, of 5] obtain j where e: "find_at ?h '' end='' = Some j"
      "atoi_c (c_str (drop (j + 5) ?h)) = ye_offset y + ye_size y"
    by (auto simp: atoi_show_int)
  have "starts_with ''=ypart '' ?h" "\<not> starts_with ''=ybegin '' ?h" "7 \<le> length ?h"
    by (simp_all add: yenc_part_header_def)
  then show ?thesis
    using b e by (simp add: process_yenc_def parse_ypart_def Let_def)
qed

lemma trailer_read:
  assumes "d_part d"
  shows "process_yenc d (yenc_trailer y crc) (length (yenc_trailer y crc)) =
     d\<lparr>d_end := True, d_crc := True, d_expectedCRC := crc, d_endSize := ye_size y\<rparr>"
proof -
  let ?h = "yenc_trailer y crc"
  have "unat crc < 2 ^ LENGTH(32)" by (rule unsigned_less)
  then have n: "unat crc < 16 ^ 8" by simp
  then have "nul \<notin> set (to_hex 8 (unat crc))"
    using hex_val_to_hex [of "unat crc" 8 nul] by (auto simp: hex_val_def is_digit_def byte_def)
  then have "wf_cstring (to_hex 8 (unat crc))" unfolding wf_cstring_def .
  then have wf: "wf_cstring ?h" by (simp add: yenc_trailer_def del: to_hex.simps)
  have h: "?h = ''=yend'' @ '' size='' @ show_int (ye_size y) @ '' part=0 pcrc32='' @ to_hex 8 (unat crc) @ [cr, lf]"
    by (simp add: yenc_trailer_def)
  from find_field [OF h wf, of 6] obtain i where b: "find_at ?h '' size='' = Some i" "i + 6 < length ?h"
      "atoi_c (c_str (drop (i + 6) ?h)) = ye_size y"
    by (auto simp: atoi_show_int)
  have h: "?h = (''=yend size='' @ show_int (ye_size y) @ '' part=0'') @ '' pcrc32='' @ to_hex 8 (unat crc) @ [cr, lf]"
    by (simp add: yenc_trailer_def)
  from find_field [OF h wf, of 8] obtain j where e: "find_at ?h '' pcrc32='' = Some j" "j + 8 < length ?h"
      "c_str (drop (j + 8) ?h) = to_hex 8 (unat crc) @ [cr, lf]"
    by auto
  have s: "starts_with ''=yend '' ?h" "\<not> starts_with ''=ybegin '' ?h" "\<not> starts_with ''=ypart '' ?h" "6 \<le> length ?h"
    by (simp_all add: yenc_trailer_def)
  show ?thesis
    using b e s assms strtoul16_to_hex [OF n]
    by (simp add: process_yenc_def Let_def)
qed

text \<open>The article decoder reads from the three lines of the encoder exactly what the encoder
  put in them: the file size and the file name (taken as Latin-1), the range of the part, the size
  of the part and its checksum.\<close>

theorem decoder_reads_encoder_lines:
  assumes "nm = base_file_name (ye_filename y)" "nm \<noteq> []" "\<forall>c \<in> set nm. c \<noteq> nul \<and> c \<noteq> lf \<and> c \<noteq> cr"
    and "\<not> sublist ''=ypart '' nm"
    and "d1 = process_yenc d (yenc_header y) (length (yenc_header y))"
    and "d2 = process_yenc d1 (yenc_part_header y) (length (yenc_part_header y))"
    and "d3 = process_yenc d2 (yenc_trailer y crc) (length (yenc_trailer y crc))"
  shows "d_begin d1 \<and> d_size d1 = ye_fileSize y \<and> d_articleFilename d1 = latin1_to_utf8 nm \<and>
    d_body d1 = d_body d \<and>
    d2 = d1\<lparr>d_part := True, d_body := True, d_beginPos := ye_offset y + 1, d_endPos := ye_offset y + ye_size y\<rparr> \<and>
    d3 = d2\<lparr>d_end := True, d_crc := True, d_expectedCRC := crc, d_endSize := ye_size y\<rparr>"
proof -
  let ?h = "yenc_header y"
  have wf: "wf_cstring nm" using assms(3) by (auto simp: wf_cstring_def)
  from header_fields [OF assms(1) wf] obtain u1 u2 u3 where
    u1: "find_at ?h '' size='' = Some u1" "u1 + 6 < length ?h"
      "atoi_c (c_str (drop (u1 + 6) ?h)) = ye_fileSize y"
    and u2: "find_at ?h '' part='' = Some u2" "u2 < length ?h"
    and u3: "find_at ?h '' name='' = Some u3" "u3 + 6 < length ?h"
      "drop u3 ?h = '' name='' @ nm @ [cr, lf]"
    by blast
  have "length (drop u3 ?h) = length ('' name='' @ nm @ [cr, lf])" using u3(3) by simp
  then have "length nm < length ?h - u3 - 6" by simp
  note scan = name_scan_whole [OF assms(3,4) this]
  have "starts_with ''=ybegin '' ?h" "8 \<le> length ?h" by (simp_all add: yenc_header_def)
  then have "d1 = d\<lparr>d_begin := True, d_size := ye_fileSize y, d_part := True,
      d_articleFilename := latin1_to_utf8 nm\<rparr>"
    using u1 u2 u3 scan assms(2) wf unfolding assms(5)
    by (simp add: process_yenc_def parse_name_def cstring_of_def Let_def c_str_wf)
  moreover have "d_part d2" unfolding assms(6) part_header_read by simp
  ultimately show ?thesis
    unfolding assms(7) trailer_read [OF \<open>d_part d2\<close>] unfolding assms(6) part_header_read by simp
qed

theorem decoder_reads_encoder_lines_witness:
  "d_articleFilename (process_yenc decoder_init (yenc_header example_segment) (length (yenc_header example_segment))) =
     ''f.bin''"
proof -
  have "base_file_name (ye_filename example_segment) = ''f.bin''"
    by (simp add: base_file_name_def example_segment_def last_pos_def)
  moreover have "\<not> sublist ''=ypart '' ''f.bin''" by (simp add: sublist_Cons_right)
  ultimately show ?thesis
    using decoder_reads_encoder_lines [of "''f.bin''" example_segment _ decoder_init _ _ 0, OF _ _ _ _ refl refl refl]
    by (simp add: byte_def)
qed

end
