(* ===== verification/QueueData.thy ===== *)
theory QueueData
  imports Prelude
begin

text \<open>
  The data model of the download queue, \<open>daemon/queue/DownloadInfo.h\<close> and the list classes of
  \<open>DownloadInfo.cpp\<close>: server statistics, post-processing parameters, script statuses, files,
  articles, downloads (\<open>NzbInfo\<close>), history items, and the generation of identifiers.

  Counters (\<open>int\<close>, \<open>int64\<close>) and times are integers; a mutex, a thread or a segment held in memory
  is not part of the records. Pointers from a file to its download are the position of the file in
  the download's list.
\<close>

section \<open>Enumerations\<close>

datatype stat_operation = soSet | soAdd | soSubtract
datatype article_status = aiUndefined | aiRunning | aiFinished | aiFailed
datatype partial_state = fpNone | fpPartial | fpCompleted
datatype completed_status = cfNone | cfSuccess | cfPartial | cfFailure
datatype script_status = srNone | srFailure | srSuccess
datatype dupe_mode = dmScore | dmAll | dmForce
datatype direct_rename_status = tsNone | tsRunning | tsFailure | tsSuccess
datatype post_rename_status = rsNone | rsSkipped | rsNothing | rsSuccess
datatype par_status = psNone | psSkipped | psFailure | psSuccess | psRepairPossible | psManual
datatype direct_unpack_status = nsNone | nsRunning | nsFailure | nsSuccess
datatype unpack_status = usNone | usSkipped | usFailure | usSuccess | usSpace | usPassword
datatype cleanup_status = csNone | csFailure | csSuccess
datatype move_status = msNone | msFailure | msSuccess
datatype post_unpack_renaming_status = purNone | purFailure | purSuccess | purSkipped
datatype post_stage = ptQueued | ptLoadingPars | ptVerifyingSources | ptRepairing | ptVerifyingRepaired
  | ptParRenaming | ptRarRenaming | ptUnpacking | ptCleaningUp | ptMoving | ptPostUnpackRenaming
  | ptExecutingScript | ptFinished
datatype delete_status = dsNone | dsManual | dsHealth | dsDupe | dsBad | dsGood | dsCopy | dsScan
datatype mark_status = ksNone | ksBad | ksGood | ksSuccess
datatype url_status = lsNone | lsRunning | lsFinished | lsFailed | lsRetry | lsScanSkipped | lsScanFailed
datatype nzb_kind = nkNzb | nkUrl
datatype dupe_hint = dhNone | dhRedownloadManual | dhRedownloadAuto
datatype dup_status = ddUndefined | ddSuccess | ddFailed | ddDeleted | ddDupe | ddBad | ddGood

text \<open>The code compares these enumerations with \<open><\<close> and \<open>>\<close>: the order of their constants.\<close>

fun direct_rename_status_rank :: "direct_rename_status \<Rightarrow> nat" where
  "direct_rename_status_rank tsNone = 0"
| "direct_rename_status_rank tsRunning = 1"
| "direct_rename_status_rank tsFailure = 2"
| "direct_rename_status_rank tsSuccess = 3"

lemma direct_rename_status_rank_inj: "direct_rename_status_rank a = direct_rename_status_rank b \<Longrightarrow> a = b"
  by (cases a; cases b) simp_all

instantiation direct_rename_status :: linorder
begin

definition less_eq_direct_rename_status :: "direct_rename_status \<Rightarrow> direct_rename_status \<Rightarrow> bool" where
  "less_eq_direct_rename_status a b \<longleftrightarrow> direct_rename_status_rank a \<le> direct_rename_status_rank b"

definition less_direct_rename_status :: "direct_rename_status \<Rightarrow> direct_rename_status \<Rightarrow> bool" where
  "less_direct_rename_status a b \<longleftrightarrow> direct_rename_status_rank a < direct_rename_status_rank b"

instance
  by standard (auto simp: less_eq_direct_rename_status_def less_direct_rename_status_def dest: direct_rename_status_rank_inj)

end

fun par_status_rank :: "par_status \<Rightarrow> nat" where
  "par_status_rank psNone = 0"
| "par_status_rank psSkipped = 1"
| "par_status_rank psFailure = 2"
| "par_status_rank psSuccess = 3"
| "par_status_rank psRepairPossible = 4"
| "par_status_rank psManual = 5"

lemma par_status_rank_inj: "par_status_rank a = par_status_rank b \<Longrightarrow> a = b"
  by (cases a; cases b) simp_all

instantiation par_status :: linorder
begin

definition less_eq_par_status :: "par_status \<Rightarrow> par_status \<Rightarrow> bool" where
  "less_eq_par_status a b \<longleftrightarrow> par_status_rank a \<le> par_status_rank b"

definition less_par_status :: "par_status \<Rightarrow> par_status \<Rightarrow> bool" where
  "less_par_status a b \<longleftrightarrow> par_status_rank a < par_status_rank b"

instance
  by standard (auto simp: less_eq_par_status_def less_par_status_def dest: par_status_rank_inj)

end

fun unpack_status_rank :: "unpack_status \<Rightarrow> nat" where
  "unpack_status_rank usNone = 0"
| "unpack_status_rank usSkipped = 1"
| "unpack_status_rank usFailure = 2"
| "unpack_status_rank usSuccess = 3"
| "unpack_status_rank usSpace = 4"
| "unpack_status_rank usPassword = 5"

lemma unpack_status_rank_inj: "unpack_status_rank a = unpack_status_rank b \<Longrightarrow> a = b"
  by (cases a; cases b) simp_all

instantiation unpack_status :: linorder
begin

definition less_eq_unpack_status :: "unpack_status \<Rightarrow> unpack_status \<Rightarrow> bool" where
  "less_eq_unpack_status a b \<longleftrightarrow> unpack_status_rank a \<le> unpack_status_rank b"

definition less_unpack_status :: "unpack_status \<Rightarrow> unpack_status \<Rightarrow> bool" where
  "less_unpack_status a b \<longleftrightarrow> unpack_status_rank a < unpack_status_rank b"

instance
  by standard (auto simp: less_eq_unpack_status_def less_unpack_status_def dest: unpack_status_rank_inj)

end

fun delete_status_rank :: "delete_status \<Rightarrow> nat" where
  "delete_status_rank dsNone = 0"
| "delete_status_rank dsManual = 1"
| "delete_status_rank dsHealth = 2"
| "delete_status_rank dsDupe = 3"
| "delete_status_rank dsBad = 4"
| "delete_status_rank dsGood = 5"
| "delete_status_rank dsCopy = 6"
| "delete_status_rank dsScan = 7"

lemma delete_status_rank_inj: "delete_status_rank a = delete_status_rank b \<Longrightarrow> a = b"
  by (cases a; cases b) simp_all

instantiation delete_status :: linorder
begin

definition less_eq_delete_status :: "delete_status \<Rightarrow> delete_status \<Rightarrow> bool" where
  "less_eq_delete_status a b \<longleftrightarrow> delete_status_rank a \<le> delete_status_rank b"

definition less_delete_status :: "delete_status \<Rightarrow> delete_status \<Rightarrow> bool" where
  "less_delete_status a b \<longleftrightarrow> delete_status_rank a < delete_status_rank b"

instance
  by standard (auto simp: less_eq_delete_status_def less_delete_status_def dest: delete_status_rank_inj)

end

section \<open>Lists keyed by name or by server\<close>

text \<open>
  The contract of the list classes: a lookup by key, a step that processes one element, and what
  a lookup finds after the step. Processing a whole list then combines, for each key, the values
  of the elements with that key, in order.
\<close>

locale keyed_list =
  fixes lookup :: "'s \<Rightarrow> 'k \<Rightarrow> 'v" and step :: "'e \<Rightarrow> 's \<Rightarrow> 's"
    and key_eq :: "'e \<Rightarrow> 'k \<Rightarrow> bool" and combine :: "'v \<Rightarrow> 'e \<Rightarrow> 'v"
  assumes lookup_step: "lookup (step x s) k = (if key_eq x k then combine (lookup s k) x else lookup s k)"
begin

lemma lookup_fold:
  "lookup (foldl (\<lambda>s x. step x s) s xs) k = foldl combine (lookup s k) (filter (\<lambda>x. key_eq x k) xs)"
  by (induction xs arbitrary: s) (auto simp: lookup_step)

lemma lookup_fold_other: "\<forall>x \<in> set xs. \<not> key_eq x k \<Longrightarrow> lookup (foldl (\<lambda>s x. step x s) s xs) k = lookup s k"
  by (simp add: lookup_fold filter_False)

end

subsection \<open>Post-processing parameters\<close>

record nzb_parameter =
  np_name :: cstring
  np_value :: cstring

text \<open>\<open>SetParameter\<close> (a null value is the empty one), \<open>Find\<close> and \<open>CopyFrom\<close>.\<close>

fun set_parameter :: "cstring \<Rightarrow> cstring \<Rightarrow> nzb_parameter list \<Rightarrow> nzb_parameter list" where
  "set_parameter name val [] = (if val = [] then [] else [\<lparr>np_name = name, np_value = val\<rparr>])"
| "set_parameter name val (p # ps) =
     (if strcase_eq (np_name p) name
      then (if val = [] then ps else p\<lparr>np_value := val\<rparr> # ps)
      else p # set_parameter name val ps)"

fun find_parameter :: "cstring \<Rightarrow> nzb_parameter list \<Rightarrow> nzb_parameter option" where
  "find_parameter name [] = None"
| "find_parameter name (p # ps) = (if strcase_eq (np_name p) name then Some p else find_parameter name ps)"

definition copy_parameters :: "nzb_parameter list \<Rightarrow> nzb_parameter list \<Rightarrow> nzb_parameter list" where
  "copy_parameters src ps = foldl (\<lambda>ps p. set_parameter (np_name p) (np_value p) ps) ps src"

text \<open>The abstraction: what a name, whatever its case, is set to.\<close>

definition param_value :: "nzb_parameter list \<Rightarrow> cstring \<Rightarrow> cstring option" where
  "param_value ps name = map_option np_value (find_parameter name ps)"

fun params_ok :: "nzb_parameter list \<Rightarrow> bool" where
  "params_ok [] \<longleftrightarrow> True"
| "params_ok (p # ps) \<longleftrightarrow> find_parameter (np_name p) ps = None \<and> np_value p \<noteq> [] \<and> params_ok ps"

lemma find_parameter_cong:
  "strcase_eq m n \<Longrightarrow> find_parameter m ps = find_parameter n ps"
  by (induction ps) (auto simp: strcase_eq_def)

lemma find_set_parameter_other:
  "\<not> strcase_eq name n \<Longrightarrow> find_parameter n (set_parameter name v ps) = find_parameter n ps"
  by (induction ps) (auto simp: strcase_eq_def)

lemma params_ok_set:
  "params_ok ps \<Longrightarrow> params_ok (set_parameter name v ps)"
proof (induction ps)
  case Nil
  then show ?case by simp
next
  case (Cons p ps)
  have "find_parameter (np_name p) (set_parameter name v ps) = find_parameter (np_name p) ps"
    if "\<not> strcase_eq (np_name p) name"
    using that by (intro find_set_parameter_other) (simp add: strcase_eq_sym)
  with Cons show ?case by auto
qed

lemma param_value_set_parameter:
  assumes "params_ok ps"
  shows "param_value (set_parameter name v ps) n =
    (if strcase_eq name n then (if v = [] then None else Some v) else param_value ps n)"
proof (cases "strcase_eq name n")
  case False
  then show ?thesis by (simp add: param_value_def find_set_parameter_other)
next
  case True
  with assms show ?thesis
  proof (induction ps)
    case Nil
    then show ?case by (simp add: param_value_def)
  next
    case (Cons p ps)
    then have c: "strcase_eq (np_name p) name \<longleftrightarrow> strcase_eq (np_name p) n"
      by (simp add: strcase_eq_def)
    with Cons find_parameter_cong [of "np_name p" n ps] show ?case
      by (auto simp: param_value_def)
  qed
qed

text \<open>Parameter lists without duplicate names as a type, on which the contract holds.\<close>

typedef params = "{ps. params_ok ps}"
  by (rule exI [of _ "[]"]) simp

setup_lifting type_definition_params

lift_definition p_set :: "nzb_parameter \<Rightarrow> params \<Rightarrow> params"
  is "\<lambda>p ps. set_parameter (np_name p) (np_value p) ps"
  by (rule params_ok_set)

lift_definition p_value :: "params \<Rightarrow> cstring \<Rightarrow> cstring option" is param_value .

interpretation parms: keyed_list p_value p_set "\<lambda>p. strcase_eq (np_name p)"
    "\<lambda>_ p. if np_value p = [] then None else Some (np_value p)"
  by unfold_locales (transfer, simp add: param_value_set_parameter)

lemma copy_parameters_rep:
  "copy_parameters src (Rep_params s) = Rep_params (foldl (\<lambda>s p. p_set p s) s src)"
  by (induction src arbitrary: s) (simp_all add: copy_parameters_def p_set.rep_eq [symmetric])

lemma foldl_last: "foldl (\<lambda>_ x. f x) a xs = (if xs = [] then a else f (last xs))"
  by (induction xs arbitrary: a) auto

text \<open>Copying a parameter list gives every name the value of the last source parameter with that
  name (an empty value removes it) and keeps the value of every other name; names compare without
  case, and no name ever occurs twice.\<close>

theorem copy_parameters_correct:
  assumes "params_ok ps"
  shows "params_ok (copy_parameters src ps) \<and>
    param_value (copy_parameters src ps) n =
      (case filter (\<lambda>p. strcase_eq (np_name p) n) src of
         [] \<Rightarrow> param_value ps n
       | m \<Rightarrow> if np_value (last m) = [] then None else Some (np_value (last m)))"
proof -
  have ps: "Rep_params (Abs_params ps) = ps" using assms by (simp add: Abs_params_inverse)
  let ?s = "foldl (\<lambda>s p. p_set p s) (Abs_params ps) src"
  have c: "copy_parameters src ps = Rep_params ?s"
    using copy_parameters_rep [of src "Abs_params ps"] ps by simp
  have "param_value (copy_parameters src ps) n = p_value ?s n"
    by (simp add: c p_value.rep_eq)
  also have "\<dots> = (case filter (\<lambda>p. strcase_eq (np_name p) n) src of
         [] \<Rightarrow> param_value ps n
       | m \<Rightarrow> if np_value (last m) = [] then None else Some (np_value (last m)))"
    unfolding parms.lookup_fold foldl_last by (simp add: p_value.rep_eq ps split: list.split)
  finally show ?thesis using Rep_params [of ?s] c by simp
qed

theorem copy_parameters_correct_witness:
  "param_value (copy_parameters [\<lparr>np_name = ''unpack'', np_value = ''no''\<rparr>]
     [\<lparr>np_name = ''unpack'', np_value = ''yes''\<rparr>]) ''unpack'' = Some ''no''"
  using copy_parameters_correct [of "[\<lparr>np_name = ''unpack'', np_value = ''yes''\<rparr>]"
    "[\<lparr>np_name = ''unpack'', np_value = ''no''\<rparr>]" "''unpack''"]
  by simp

subsection \<open>Server statistics\<close>

record server_stat =
  ss_server :: int
  ss_success :: int
  ss_failed :: int

definition stat_apply :: "stat_operation \<Rightarrow> int \<Rightarrow> int \<Rightarrow> server_stat \<Rightarrow> server_stat" where
  "stat_apply op s f st =
     (case op of
        soSet \<Rightarrow> st\<lparr>ss_success := s, ss_failed := f\<rparr>
      | soAdd \<Rightarrow> st\<lparr>ss_success := ss_success st + s, ss_failed := ss_failed st + f\<rparr>
      | soSubtract \<Rightarrow> st\<lparr>ss_success := ss_success st - s, ss_failed := ss_failed st - f\<rparr>)"

fun stat_op :: "int \<Rightarrow> int \<Rightarrow> int \<Rightarrow> stat_operation \<Rightarrow> server_stat list \<Rightarrow> server_stat list" where
  "stat_op srv s f op [] = [stat_apply op s f \<lparr>ss_server = srv, ss_success = 0, ss_failed = 0\<rparr>]"
| "stat_op srv s f op (x # xs) =
     (if ss_server x = srv then stat_apply op s f x # xs else x # stat_op srv s f op xs)"

definition list_op :: "server_stat list \<Rightarrow> stat_operation \<Rightarrow> server_stat list \<Rightarrow> server_stat list" where
  "list_op src op xs =
     foldl (\<lambda>xs x. stat_op (ss_server x) (ss_success x) (ss_failed x) op xs) xs src"

text \<open>The abstraction: the counts of a server, zero for one without an entry.\<close>

fun stat_of :: "server_stat list \<Rightarrow> int \<Rightarrow> int \<times> int" where
  "stat_of [] srv = (0, 0)"
| "stat_of (x # xs) srv = (if ss_server x = srv then (ss_success x, ss_failed x) else stat_of xs srv)"

fun stat_combine :: "stat_operation \<Rightarrow> int \<times> int \<Rightarrow> server_stat \<Rightarrow> int \<times> int" where
  "stat_combine soSet v x = (ss_success x, ss_failed x)"
| "stat_combine soAdd (s, f) x = (s + ss_success x, f + ss_failed x)"
| "stat_combine soSubtract (s, f) x = (s - ss_success x, f - ss_failed x)"

lemma stat_of_stat_op:
  "stat_of (stat_op (ss_server x) (ss_success x) (ss_failed x) op xs) k =
     (if ss_server x = k then stat_combine op (stat_of xs k) x else stat_of xs k)"
  by (induction xs) (cases op; auto simp: stat_apply_def)+

interpretation stats: keyed_list stat_of "\<lambda>x. stat_op (ss_server x) (ss_success x) (ss_failed x) op"
    "\<lambda>x k. ss_server x = k" "stat_combine op" for op
  by unfold_locales (rule stat_of_stat_op)

lemma stat_op_distinct:
  "distinct (map ss_server xs) \<Longrightarrow> distinct (map ss_server (stat_op srv s f op xs)) \<and>
   set (map ss_server (stat_op srv s f op xs)) = insert srv (set (map ss_server xs))"
  by (induction xs) (auto simp: stat_apply_def split: stat_operation.splits)

lemma list_op_distinct:
  "distinct (map ss_server xs) \<Longrightarrow> distinct (map ss_server (list_op src op xs))"
  unfolding list_op_def by (induction src arbitrary: xs) (simp_all add: stat_op_distinct)

definition stat_total :: "server_stat list \<Rightarrow> int \<Rightarrow> int \<times> int" where
  "stat_total xs k =
     (sum_list (map ss_success (filter (\<lambda>x. ss_server x = k) xs)),
      sum_list (map ss_failed (filter (\<lambda>x. ss_server x = k) xs)))"

lemma foldl_stat_add:
  "foldl (stat_combine soAdd) v xs = (fst v + sum_list (map ss_success xs), snd v + sum_list (map ss_failed xs))"
  "foldl (stat_combine soSubtract) v xs = (fst v - sum_list (map ss_success xs), snd v - sum_list (map ss_failed xs))"
  by (induction xs arbitrary: v) (auto split: prod.splits)

lemma filter_one_key:
  "distinct (map ss_server xs) \<Longrightarrow>
   filter (\<lambda>x. ss_server x = k) xs = [] \<and> stat_of xs k = (0, 0) \<or>
   (\<exists>x. filter (\<lambda>x. ss_server x = k) xs = [x] \<and> stat_of xs k = (ss_success x, ss_failed x))"
proof (induction xs)
  case (Cons x xs)
  have "filter (\<lambda>x. ss_server x = k) xs = []" if "ss_server x = k"
    using Cons.prems that by (auto simp: filter_empty_conv) (metis image_eqI)
  with Cons show ?case by auto
qed simp

lemma stat_total_distinct: "distinct (map ss_server xs) \<Longrightarrow> stat_total xs k = stat_of xs k"
  using filter_one_key [of xs k] by (auto simp: stat_total_def)

text \<open>Adding and subtracting lists adds and subtracts the counts server by server.\<close>

lemma stat_of_list_op:
  "stat_of (list_op src soAdd xs) k =
     (fst (stat_of xs k) + fst (stat_total src k), snd (stat_of xs k) + snd (stat_total src k))"
  "stat_of (list_op src soSubtract xs) k =
     (fst (stat_of xs k) - fst (stat_total src k), snd (stat_of xs k) - snd (stat_total src k))"
  unfolding list_op_def stats.lookup_fold foldl_stat_add stat_total_def by simp_all

lemma stat_of_list_set:
  assumes "distinct (map ss_server src)"
  shows "stat_of (list_op src soSet xs) k =
    (if k \<in> set (map ss_server src) then stat_of src k else stat_of xs k)"
proof -
  have "filter (\<lambda>x. ss_server x = k) src = [] \<longleftrightarrow> k \<notin> set (map ss_server src)"
    by (auto simp: filter_empty_conv)
  then show ?thesis
    using filter_one_key [OF assms, of k] unfolding list_op_def stats.lookup_fold by auto
qed

subsection \<open>Script statuses\<close>

definition calc_total_status :: "script_status list \<Rightarrow> script_status" where
  "calc_total_status sts =
     foldl (\<lambda>status st. if (st = srSuccess \<and> status = srNone) \<or> st = srFailure then st else status) srNone sts"

lemma calc_total_status_eq:
  "calc_total_status sts =
     (if srFailure \<in> set sts then srFailure else if srSuccess \<in> set sts then srSuccess else srNone)"
proof -
  have "foldl (\<lambda>status st. if (st = srSuccess \<and> status = srNone) \<or> st = srFailure then st else status) a sts =
      (if srFailure \<in> set sts \<or> a = srFailure then srFailure
       else if srSuccess \<in> set sts \<or> a = srSuccess then srSuccess else srNone)" for a
    by (induction sts arbitrary: a) (auto, (metis script_status.exhaust)+)
  then show ?thesis by (simp add: calc_total_status_def)
qed

end
