(* ===== verification/NzbInfo.thy ===== *)
theory NzbInfo
  imports QueueData
begin

text \<open>
  Files and downloads, \<open>FileInfo\<close> and \<open>NzbInfo\<close> of \<open>daemon/queue/DownloadInfo.cpp\<close>: the
  counters kept beside the file list and the operations that update them, health, the time
  accounting, the status texts, the message buffer, identifiers, and the totals of the queue.
\<close>

section \<open>Records\<close>

record article_info =
  ai_partNumber :: int
  ai_messageId :: cstring
  ai_size :: int
  ai_segmentContent :: "cstring option"
  ai_segmentOffset :: int
  ai_segmentSize :: int
  ai_crc :: "32 word"
  ai_status :: article_status
  ai_resultFilename :: cstring

record file_info =
  fi_id :: int
  fi_articles :: "article_info list"
  fi_groups :: "cstring list"
  fi_serverStats :: "server_stat list"
  fi_subject :: cstring
  fi_filename :: cstring
  fi_origname :: cstring
  fi_size :: int
  fi_remainingSize :: int
  fi_successSize :: int
  fi_failedSize :: int
  fi_missedSize :: int
  fi_totalArticles :: int
  fi_missedArticles :: int
  fi_failedArticles :: int
  fi_successArticles :: int
  fi_time :: int
  fi_paused :: bool
  fi_deleted :: bool
  fi_filenameConfirmed :: bool
  fi_parFile :: bool
  fi_completedArticles :: int
  fi_outputInitialized :: bool
  fi_outputFilename :: cstring
  fi_outputFileMutex :: bool
  fi_extraPriority :: bool
  fi_activeDownloads :: int
  fi_dupeDeleted :: bool
  fi_cachedArticles :: int
  fi_partialChanged :: bool
  fi_forceDirectWrite :: bool
  fi_partialState :: partial_state
  fi_crc :: "32 word"
  fi_hash16k :: cstring
  fi_parSetId :: cstring
  fi_flushLocked :: bool
  fi_hardLinkPath :: cstring

record completed_file =
  cf_id :: int
  cf_filename :: cstring
  cf_origname :: cstring
  cf_status :: completed_status
  cf_crc :: "32 word"
  cf_parFile :: bool
  cf_hash16k :: cstring
  cf_parSetId :: cstring

record message =
  msg_id :: int
  msg_kind :: nat
  msg_time :: int
  msg_text :: cstring

text \<open>Post-processing of a download, without the pointers to the download and to the thread.\<close>

record post_info =
  pi_working :: bool
  pi_deleted :: bool
  pi_requestParCheck :: bool
  pi_forceParFull :: bool
  pi_forceRepair :: bool
  pi_parRepaired :: bool
  pi_unpackTried :: bool
  pi_passListTried :: bool
  pi_lastUnpackStatus :: int
  pi_needParCheck :: bool
  pi_stage :: post_stage
  pi_progressLabel :: cstring
  pi_fileProgress :: int
  pi_stageProgress :: int
  pi_startTime :: int
  pi_stageTime :: int
  pi_parredFiles :: "cstring list"
  pi_extractedArchives :: "cstring list"

definition post_init :: post_info where
  "post_init = \<lparr>
     pi_working = False, pi_deleted = False, pi_requestParCheck = False, pi_forceParFull = False,
     pi_forceRepair = False, pi_parRepaired = False, pi_unpackTried = False, pi_passListTried = False,
     pi_lastUnpackStatus = 0, pi_needParCheck = False, pi_stage = ptQueued, pi_progressLabel = [],
     pi_fileProgress = 0, pi_stageProgress = 0, pi_startTime = 0, pi_stageTime = 0,
     pi_parredFiles = [], pi_extractedArchives = []\<rparr>"

record nzb_info =
  nz_id :: int
  nz_kind :: nzb_kind
  nz_url :: cstring
  nz_filename :: cstring
  nz_name :: "cstring option"
  nz_destDir :: cstring
  nz_finalDir :: cstring
  nz_category :: cstring
  nz_hardLinkPath :: cstring
  nz_fileCount :: int
  nz_parkedFileCount :: int
  nz_size :: int
  nz_remainingSize :: int
  nz_pausedFileCount :: int
  nz_pausedSize :: int
  nz_remainingParCount :: int
  nz_activeDownloads :: int
  nz_successSize :: int
  nz_failedSize :: int
  nz_currentSuccessSize :: int
  nz_currentFailedSize :: int
  nz_parSize :: int
  nz_parSuccessSize :: int
  nz_parFailedSize :: int
  nz_parCurrentSuccessSize :: int
  nz_parCurrentFailedSize :: int
  nz_totalArticles :: int
  nz_successArticles :: int
  nz_failedArticles :: int
  nz_currentSuccessArticles :: int
  nz_currentFailedArticles :: int
  nz_minTime :: int
  nz_maxTime :: int
  nz_priority :: int
  nz_extraPriority :: int
  nz_completedFiles :: "completed_file list"
  nz_directRenameStatus :: direct_rename_status
  nz_parRenameStatus :: post_rename_status
  nz_rarRenameStatus :: post_rename_status
  nz_parStatus :: par_status
  nz_directUnpackStatus :: direct_unpack_status
  nz_unpackStatus :: unpack_status
  nz_cleanupStatus :: cleanup_status
  nz_moveStatus :: move_status
  nz_postUnpackRenamingStatus :: post_unpack_renaming_status
  nz_deleteStatus :: delete_status
  nz_markStatus :: mark_status
  nz_urlStatus :: url_status
  nz_extraParBlocks :: int
  nz_addUrlPaused :: bool
  nz_deletePaused :: bool
  nz_manyDupeFiles :: bool
  nz_queuedFilename :: cstring
  nz_deleting :: bool
  nz_parking :: bool
  nz_avoidHistory :: bool
  nz_healthPaused :: bool
  nz_parManual :: bool
  nz_cleanupDisk :: bool
  nz_unpackCleanedUpDisk :: bool
  nz_dupeKey :: cstring
  nz_dupeScore :: int
  nz_dupeMode :: dupe_mode
  nz_dupeHint :: dupe_hint
  nz_fullContentHash :: "32 word"
  nz_filteredContentHash :: "32 word"
  nz_fileList :: "file_info list"
  nz_ppParameters :: "nzb_parameter list"
  nz_scriptStatuses :: "script_status list"
  nz_serverStats :: "server_stat list"
  nz_currentServerStats :: "server_stat list"
  nz_messages :: "message list"
  nz_idMessageGen :: int
  nz_postInfo :: "post_info option"
  nz_downloadedSize :: int
  nz_downloadStartTime :: int
  nz_downloadStartSec :: int
  nz_downloadSec :: int
  nz_postTotalSec :: int
  nz_parSec :: int
  nz_repairSec :: int
  nz_unpackSec :: int
  nz_changed :: bool
  nz_reprocess :: bool
  nz_queueScriptTime :: int
  nz_parFull :: bool
  nz_messageCount :: int
  nz_cachedMessageCount :: int
  nz_feedId :: int
  nz_allFirst :: bool
  nz_waitingPar :: bool
  nz_loadingPar :: bool
  nz_desiredServerId :: int
  nz_skipScriptProcessing :: bool
  nz_skipDiskWrite :: bool
  nz_autoCategory :: bool

text \<open>New objects: the member initialisers.\<close>

definition file_init :: file_info where
  "file_init = \<lparr>
     fi_id = 0, fi_articles = [], fi_groups = [], fi_serverStats = [], fi_subject = [],
     fi_filename = [], fi_origname = [], fi_size = 0, fi_remainingSize = 0, fi_successSize = 0,
     fi_failedSize = 0, fi_missedSize = 0, fi_totalArticles = 0, fi_missedArticles = 0,
     fi_failedArticles = 0, fi_successArticles = 0, fi_time = 0, fi_paused = False,
     fi_deleted = False, fi_filenameConfirmed = False, fi_parFile = False, fi_completedArticles = 0,
     fi_outputInitialized = False, fi_outputFilename = [], fi_outputFileMutex = False,
     fi_extraPriority = False, fi_activeDownloads = 0, fi_dupeDeleted = False, fi_cachedArticles = 0,
     fi_partialChanged = False, fi_forceDirectWrite = False, fi_partialState = fpNone, fi_crc = 0,
     fi_hash16k = [], fi_parSetId = [], fi_flushLocked = False, fi_hardLinkPath = []\<rparr>"

definition nzb_init :: nzb_info where
  "nzb_init = \<lparr>
     nz_id = 0, nz_kind = nkNzb, nz_url = [], nz_filename = [], nz_name = None, nz_destDir = [],
     nz_finalDir = [], nz_category = [], nz_hardLinkPath = [], nz_fileCount = 0, nz_parkedFileCount = 0, nz_size = 0,
     nz_remainingSize = 0, nz_pausedFileCount = 0, nz_pausedSize = 0, nz_remainingParCount = 0,
     nz_activeDownloads = 0, nz_successSize = 0, nz_failedSize = 0, nz_currentSuccessSize = 0,
     nz_currentFailedSize = 0, nz_parSize = 0, nz_parSuccessSize = 0, nz_parFailedSize = 0,
     nz_parCurrentSuccessSize = 0, nz_parCurrentFailedSize = 0, nz_totalArticles = 0,
     nz_successArticles = 0, nz_failedArticles = 0, nz_currentSuccessArticles = 0,
     nz_currentFailedArticles = 0, nz_minTime = 0, nz_maxTime = 0, nz_priority = 0,
     nz_extraPriority = 0, nz_completedFiles = [], nz_directRenameStatus = tsNone,
     nz_parRenameStatus = rsNone, nz_rarRenameStatus = rsNone, nz_parStatus = psNone,
     nz_directUnpackStatus = nsNone, nz_unpackStatus = usNone, nz_cleanupStatus = csNone,
     nz_moveStatus = msNone, nz_postUnpackRenamingStatus = purNone, nz_deleteStatus = dsNone, nz_markStatus = ksNone, nz_urlStatus = lsNone,
     nz_extraParBlocks = 0, nz_addUrlPaused = False, nz_deletePaused = False,
     nz_manyDupeFiles = False, nz_queuedFilename = [], nz_deleting = False, nz_parking = False,
     nz_avoidHistory = False, nz_healthPaused = False, nz_parManual = False,
     nz_cleanupDisk = False, nz_unpackCleanedUpDisk = False, nz_dupeKey = [], nz_dupeScore = 0,
     nz_dupeMode = dmScore, nz_dupeHint = dhNone, nz_fullContentHash = 0, nz_filteredContentHash = 0,
     nz_fileList = [], nz_ppParameters = [], nz_scriptStatuses = [], nz_serverStats = [],
     nz_currentServerStats = [], nz_messages = [], nz_idMessageGen = 0, nz_postInfo = None, nz_downloadedSize = 0,
     nz_downloadStartTime = 0, nz_downloadStartSec = 0, nz_downloadSec = 0,
     nz_postTotalSec = 0, nz_parSec = 0, nz_repairSec = 0, nz_unpackSec = 0, nz_changed = False,
     nz_reprocess = False, nz_queueScriptTime = 0, nz_parFull = False, nz_messageCount = 0, nz_cachedMessageCount = 0, nz_feedId = 0,
     nz_allFirst = False, nz_waitingPar = False, nz_loadingPar = False, nz_desiredServerId = 0,
     nz_skipScriptProcessing = False, nz_skipDiskWrite = False,
     nz_autoCategory = False\<rparr>"

abbreviation of_flag :: "bool \<Rightarrow> int" where
  "of_flag b \<equiv> (if b then 1 else 0)"

definition force_priority :: int where
  "force_priority = 900"

definition has_extra_priority :: "nzb_info \<Rightarrow> bool" where
  "has_extra_priority nz \<longleftrightarrow> nz_extraPriority nz > 0"

definition get_force_priority :: "nzb_info \<Rightarrow> bool" where
  "get_force_priority nz \<longleftrightarrow> nz_priority nz \<ge> force_priority"

section \<open>Identifiers\<close>

record id_gen =
  ig_gen :: int
  ig_max :: int

definition register_id :: "int \<Rightarrow> id_gen \<Rightarrow> id_gen" where
  "register_id i g = (if ig_max g < i then g\<lparr>ig_max := i\<rparr> else g)"

definition reset_gen_id :: "bool \<Rightarrow> id_gen \<Rightarrow> id_gen" where
  "reset_gen_id use_max g = (if use_max then g\<lparr>ig_gen := ig_max g\<rparr> else g\<lparr>ig_gen := 0, ig_max := 0\<rparr>)"

definition generate_id :: "id_gen \<Rightarrow> id_gen \<times> int" where
  "generate_id g = (g\<lparr>ig_gen := ig_gen g + 1\<rparr>, ig_gen g + 1)"

fun generate_ids :: "nat \<Rightarrow> id_gen \<Rightarrow> id_gen \<times> int list" where
  "generate_ids 0 g = (g, [])"
| "generate_ids (Suc n) g =
     (case generate_id g of (g1, i) \<Rightarrow> case generate_ids n g1 of (g2, is) \<Rightarrow> (g2, i # is))"

section \<open>Files\<close>

text \<open>\<open>FileInfo::SetPaused\<close>, \<open>SetExtraPriority\<close> on a file that belongs to a download.\<close>

definition file_set_paused :: "bool \<Rightarrow> file_info \<Rightarrow> nzb_info \<Rightarrow> file_info \<times> nzb_info" where
  "file_set_paused paused fi nz =
     (fi\<lparr>fi_paused := paused\<rparr>,
      if fi_paused fi \<noteq> paused then
        nz\<lparr>nz_pausedFileCount := nz_pausedFileCount nz + (if paused then 1 else -1),
           nz_pausedSize := nz_pausedSize nz + (if paused then fi_remainingSize fi else - fi_remainingSize fi)\<rparr>
      else nz)"

definition file_set_extra_priority :: "bool \<Rightarrow> file_info \<Rightarrow> nzb_info \<Rightarrow> file_info \<times> nzb_info" where
  "file_set_extra_priority extra fi nz =
     (fi\<lparr>fi_extraPriority := extra\<rparr>,
      if fi_extraPriority fi \<noteq> extra
      then nz\<lparr>nz_extraPriority := nz_extraPriority nz + (if extra then 1 else -1)\<rparr> else nz)"

definition file_set_active_downloads :: "int \<Rightarrow> file_info \<Rightarrow> file_info" where
  "file_set_active_downloads n fi =
     (let fi = fi\<lparr>fi_activeDownloads := n\<rparr>
      in if n > 0 \<and> \<not> fi_outputFileMutex fi then fi\<lparr>fi_outputFileMutex := True\<rparr>
         else if n = 0 then fi\<lparr>fi_outputFileMutex := False\<rparr>
         else fi)"

definition is_hard_linked :: "file_info \<Rightarrow> bool" where
  "is_hard_linked fi \<longleftrightarrow> fi_hardLinkPath fi \<noteq> []"

definition attach_segment :: "cstring \<Rightarrow> int \<Rightarrow> int \<Rightarrow> article_info \<Rightarrow> article_info" where
  "attach_segment content offset segmentSize ai =
     ai\<lparr>ai_segmentContent := Some content, ai_segmentOffset := offset, ai_segmentSize := segmentSize\<rparr>"

definition discard_segment :: "article_info \<Rightarrow> article_info" where
  "discard_segment ai = ai\<lparr>ai_segmentContent := None\<rparr>"

section \<open>The counters of a download\<close>

definition add_current_file :: "file_info \<Rightarrow> nzb_info \<Rightarrow> nzb_info" where
  "add_current_file fi nz =
     (let nz = nz\<lparr>
            nz_remainingSize := nz_remainingSize nz + fi_remainingSize fi,
            nz_currentSuccessArticles := nz_currentSuccessArticles nz + fi_successArticles fi,
            nz_currentFailedArticles := nz_currentFailedArticles nz + fi_failedArticles fi,
            nz_currentSuccessSize := nz_currentSuccessSize nz + fi_successSize fi,
            nz_currentFailedSize := nz_currentFailedSize nz + fi_failedSize fi,
            nz_extraPriority := nz_extraPriority nz + of_flag (fi_extraPriority fi)\<rparr>;
          nz = (if fi_paused fi
                then nz\<lparr>nz_pausedFileCount := nz_pausedFileCount nz + 1,
                        nz_pausedSize := nz_pausedSize nz + fi_remainingSize fi\<rparr> else nz);
          nz = (if fi_parFile fi
                then nz\<lparr>nz_remainingParCount := nz_remainingParCount nz + 1,
                        nz_parCurrentSuccessSize := nz_parCurrentSuccessSize nz + fi_successSize fi,
                        nz_parCurrentFailedSize := nz_parCurrentFailedSize nz + fi_failedSize fi\<rparr> else nz)
      in nz\<lparr>nz_currentServerStats := list_op (fi_serverStats fi) soAdd (nz_currentServerStats nz)\<rparr>)"

definition update_current_stats :: "nzb_info \<Rightarrow> nzb_info" where
  "update_current_stats nz =
     (let nz = nz\<lparr>
            nz_pausedFileCount := 0, nz_remainingParCount := 0, nz_remainingSize := 0, nz_pausedSize := 0,
            nz_currentSuccessArticles := nz_successArticles nz,
            nz_currentFailedArticles := nz_failedArticles nz,
            nz_currentSuccessSize := nz_successSize nz,
            nz_currentFailedSize := nz_failedSize nz,
            nz_parCurrentSuccessSize := nz_parSuccessSize nz,
            nz_parCurrentFailedSize := nz_parFailedSize nz,
            nz_extraPriority := 0,
            nz_currentServerStats := list_op (nz_serverStats nz) soSet (nz_currentServerStats nz)\<rparr>
      in foldl (\<lambda>nz fi. add_current_file fi nz) nz (nz_fileList nz))"

definition update_completed_stats :: "file_info \<Rightarrow> nzb_info \<Rightarrow> nzb_info" where
  "update_completed_stats fi nz =
     (let nz = nz\<lparr>
            nz_successSize := nz_successSize nz + fi_successSize fi,
            nz_failedSize := nz_failedSize nz + fi_failedSize fi,
            nz_failedArticles := nz_failedArticles nz + fi_failedArticles fi,
            nz_successArticles := nz_successArticles nz + fi_successArticles fi,
            nz_extraPriority := nz_extraPriority nz - of_flag (fi_extraPriority fi)\<rparr>;
          nz = (if fi_parFile fi
                then nz\<lparr>nz_parSuccessSize := nz_parSuccessSize nz + fi_successSize fi,
                        nz_parFailedSize := nz_parFailedSize nz + fi_failedSize fi,
                        nz_remainingParCount := nz_remainingParCount nz - 1\<rparr> else nz);
          nz = (if fi_paused fi then nz\<lparr>nz_pausedFileCount := nz_pausedFileCount nz - 1\<rparr> else nz)
      in nz\<lparr>nz_serverStats := list_op (fi_serverStats fi) soAdd (nz_serverStats nz)\<rparr>)"

definition update_deleted_stats :: "file_info \<Rightarrow> nzb_info \<Rightarrow> nzb_info" where
  "update_deleted_stats fi nz =
     (let nz = nz\<lparr>
            nz_fileCount := nz_fileCount nz - 1,
            nz_size := nz_size nz - fi_size fi,
            nz_currentSuccessSize := nz_currentSuccessSize nz - fi_successSize fi,
            nz_failedSize := nz_failedSize nz - fi_missedSize fi,
            nz_failedArticles := nz_failedArticles nz - fi_missedArticles fi,
            nz_currentFailedSize := nz_currentFailedSize nz - (fi_failedSize fi + fi_missedSize fi),
            nz_totalArticles := nz_totalArticles nz - fi_totalArticles fi,
            nz_currentSuccessArticles := nz_currentSuccessArticles nz - fi_successArticles fi,
            nz_currentFailedArticles :=
              nz_currentFailedArticles nz - (fi_failedArticles fi + fi_missedArticles fi),
            nz_remainingSize := nz_remainingSize nz - fi_remainingSize fi,
            nz_extraPriority := nz_extraPriority nz - of_flag (fi_extraPriority fi)\<rparr>;
          nz = (if fi_parFile fi
                then nz\<lparr>nz_remainingParCount := nz_remainingParCount nz - 1,
                        nz_parSize := nz_parSize nz - fi_size fi,
                        nz_parCurrentSuccessSize := nz_parCurrentSuccessSize nz - fi_successSize fi,
                        nz_parFailedSize := nz_parFailedSize nz - fi_missedSize fi,
                        nz_parCurrentFailedSize :=
                          nz_parCurrentFailedSize nz - (fi_failedSize fi + fi_missedSize fi)\<rparr> else nz);
          nz = (if fi_paused fi
                then nz\<lparr>nz_pausedFileCount := nz_pausedFileCount nz - 1,
                        nz_pausedSize := nz_pausedSize nz - fi_remainingSize fi\<rparr> else nz)
      in nz\<lparr>nz_currentServerStats := list_op (fi_serverStats fi) soSubtract (nz_currentServerStats nz)\<rparr>)"

text \<open>\<open>MoveFileList\<close>: the destination; the source keeps an empty list.\<close>

definition move_file_list :: "nzb_info \<Rightarrow> nzb_info \<Rightarrow> nzb_info" where
  "move_file_list src nz = nz\<lparr>
     nz_fileList := nz_fileList src,
     nz_fullContentHash := nz_fullContentHash src,
     nz_filteredContentHash := nz_filteredContentHash src,
     nz_fileCount := nz_fileCount src,
     nz_pausedFileCount := nz_pausedFileCount src,
     nz_remainingParCount := nz_remainingParCount src,
     nz_size := nz_size src,
     nz_remainingSize := nz_remainingSize src,
     nz_pausedSize := nz_pausedSize src,
     nz_successSize := nz_successSize src,
     nz_currentSuccessSize := nz_currentSuccessSize src,
     nz_failedSize := nz_failedSize src,
     nz_currentFailedSize := nz_currentFailedSize src,
     nz_parSize := nz_parSize src,
     nz_parSuccessSize := nz_parSuccessSize src,
     nz_parCurrentSuccessSize := nz_parCurrentSuccessSize src,
     nz_parFailedSize := nz_parFailedSize src,
     nz_parCurrentFailedSize := nz_parCurrentFailedSize src,
     nz_totalArticles := nz_totalArticles src,
     nz_successArticles := nz_successArticles src,
     nz_failedArticles := nz_failedArticles src,
     nz_currentSuccessArticles := nz_successArticles src,
     nz_currentFailedArticles := nz_failedArticles src,
     nz_minTime := nz_minTime src,
     nz_maxTime := nz_maxTime src\<rparr>"

definition is_download_completed :: "bool \<Rightarrow> nzb_info \<Rightarrow> bool" where
  "is_download_completed ignorePausedPars nz \<longleftrightarrow>
     nz_activeDownloads nz = 0 \<and>
     list_all (\<lambda>fi. \<not> ((\<not> fi_paused fi \<or> \<not> ignorePausedPars \<or> \<not> fi_parFile fi) \<and> \<not> fi_deleted fi))
       (nz_fileList nz)"

section \<open>Times\<close>

definition min_max_step :: "file_info \<Rightarrow> (int \<times> int \<times> bool) \<Rightarrow> int \<times> int \<times> bool" where
  "min_max_step fi s =
     (case s of (mn, mx, first) \<Rightarrow>
        (let t = fi_time fi;
             (mn, mx) = (if first then (t, t) else (mn, mx))
         in if t > 0 then (if t < mn then t else mn, if t > mx then t else mx, False) else (mn, mx, False)))"

definition update_min_max_time :: "nzb_info \<Rightarrow> nzb_info" where
  "update_min_max_time nz =
     (case foldl (\<lambda>s fi. min_max_step fi s) (0, 0, True) (nz_fileList nz) of
        (mn, mx, _) \<Rightarrow> nz\<lparr>nz_minTime := mn, nz_maxTime := mx\<rparr>)"

text \<open>\<open>SetActiveDownloads\<close> at the time \<open>now\<close>.\<close>

definition nz_set_active_downloads :: "int \<Rightarrow> int \<Rightarrow> nzb_info \<Rightarrow> nzb_info" where
  "nz_set_active_downloads now n nz =
     (let nz =
        (if ((nz_activeDownloads nz = 0 \<and> n > 0) \<or> (nz_activeDownloads nz > 0 \<and> n = 0)) \<and> nz_kind nz = nkNzb then
           if n > 0 then nz\<lparr>nz_downloadStartTime := now, nz_downloadStartSec := nz_downloadSec nz\<rparr>
           else nz\<lparr>nz_downloadSec := nz_downloadStartSec nz + (now - nz_downloadStartTime nz),
                   nz_downloadStartTime := 0, nz_changed := True\<rparr>
         else if n > 0 then
           nz\<lparr>nz_downloadSec := nz_downloadStartSec nz + (now - nz_downloadStartTime nz), nz_changed := True\<rparr>
         else nz)
      in nz\<lparr>nz_activeDownloads := n\<rparr>)"

section \<open>Health and status\<close>

definition calc_health :: "nzb_info \<Rightarrow> int" where
  "calc_health nz =
     (if nz_currentFailedSize nz = 0 \<or> nz_size nz = nz_parSize nz then 1000
      else
        (let health = cdiv ((nz_size nz - nz_parSize nz -
                 (nz_currentFailedSize nz - nz_parCurrentFailedSize nz)) * 1000)
               (nz_size nz - nz_parSize nz)
         in if health = 1000 \<and> nz_currentFailedSize nz - nz_parCurrentFailedSize nz > 0 then 999 else health))"

definition calc_critical_health :: "bool \<Rightarrow> nzb_info \<Rightarrow> int" where
  "calc_critical_health allowEstimation nz =
     (if nz_size nz = 0 then 1000
      else if nz_size nz = nz_parSize nz then 0
      else
        (let goodParSize = nz_parSize nz - nz_parCurrentFailedSize nz;
             criticalHealth = cdiv ((nz_size nz - goodParSize * 2) * 1000) (nz_size nz - goodParSize);
             criticalHealth =
               (if goodParSize * 2 > nz_size nz then 0
                else if criticalHealth = 1000 \<and> nz_parSize nz > 0 then 999 else criticalHealth)
         in if criticalHealth = 1000 \<and> allowEstimation then 850 else criticalHealth))"

definition is_dupe_success :: "nzb_info \<Rightarrow> bool" where
  "is_dupe_success nz =
     (let failure =
        nz_markStatus nz \<noteq> ksSuccess \<and> nz_markStatus nz \<noteq> ksGood \<and>
        (nz_deleteStatus nz \<noteq> dsNone \<or> nz_markStatus nz = ksBad \<or> nz_parStatus nz = psFailure \<or>
         nz_unpackStatus nz = usFailure \<or> nz_unpackStatus nz = usPassword \<or>
         nz_urlStatus nz = lsFailed \<or> nz_urlStatus nz = lsScanSkipped \<or> nz_urlStatus nz = lsScanFailed \<or>
         (nz_parStatus nz = psSkipped \<and> nz_unpackStatus nz = usSkipped \<and>
          calc_health nz < calc_critical_health True nz))
      in \<not> failure)"

definition par_undone :: "nzb_info \<Rightarrow> bool" where
  "par_undone nz \<longleftrightarrow> (nz_parStatus nz = psNone \<or> nz_parStatus nz = psSkipped) \<and>
     (nz_unpackStatus nz = usNone \<or> nz_unpackStatus nz = usSkipped)"

definition make_text_status :: "bool \<Rightarrow> nzb_info \<Rightarrow> cstring" where
  "make_text_status ignoreScriptStatus nz =
     (if nz_kind nz = nkNzb then
        (let health = calc_health nz;
             criticalHealth = calc_critical_health False nz;
             scriptStatus = (if ignoreScriptStatus then srSuccess else calc_total_status (nz_scriptStatuses nz))
         in if nz_markStatus nz = ksBad then ''FAILURE/BAD''
            else if nz_markStatus nz = ksGood then ''SUCCESS/GOOD''
            else if nz_markStatus nz = ksSuccess then ''SUCCESS/MARK''
            else if nz_deleteStatus nz = dsHealth then ''FAILURE/HEALTH''
            else if nz_deleteStatus nz = dsManual then ''DELETED/MANUAL''
            else if nz_deleteStatus nz = dsDupe then ''DELETED/DUPE''
            else if nz_deleteStatus nz = dsBad then ''FAILURE/BAD''
            else if nz_deleteStatus nz = dsGood then ''DELETED/GOOD''
            else if nz_deleteStatus nz = dsCopy then ''DELETED/COPY''
            else if nz_deleteStatus nz = dsScan then ''FAILURE/SCAN''
            else if nz_parStatus nz = psFailure then ''FAILURE/PAR''
            else if nz_unpackStatus nz = usFailure then ''FAILURE/UNPACK''
            else if nz_moveStatus nz = msFailure then ''FAILURE/MOVE''
            else if nz_parStatus nz = psManual then ''WARNING/DAMAGED''
            else if nz_parStatus nz = psRepairPossible then ''WARNING/REPAIRABLE''
            else if par_undone nz \<and> health < criticalHealth then ''FAILURE/HEALTH''
            else if par_undone nz \<and> health < 1000 \<and> health \<ge> criticalHealth then ''WARNING/HEALTH''
            else if par_undone nz \<and> scriptStatus \<noteq> srFailure \<and> health = 1000 then ''SUCCESS/HEALTH''
            else if nz_unpackStatus nz = usSpace then ''WARNING/SPACE''
            else if nz_unpackStatus nz = usPassword then ''WARNING/PASSWORD''
            else if (nz_unpackStatus nz = usSuccess \<or>
                     ((nz_unpackStatus nz = usNone \<or> nz_unpackStatus nz = usSkipped) \<and>
                      nz_parStatus nz = psSuccess)) \<and> scriptStatus = srSuccess then ''SUCCESS/ALL''
            else if nz_unpackStatus nz = usSuccess \<and> scriptStatus = srNone then ''SUCCESS/UNPACK''
            else if nz_parStatus nz = psSuccess \<and> scriptStatus = srNone then ''SUCCESS/PAR''
            else if scriptStatus = srFailure then ''WARNING/SCRIPT''
            else ''FAILURE/INTERNAL_ERROR'')
      else
        (if nz_deleteStatus nz = dsManual then ''DELETED/MANUAL''
         else if nz_deleteStatus nz = dsDupe then ''DELETED/DUPE''
         else if nz_deleteStatus nz = dsGood then ''DELETED/GOOD''
         else case nz_urlStatus nz of
             lsFailed \<Rightarrow> ''FAILURE/FETCH''
           | lsScanSkipped \<Rightarrow> ''WARNING/SKIPPED''
           | lsScanFailed \<Rightarrow> ''FAILURE/SCAN''
           | _ \<Rightarrow> ''FAILURE/INTERNAL_ERROR''))"

section \<open>Messages\<close>

text \<open>
  \<open>AddMessage\<close> at the time \<open>now\<close>, without the print; the options are the flag that messages are
  also written to disk and the size of the buffer.
\<close>

definition add_message :: "bool \<Rightarrow> nat \<Rightarrow> int \<Rightarrow> nat \<Rightarrow> cstring \<Rightarrow> nzb_info \<Rightarrow> nzb_info" where
  "add_message toDisk logBuffer now kind text nz =
     (let n = nz_idMessageGen nz + 1;
          msgs = nz_messages nz @ [\<lparr>msg_id = n, msg_kind = kind, msg_time = now, msg_text = text\<rparr>];
          nz = nz\<lparr>nz_idMessageGen := n\<rparr>;
          nz = (if toDisk then nz\<lparr>nz_messageCount := nz_messageCount nz + 1\<rparr> else nz);
          msgs = drop (length msgs - logBuffer) msgs
      in nz\<lparr>nz_messages := msgs, nz_cachedMessageCount := int (length msgs)\<rparr>)"

definition clear_messages :: "nzb_info \<Rightarrow> nzb_info" where
  "clear_messages nz = nz\<lparr>nz_messages := [], nz_cachedMessageCount := 0\<rparr>"

section \<open>The queue\<close>

text \<open>\<open>DownloadQueue::CalcRemainingSize\<close>: the remaining size, and that of forced downloads.\<close>

definition remaining_step :: "nzb_info \<Rightarrow> file_info \<Rightarrow> int \<times> int \<Rightarrow> int \<times> int" where
  "remaining_step nz fi s =
     (case s of (rem, forced) \<Rightarrow>
        if \<not> fi_paused fi \<and> \<not> fi_deleted fi
        then (rem + fi_remainingSize fi,
              if get_force_priority nz then forced + fi_remainingSize fi else forced)
        else (rem, forced))"

definition calc_remaining_size :: "nzb_info list \<Rightarrow> int \<times> int" where
  "calc_remaining_size queue =
     foldl (\<lambda>s nz. foldl (\<lambda>s fi. remaining_step nz fi s) s (nz_fileList nz)) (0, 0) queue"

end
