(* ===== verification/NzbTotals.thy ===== *)
theory NzbTotals
  imports NzbInfo
begin

text \<open>
  The counters a download keeps beside its file list (\<open>daemon/queue/DownloadInfo.cpp\<close>): one
  invariant for all of them, established by \<open>UpdateCurrentStats\<close> and kept when files leave the
  list or change their flags.
\<close>

section \<open>The counters as running totals\<close>

text \<open>
  Every current counter of a download is the sum of a base, which counts the files that have left
  the list, and of the shares of the files in the list. The counters are named by a datatype, so
  that the invariant and its preservation are stated once for all of them.
\<close>

datatype counter = cRemaining | cPausedFiles | cPausedSize | cParFiles | cExtra
  | cSuccessArticles | cFailedArticles | cSuccessSize | cFailedSize | cParSuccessSize | cParFailedSize
  | cServerSuccess int | cServerFailed int

fun current :: "nzb_info \<Rightarrow> counter \<Rightarrow> int" where
  "current nz cRemaining = nz_remainingSize nz"
| "current nz cPausedFiles = nz_pausedFileCount nz"
| "current nz cPausedSize = nz_pausedSize nz"
| "current nz cParFiles = nz_remainingParCount nz"
| "current nz cExtra = nz_extraPriority nz"
| "current nz cSuccessArticles = nz_currentSuccessArticles nz"
| "current nz cFailedArticles = nz_currentFailedArticles nz"
| "current nz cSuccessSize = nz_currentSuccessSize nz"
| "current nz cFailedSize = nz_currentFailedSize nz"
| "current nz cParSuccessSize = nz_parCurrentSuccessSize nz"
| "current nz cParFailedSize = nz_parCurrentFailedSize nz"
| "current nz (cServerSuccess k) = fst (stat_of (nz_currentServerStats nz) k)"
| "current nz (cServerFailed k) = snd (stat_of (nz_currentServerStats nz) k)"

fun settled :: "nzb_info \<Rightarrow> counter \<Rightarrow> int" where
  "settled nz cSuccessArticles = nz_successArticles nz"
| "settled nz cFailedArticles = nz_failedArticles nz"
| "settled nz cSuccessSize = nz_successSize nz"
| "settled nz cFailedSize = nz_failedSize nz"
| "settled nz cParSuccessSize = nz_parSuccessSize nz"
| "settled nz cParFailedSize = nz_parFailedSize nz"
| "settled nz (cServerSuccess k) = fst (stat_of (nz_serverStats nz) k)"
| "settled nz (cServerFailed k) = snd (stat_of (nz_serverStats nz) k)"
| "settled nz _ = 0"

fun share :: "counter \<Rightarrow> file_info \<Rightarrow> int" where
  "share cRemaining fi = fi_remainingSize fi"
| "share cPausedFiles fi = of_flag (fi_paused fi)"
| "share cPausedSize fi = (if fi_paused fi then fi_remainingSize fi else 0)"
| "share cParFiles fi = of_flag (fi_parFile fi)"
| "share cExtra fi = of_flag (fi_extraPriority fi)"
| "share cSuccessArticles fi = fi_successArticles fi"
| "share cFailedArticles fi = fi_failedArticles fi"
| "share cSuccessSize fi = fi_successSize fi"
| "share cFailedSize fi = fi_failedSize fi"
| "share cParSuccessSize fi = (if fi_parFile fi then fi_successSize fi else 0)"
| "share cParFailedSize fi = (if fi_parFile fi then fi_failedSize fi else 0)"
| "share (cServerSuccess k) fi = fst (stat_total (fi_serverStats fi) k)"
| "share (cServerFailed k) fi = snd (stat_total (fi_serverStats fi) k)"

text \<open>The contract of a container with running totals, and what follows for its operations.\<close>

locale running_totals =
  fixes cur base :: "'s \<Rightarrow> 'c \<Rightarrow> int" and items :: "'s \<Rightarrow> 'f list" and per :: "'c \<Rightarrow> 'f \<Rightarrow> int"
    and set_items :: "'f list \<Rightarrow> 's \<Rightarrow> 's"
  assumes items_set: "items (set_items fs s) = fs"
    and cur_set: "cur (set_items fs s) = cur s"
    and base_set: "base (set_items fs s) = base s"
begin

lemma removed:
  assumes "\<forall>c. cur s c = base s c + sum_list (map (per c) (items s))" "items s = xs @ x # ys"
    and "\<forall>c. cur s' c - base s' c = cur s c - base s c - per c x"
  shows "cur (set_items (xs @ ys) s') c = base (set_items (xs @ ys) s') c +
    sum_list (map (per c) (items (set_items (xs @ ys) s')))"
  using spec [OF assms(1), of c] spec [OF assms(3), of c] assms(2)
  by (simp add: items_set cur_set base_set)

lemma replaced:
  assumes "\<forall>c. cur s c = base s c + sum_list (map (per c) (items s))" "i < length (items s)"
    and "\<forall>c. cur s' c - base s' c = cur s c - base s c - per c (items s ! i) + per c y"
  shows "cur (set_items ((items s)[i := y]) s') c = base (set_items ((items s)[i := y]) s') c +
    sum_list (map (per c) (items (set_items ((items s)[i := y]) s')))"
  using spec [OF assms(1), of c] spec [OF assms(3), of c] sum_list_update_int [OF assms(2), of "per c" y]
  by (simp add: items_set cur_set base_set)

end

definition set_file_list :: "file_info list \<Rightarrow> nzb_info \<Rightarrow> nzb_info" where
  "set_file_list fs nz = nz\<lparr>nz_fileList := fs\<rparr>"

lemma current_set_file_list [simp]: "current (set_file_list fs nz) = current nz"
proof
  show "current (set_file_list fs nz) c = current nz c" for c by (cases c) (simp_all add: set_file_list_def)
qed

lemma settled_set_file_list [simp]: "settled (set_file_list fs nz) = settled nz"
proof
  show "settled (set_file_list fs nz) c = settled nz c" for c by (cases c) (simp_all add: set_file_list_def)
qed

lemma files_set_file_list [simp]: "nz_fileList (set_file_list fs nz) = fs"
  by (simp add: set_file_list_def)

interpretation nzb: running_totals current settled nz_fileList share set_file_list
  by unfold_locales simp_all

definition totals_ok :: "nzb_info \<Rightarrow> bool" where
  "totals_ok nz \<longleftrightarrow> (\<forall>c. current nz c = settled nz c + sum_list (map (share c) (nz_fileList nz)))"

subsection \<open>Recomputing the counters\<close>

lemma add_current_file_simps [simp]:
  "nz_fileList (add_current_file fi nz) = nz_fileList nz"
  "settled (add_current_file fi nz) c = settled nz c"
  "current (add_current_file fi nz) c = current nz c + share c fi"
  by (cases c; simp add: add_current_file_def Let_def stat_of_list_op)+

lemma foldl_add_current_file:
  "nz_fileList (foldl (\<lambda>nz fi. add_current_file fi nz) nz fs) = nz_fileList nz"
  "settled (foldl (\<lambda>nz fi. add_current_file fi nz) nz fs) c = settled nz c"
  "current (foldl (\<lambda>nz fi. add_current_file fi nz) nz fs) c = current nz c + sum_list (map (share c) fs)"
  by (induction fs arbitrary: nz) simp_all

text \<open>\<open>UpdateCurrentStats\<close> establishes the counter invariant: afterwards each current counter of the
  download (remaining, paused, par, priority, success, failure and per-server counts) is the
  settled count plus the sum over the files in the list. It needs that a server without settled
  statistics has no left-over current entry, which the code does not clear.\<close>

theorem update_current_stats_correct:
  assumes "distinct (map ss_server (nz_serverStats nz))"
    and "\<forall>k. k \<notin> set (map ss_server (nz_serverStats nz)) \<longrightarrow> stat_of (nz_currentServerStats nz) k = (0, 0)"
  shows "totals_ok (update_current_stats nz)"
proof -
  let ?nz = "nz\<lparr>nz_pausedFileCount := 0, nz_remainingParCount := 0, nz_remainingSize := 0, nz_pausedSize := 0,
            nz_currentSuccessArticles := nz_successArticles nz,
            nz_currentFailedArticles := nz_failedArticles nz,
            nz_currentSuccessSize := nz_successSize nz,
            nz_currentFailedSize := nz_failedSize nz,
            nz_parCurrentSuccessSize := nz_parSuccessSize nz,
            nz_parCurrentFailedSize := nz_parFailedSize nz,
            nz_extraPriority := 0,
            nz_currentServerStats := list_op (nz_serverStats nz) soSet (nz_currentServerStats nz)\<rparr>"
  have none: "k \<notin> set (map ss_server xs) \<Longrightarrow> stat_of xs k = (0, 0)" for xs k by (induction xs) auto
  then have "stat_of (list_op (nz_serverStats nz) soSet (nz_currentServerStats nz)) k = stat_of (nz_serverStats nz) k" for k
    using assms(2) by (simp add: stat_of_list_set [OF assms(1)])
  then have "current ?nz c = settled ?nz c" for c by (cases c) simp_all
  then show ?thesis
    by (simp add: totals_ok_def update_current_stats_def Let_def foldl_add_current_file)
qed

subsection \<open>Files leaving the list\<close>

text \<open>A file leaves the list as \<open>DeleteFileInfo\<close> of the queue coordinator does it: the statistics
  first, then the file is removed.\<close>

definition file_leaves :: "bool \<Rightarrow> nat \<Rightarrow> nzb_info \<Rightarrow> nzb_info" where
  "file_leaves completed i nz =
     (let fi = (nz_fileList nz ! i)\<lparr>fi_deleted := True\<rparr>;
          nz = (if completed \<or> nz_deleting nz then update_completed_stats fi nz else update_deleted_stats fi nz)
      in set_file_list (take i (nz_fileList nz) @ drop (Suc i) (nz_fileList nz)) nz)"

lemma update_stats_files [simp]:
  "nz_fileList (update_completed_stats fi nz) = nz_fileList nz"
  "nz_fileList (update_deleted_stats fi nz) = nz_fileList nz"
  by (simp_all add: update_completed_stats_def update_deleted_stats_def Let_def)

lemma share_deleted [simp]: "share c (fi\<lparr>fi_deleted := b\<rparr>) = share c fi"
  by (cases c) simp_all

lemma update_completed_diff:
  "fi_remainingSize fi = 0 \<Longrightarrow>
   current (update_completed_stats fi nz) c - settled (update_completed_stats fi nz) c =
     current nz c - settled nz c - share c fi"
  by (cases c) (simp_all add: update_completed_stats_def Let_def stat_of_list_op)

lemma update_deleted_diff:
  "current (update_deleted_stats fi nz) c - settled (update_deleted_stats fi nz) c =
     current nz c - settled nz c - share c fi"
  by (cases c) (simp_all add: update_deleted_stats_def Let_def stat_of_list_op)

text \<open>When a file leaves the download, completed (with nothing remaining) or deleted, the counter
  invariant holds for the remaining files.\<close>

theorem file_leaves_keeps_totals:
  assumes "totals_ok nz" "i < length (nz_fileList nz)"
    and "completed \<or> nz_deleting nz \<Longrightarrow> fi_remainingSize (nz_fileList nz ! i) = 0"
  shows "totals_ok (file_leaves completed i nz)"
proof -
  let ?fi = "(nz_fileList nz ! i)\<lparr>fi_deleted := True\<rparr>"
  let ?nz = "if completed \<or> nz_deleting nz then update_completed_stats ?fi nz else update_deleted_stats ?fi nz"
  have split: "nz_fileList nz = take i (nz_fileList nz) @ nz_fileList nz ! i # drop (Suc i) (nz_fileList nz)"
    using assms(2) by (simp add: id_take_nth_drop)
  have "\<forall>c. current ?nz c - settled ?nz c = current nz c - settled nz c - share c (nz_fileList nz ! i)"
    using assms(3) update_completed_diff [of ?fi nz] update_deleted_diff [of ?fi nz] by simp
  from nzb.removed [OF assms(1) [unfolded totals_ok_def] split this]
  show ?thesis by (simp add: totals_ok_def file_leaves_def Let_def split: if_splits)
qed

subsection \<open>Files changing in the list\<close>

definition nz_file_set_paused :: "bool \<Rightarrow> nat \<Rightarrow> nzb_info \<Rightarrow> nzb_info" where
  "nz_file_set_paused paused i nz =
     (case file_set_paused paused (nz_fileList nz ! i) nz of
        (fi, nz1) \<Rightarrow> set_file_list ((nz_fileList nz)[i := fi]) nz1)"

definition nz_file_set_extra_priority :: "bool \<Rightarrow> nat \<Rightarrow> nzb_info \<Rightarrow> nzb_info" where
  "nz_file_set_extra_priority extra i nz =
     (case file_set_extra_priority extra (nz_fileList nz ! i) nz of
        (fi, nz1) \<Rightarrow> set_file_list ((nz_fileList nz)[i := fi]) nz1)"

lemma file_set_paused_diff:
  "file_set_paused b fi nz = (fi', nz') \<Longrightarrow>
   current nz' c - settled nz' c = current nz c - settled nz c - share c fi + share c fi'"
  by (cases c) (auto simp: file_set_paused_def split: if_splits)

lemma file_set_extra_priority_diff:
  "file_set_extra_priority b fi nz = (fi', nz') \<Longrightarrow>
   current nz' c - settled nz' c = current nz c - settled nz c - share c fi + share c fi'"
  by (cases c) (auto simp: file_set_extra_priority_def split: if_splits)

text \<open>Pausing and resuming a file and changing its extra priority keep the counter invariant.\<close>

theorem file_flags_keep_totals:
  assumes "totals_ok nz" "i < length (nz_fileList nz)"
  shows "totals_ok (nz_file_set_paused b i nz) \<and> totals_ok (nz_file_set_extra_priority b i nz)"
proof -
  obtain f1 n1 where 1: "file_set_paused b (nz_fileList nz ! i) nz = (f1, n1)" by fastforce
  obtain f2 n2 where 2: "file_set_extra_priority b (nz_fileList nz ! i) nz = (f2, n2)" by fastforce
  from nzb.replaced [OF assms(1) [unfolded totals_ok_def] assms(2), of n1 f1] file_set_paused_diff [OF 1]
    nzb.replaced [OF assms(1) [unfolded totals_ok_def] assms(2), of n2 f2] file_set_extra_priority_diff [OF 2]
  show ?thesis
    by (simp add: totals_ok_def nz_file_set_paused_def nz_file_set_extra_priority_def 1 2)
qed

end
