(* ===== verification/NzbHealth.thy ===== *)
theory NzbHealth
  imports NzbTotals
begin

text \<open>
  What the fields of a download mean (\<open>daemon/queue/DownloadInfo.cpp\<close>): identifiers, health and
  critical health, download time, the status text, the message buffer, times and queue totals.
\<close>

section \<open>Identifiers are fresh\<close>

lemma register_ids_max:
  "ig_max g \<le> ig_max (foldl (\<lambda>g i. register_id i g) g ids) \<and>
   (\<forall>i \<in> set ids. i \<le> ig_max (foldl (\<lambda>g i. register_id i g) g ids))"
proof (induction ids arbitrary: g)
  case (Cons i ids)
  have "ig_max g \<le> ig_max (register_id i g)" "i \<le> ig_max (register_id i g)"
    by (simp_all add: register_id_def)
  with Cons.IH [of "register_id i g"] show ?case by force
qed simp

lemma generate_ids_list: "generate_ids n g = (g\<lparr>ig_gen := ig_gen g + int n\<rparr>, map (\<lambda>k. ig_gen g + 1 + int k) [0..<n])"
proof (induction n arbitrary: g)
  case (Suc n)
  have "map (\<lambda>k. ig_gen g + 1 + int k) [0..<Suc n] = (ig_gen g + 1) # map (\<lambda>k. ig_gen g + 2 + int k) [0..<n]"
    by (simp only: upt_conv_Cons [OF zero_less_Suc] map_Suc_upt [symmetric] list.map map_map)
      (simp add: comp_def add.commute add.left_commute)
  with Suc show ?case by (simp add: generate_id_def add.commute add.left_commute del: upt_Suc)
qed simp

text \<open>After the queue has been loaded, with every loaded identifier registered and the generator set
  to the maximum, all identifiers generated from then on are new and different from each other.\<close>

theorem generated_ids_fresh:
  assumes "g1 = reset_gen_id True (foldl (\<lambda>g i. register_id i g) g0 loaded)"
  shows "distinct (snd (generate_ids n g1)) \<and> set (snd (generate_ids n g1)) \<inter> set loaded = {}"
proof
  show "distinct (snd (generate_ids n g1))"
    by (auto simp: generate_ids_list distinct_map inj_on_def)
  have "\<forall>i \<in> set loaded. i \<le> ig_gen g1" using register_ids_max [of g0 loaded] assms by (simp add: reset_gen_id_def)
  then show "set (snd (generate_ids n g1)) \<inter> set loaded = {}" by (force simp: generate_ids_list)
qed

theorem generated_ids_fresh_witness:
  "set (snd (generate_ids 2 (reset_gen_id True (foldl (\<lambda>g i. register_id i g) \<lparr>ig_gen = 0, ig_max = 0\<rparr> [3, 7])))) \<inter>
     set [3, 7] = {}"
  using generated_ids_fresh [OF refl, of 2 "\<lparr>ig_gen = 0, ig_max = 0\<rparr>" "[3, 7]"] by blast

section \<open>Health\<close>

text \<open>The sizes of a download as the coordinator maintains them.\<close>

definition sizes_ok :: "nzb_info \<Rightarrow> bool" where
  "sizes_ok nz \<longleftrightarrow> 0 \<le> nz_parSize nz \<and> nz_parSize nz \<le> nz_size nz \<and>
     0 \<le> nz_parCurrentFailedSize nz \<and> nz_parCurrentFailedSize nz \<le> nz_parSize nz \<and>
     nz_parCurrentFailedSize nz \<le> nz_currentFailedSize nz \<and>
     nz_currentFailedSize nz - nz_parCurrentFailedSize nz \<le> nz_size nz - nz_parSize nz"

lemma ratio_bounds:
  fixes a b :: int
  assumes "0 \<le> a" "a \<le> b" "0 < b"
  shows "0 \<le> cdiv (a * 1000) b" "cdiv (a * 1000) b \<le> 1000" "cdiv (a * 1000) b = a * 1000 div b"
proof -
  show e: "cdiv (a * 1000) b = a * 1000 div b" using assms by (simp add: cdiv_nonneg)
  show "0 \<le> cdiv (a * 1000) b" using assms e by (simp add: pos_imp_zdiv_nonneg_iff)
  have "a * 1000 div b \<le> b * 1000 div b" using assms by (intro zdiv_mono1) auto
  then show "cdiv (a * 1000) b \<le> 1000" using e assms by simp
qed

text \<open>Health is a per-mille value, and it is 1000 exactly when nothing but par-files has failed
  (or there is nothing else).\<close>

theorem calc_health_bounds:
  assumes "sizes_ok nz"
  shows "0 \<le> calc_health nz \<and> calc_health nz \<le> 1000 \<and>
    (calc_health nz = 1000 \<longleftrightarrow> nz_size nz = nz_parSize nz \<or> nz_currentFailedSize nz = nz_parCurrentFailedSize nz)"
proof (cases "nz_currentFailedSize nz = 0 \<or> nz_size nz = nz_parSize nz")
  case True
  then have "calc_health nz = 1000" by (auto simp: calc_health_def)
  moreover have "nz_currentFailedSize nz = 0 \<Longrightarrow> nz_parCurrentFailedSize nz = 0"
    using assms by (simp add: sizes_ok_def)
  ultimately show ?thesis using True by auto
next
  case False
  define b where "b = nz_size nz - nz_parSize nz"
  define f where "f = nz_currentFailedSize nz - nz_parCurrentFailedSize nz"
  have v: "0 < b" "0 \<le> b - f" "b - f \<le> b" "0 \<le> f" using assms False by (auto simp: sizes_ok_def b_def f_def)
  note r = ratio_bounds [OF v(2,3,1)]
  have h: "calc_health nz = (if cdiv ((b - f) * 1000) b = 1000 \<and> f > 0 then 999 else cdiv ((b - f) * 1000) b)"
    using False by (simp add: calc_health_def Let_def b_def f_def)
  have "cdiv (b * 1000) b = 1000" using v ratio_bounds(3) [of b b] by simp
  then have "f = 0 \<Longrightarrow> calc_health nz = 1000" using h by simp
  moreover have "f = 0 \<longleftrightarrow> nz_currentFailedSize nz = nz_parCurrentFailedSize nz" by (auto simp: f_def)
  moreover have "nz_size nz \<noteq> nz_parSize nz" using False by simp
  ultimately show ?thesis using h r(1,2) v by (auto split: if_splits)
qed

lemma calc_critical_health_bounds:
  assumes "sizes_ok nz"
  shows "0 \<le> calc_critical_health e nz \<and> calc_critical_health e nz \<le> 1000"
proof -
  define g where "g = nz_parSize nz - nz_parCurrentFailedSize nz"
  have "0 \<le> g" "g \<le> nz_parSize nz" using assms by (auto simp: sizes_ok_def g_def)
  then have "nz_size nz \<noteq> nz_parSize nz \<Longrightarrow> g * 2 \<le> nz_size nz \<Longrightarrow>
      0 \<le> cdiv ((nz_size nz - g * 2) * 1000) (nz_size nz - g) \<and>
      cdiv ((nz_size nz - g * 2) * 1000) (nz_size nz - g) \<le> 1000"
    using ratio_bounds [of "nz_size nz - g * 2" "nz_size nz - g"] assms by (simp add: sizes_ok_def)
  then show ?thesis
    by (auto simp: calc_critical_health_def Let_def g_def [symmetric])
qed

text \<open>The health check lets a repairable download go on: as long as no par-file has failed and the
  failed data is not more than the par data, health is not below critical health; and beyond that
  it is not above it.\<close>

theorem critical_health_means_repairable:
  assumes "sizes_ok nz" "nz_parCurrentFailedSize nz = 0" "nz_parSize nz < nz_size nz"
  shows "(nz_currentFailedSize nz \<le> nz_parSize nz \<longrightarrow> calc_critical_health False nz \<le> calc_health nz) \<and>
    (nz_currentFailedSize nz > nz_parSize nz \<longrightarrow> calc_health nz \<le> calc_critical_health False nz)"
proof -
  define b where "b = nz_size nz - nz_parSize nz"
  define f where "f = nz_currentFailedSize nz"
  define p where "p = nz_parSize nz"
  have v: "0 < b" "0 \<le> f" "f \<le> b" "0 \<le> p" using assms by (auto simp: sizes_ok_def b_def f_def p_def)
  then have sz: "nz_size nz = b + p" "nz_size nz \<noteq> 0" by (auto simp: b_def p_def)
  have h: "calc_health nz = (if f = 0 then 1000 else if (b - f) * 1000 div b = 1000 \<and> f > 0 then 999 else (b - f) * 1000 div b)"
    using assms(2) v ratio_bounds(3) [of "b - f" b] by (simp add: calc_health_def Let_def sz f_def p_def [symmetric])
  have c: "calc_critical_health False nz = (if p > b then 0
      else if (b - p) * 1000 div b = 1000 \<and> p > 0 then 999 else (b - p) * 1000 div b)"
    using assms(2) v ratio_bounds(3) [of "b - p" b] sz
    by (simp add: calc_critical_health_def Let_def f_def p_def [symmetric] algebra_simps)
  have mono: "x \<le> y \<Longrightarrow> (b - y) * 1000 div b \<le> (b - x) * 1000 div b" for x y
    using v by (intro zdiv_mono1) auto
  have full: "(b - 0) * 1000 div b = 1000" using v by simp
  have le: "(b - p) * 1000 div b \<le> 1000" using mono [of 0 p] v full by simp
  have fpos: "0 \<le> (b - f) * 1000 div b" using v by (simp add: pos_imp_zdiv_nonneg_iff)
  show ?thesis
  proof (intro conjI impI)
    assume "nz_currentFailedSize nz \<le> nz_parSize nz"
    then have "f \<le> p" by (simp add: f_def p_def)
    with mono [of f p] le fpos v show "calc_critical_health False nz \<le> calc_health nz"
      unfolding h c by (auto split: if_splits)
  next
    assume "nz_currentFailedSize nz > nz_parSize nz"
    then have "p < f" by (simp add: f_def p_def)
    with mono [of p f] mono [of 0 f] full v show "calc_health nz \<le> calc_critical_health False nz"
      unfolding h c by (auto split: if_splits)
  qed
qed

text \<open>With failed par-files critical health divides by the size less the good par data instead of the
  size of the data, and comes out too high: here 10 of 50 bytes of data failed and 10 good bytes of
  par data remain to repair them, but health 800 is below critical health 888.\<close>

theorem critical_health_overstated:
  assumes "nz_size nz = 100" "nz_parSize nz = 50" "nz_currentFailedSize nz = 50" "nz_parCurrentFailedSize nz = 40"
  shows "calc_health nz = 800 \<and> calc_critical_health False nz = 888"
  using assms by (simp add: calc_health_def calc_critical_health_def signed_divide_int_def)

section \<open>Download time\<close>

fun active_run :: "(int \<times> int) list \<Rightarrow> nzb_info \<Rightarrow> nzb_info" where
  "active_run [] nz = nz"
| "active_run ((now, n) # evs) nz = active_run evs (nz_set_active_downloads now n nz)"

lemma active_run_between:
  assumes "nz_kind nz = nkNzb" "nz_activeDownloads nz > 0"
    and "nz_downloadSec nz = nz_downloadStartSec nz + (t - nz_downloadStartTime nz)"
    and "\<forall>(now, n) \<in> set evs. n > 0"
  shows "nz_downloadSec (active_run (evs @ [(t1, 0)]) nz) = nz_downloadStartSec nz + (t1 - nz_downloadStartTime nz) \<and>
    nz_activeDownloads (active_run (evs @ [(t1, 0)]) nz) = 0 \<and> nz_kind (active_run (evs @ [(t1, 0)]) nz) = nkNzb"
  using assms
proof (induction evs arbitrary: nz t)
  case Nil
  then show ?case by (simp add: nz_set_active_downloads_def)
next
  case (Cons e evs)
  obtain now n where e: "e = (now, n)" by fastforce
  let ?nz = "nz_set_active_downloads now n nz"
  have "n > 0" using Cons.prems e by auto
  then have "nz_kind ?nz = nkNzb" "nz_activeDownloads ?nz = n" "nz_downloadStartSec ?nz = nz_downloadStartSec nz"
    "nz_downloadStartTime ?nz = nz_downloadStartTime nz"
    "nz_downloadSec ?nz = nz_downloadStartSec nz + (now - nz_downloadStartTime nz)"
    using Cons.prems by (auto simp: nz_set_active_downloads_def Let_def)
  with Cons.IH [of ?nz now] Cons.prems \<open>n > 0\<close> show ?case by (simp add: e)
qed

text \<open>Download time: from the start of the first active article to the end of the last, whatever
  happens to the number of active downloads in between, the download second counter of an NZB
  grows by exactly the time passed.\<close>

theorem download_time_counts_activity:
  assumes "nz_kind nz = nkNzb" "nz_activeDownloads nz = 0" "n > 0" "\<forall>(now, k) \<in> set evs. k > 0"
  shows "nz_downloadSec (active_run ((t0, n) # evs @ [(t1, 0)]) nz) = nz_downloadSec nz + (t1 - t0)"
proof (cases evs)
  case Nil
  then show ?thesis using assms by (simp add: nz_set_active_downloads_def)
next
  case (Cons e es)
  let ?nz = "nz_set_active_downloads t0 n nz"
  have s: "nz_kind ?nz = nkNzb" "nz_activeDownloads ?nz = n" "nz_downloadStartSec ?nz = nz_downloadSec nz"
    "nz_downloadStartTime ?nz = t0" "nz_downloadSec ?nz = nz_downloadSec nz"
    using assms by (auto simp: nz_set_active_downloads_def Let_def)
  then show ?thesis
    using active_run_between [of ?nz t0 evs t1] assms by simp
qed

text \<open>For a URL the start time is never set, and making it active sets its download time to the
  absolute clock.\<close>

theorem url_download_time_is_clock:
  assumes "nz_kind nz = nkUrl" "nz_downloadStartSec nz = 0" "nz_downloadStartTime nz = 0"
  shows "nz_downloadSec (nz_set_active_downloads now 1 nz) = now"
  using assms by (simp add: nz_set_active_downloads_def Let_def)

section \<open>Status\<close>

text \<open>A download shown with a success status counts as a success for the duplicate check, with or
  without the script status; and an NZB never shows an internal error.\<close>

theorem text_status_agrees_with_dupe_status:
  assumes "nz_kind nz = nkNzb" "nz_urlStatus nz \<notin> {lsFailed, lsScanSkipped, lsScanFailed}" "sizes_ok nz"
  shows "(starts_with ''SUCCESS'' (make_text_status ignore nz) \<longrightarrow> is_dupe_success nz) \<and>
    make_text_status ignore nz \<noteq> ''FAILURE/INTERNAL_ERROR''"
proof -
  define sc where "sc = (if ignore then srSuccess else calc_total_status (nz_scriptStatuses nz))"
  have h: "calc_health nz \<le> 1000" "calc_critical_health True nz \<le> 1000"
    using calc_health_bounds calc_critical_health_bounds assms(3) by blast+
  have ne: "sc = srNone \<or> sc = srSuccess \<or> sc = srFailure" by (cases sc) simp_all
  show ?thesis
  proof (cases "nz_markStatus nz = ksNone \<and> nz_deleteStatus nz = dsNone")
    case False
    then show ?thesis
      by (cases "nz_markStatus nz"; cases "nz_deleteStatus nz")
         (simp_all add: make_text_status_def assms(1) is_dupe_success_def Let_def)
  next
    case True
    with assms h ne show ?thesis
      by (cases "nz_parStatus nz"; cases "nz_unpackStatus nz")
         (auto simp: make_text_status_def is_dupe_success_def par_undone_def Let_def simp flip: sc_def)
  qed
qed

section \<open>Examples\<close>

definition example_files :: "file_info list" where
  "example_files =
     [file_init\<lparr>fi_id := 1, fi_size := 100, fi_remainingSize := 60, fi_successSize := 40, fi_successArticles := 4,
                fi_time := 500, fi_serverStats := [\<lparr>ss_server = 1, ss_success = 4, ss_failed = 0\<rparr>]\<rparr>,
      file_init\<lparr>fi_id := 2, fi_size := 30, fi_remainingSize := 0, fi_failedSize := 30, fi_failedArticles := 3,
                fi_time := 400, fi_parFile := True, fi_paused := True\<rparr>]"

definition example_nzb :: nzb_info where
  "example_nzb = nzb_init\<lparr>nz_id := 7, nz_size := 130, nz_parSize := 30, nz_fileList := example_files\<rparr>"

lemma example_stats:
  "nz_serverStats example_nzb = []" "nz_currentServerStats example_nzb = []" "nz_kind example_nzb = nkNzb"
  "nz_urlStatus example_nzb = lsNone" "nz_activeDownloads example_nzb = 0" "nz_downloadSec example_nzb = 0"
  "nz_fileList example_nzb = example_files" "nz_size example_nzb = 130" "nz_parSize example_nzb = 30"
  "nz_currentFailedSize example_nzb = 0" "nz_parCurrentFailedSize example_nzb = 0"
  "nz_deleting example_nzb = False" "nz_messages example_nzb = []" "nz_idMessageGen example_nzb = 0"
  by (simp_all add: example_nzb_def nzb_init_def)

theorem update_current_stats_correct_witness: "totals_ok (update_current_stats example_nzb)"
  by (rule update_current_stats_correct) (simp_all add: example_stats)

lemma example_ok:
  "totals_ok (update_current_stats example_nzb)" "nz_fileList (update_current_stats example_nzb) = example_files"
  "\<not> nz_deleting (update_current_stats example_nzb)"
proof -
  show "nz_fileList (update_current_stats example_nzb) = example_files"
    by (simp add: update_current_stats_def Let_def foldl_add_current_file example_stats)
  have "current (update_current_stats example_nzb) c =
      settled (update_current_stats example_nzb) c + sum_list (map (share c) example_files)" for c
    by (cases c) (simp_all add: update_current_stats_def example_files_def Let_def
      add_current_file_def example_stats file_init_def list_op_def stat_apply_def stat_total_def)
  then show "totals_ok (update_current_stats example_nzb)"
    using \<open>nz_fileList (update_current_stats example_nzb) = example_files\<close> by (simp add: totals_ok_def)
  show "\<not> nz_deleting (update_current_stats example_nzb)"
    by (simp add: update_current_stats_def example_files_def Let_def add_current_file_def example_stats)
qed

theorem file_leaves_keeps_totals_witness:
  "totals_ok (file_leaves True 1 (update_current_stats example_nzb))"
  by (rule file_leaves_keeps_totals) (simp_all add: example_ok, simp_all add: example_files_def file_init_def)

theorem file_flags_keep_totals_witness:
  "totals_ok (nz_file_set_paused True 0 (update_current_stats example_nzb))"
  using file_flags_keep_totals [OF example_ok(1), of 0] by (simp add: example_ok, simp add: example_files_def)

theorem calc_health_bounds_witness: "calc_health (example_nzb\<lparr>nz_currentFailedSize := 10\<rparr>) \<le> 1000"
  using calc_health_bounds [of "example_nzb\<lparr>nz_currentFailedSize := 10\<rparr>"]
  by (simp add: sizes_ok_def example_stats)

theorem critical_health_means_repairable_witness:
  "calc_critical_health False (example_nzb\<lparr>nz_currentFailedSize := 10\<rparr>) \<le>
     calc_health (example_nzb\<lparr>nz_currentFailedSize := 10\<rparr>)"
  using critical_health_means_repairable [of "example_nzb\<lparr>nz_currentFailedSize := 10\<rparr>"]
  by (simp add: sizes_ok_def example_stats)

theorem critical_health_overstated_witness:
  "calc_health (nzb_init\<lparr>nz_size := 100, nz_parSize := 50, nz_currentFailedSize := 50,
     nz_parCurrentFailedSize := 40\<rparr>) = 800"
  using critical_health_overstated [of "nzb_init\<lparr>nz_size := 100, nz_parSize := 50,
    nz_currentFailedSize := 50, nz_parCurrentFailedSize := 40\<rparr>"] by simp

theorem download_time_counts_activity_witness:
  "nz_downloadSec (active_run [(1000, 1), (1010, 2), (1030, 0)] example_nzb) = 30"
  using download_time_counts_activity [of example_nzb 1 "[(1010, 2)]" 1000 1030]
  by (simp add: example_stats)

theorem url_download_time_is_clock_witness:
  "nz_downloadSec (nz_set_active_downloads 1700000000 1 (nzb_init\<lparr>nz_kind := nkUrl\<rparr>)) = 1700000000"
  by (rule url_download_time_is_clock) (simp_all add: nzb_init_def)

theorem text_status_agrees_with_dupe_status_witness:
  "make_text_status False example_nzb \<noteq> ''FAILURE/INTERNAL_ERROR''"
  using text_status_agrees_with_dupe_status [of example_nzb False] by (simp add: example_stats sizes_ok_def)

section \<open>Messages\<close>

fun add_messages :: "bool \<Rightarrow> nat \<Rightarrow> (int \<times> nat \<times> cstring) list \<Rightarrow> nzb_info \<Rightarrow> nzb_info" where
  "add_messages toDisk logBuffer [] nz = nz"
| "add_messages toDisk logBuffer ((now, kind, text) # ms) nz =
     add_messages toDisk logBuffer ms (add_message toDisk logBuffer now kind text nz)"

fun numbered :: "int \<Rightarrow> (int \<times> nat \<times> cstring) list \<Rightarrow> message list" where
  "numbered n [] = []"
| "numbered n ((now, kind, msg) # ms) =
     \<lparr>msg_id = n + 1, msg_kind = kind, msg_time = now, msg_text = msg\<rparr> # numbered (n + 1) ms"

text \<open>The message buffer of a download holds the newest messages, at most as many as the log
  buffer option allows, numbered without gaps.\<close>

theorem message_buffer_correct:
  "nz_messages nz = drop (length old - logBuffer) old \<Longrightarrow>
   nz_messages (add_messages toDisk logBuffer ms nz) =
     (let allm = old @ numbered (nz_idMessageGen nz) ms in drop (length allm - logBuffer) allm)"
proof (induction ms arbitrary: nz old)
  case Nil
  then show ?case by simp
next
  case (Cons m ms)
  obtain now kind msg where m: "m = (now, kind, msg)" using prod_cases3 by blast
  let ?new = "\<lparr>msg_id = nz_idMessageGen nz + 1, msg_kind = kind, msg_time = now, msg_text = msg\<rparr>"
  have "nz_messages (add_message toDisk logBuffer now kind msg nz) =
      drop (length (old @ [?new]) - logBuffer) (old @ [?new])"
    using Cons.prems by (cases "length old \<le> logBuffer") (auto simp: add_message_def Let_def Suc_diff_le)
  moreover have "nz_idMessageGen (add_message toDisk logBuffer now kind msg nz) = nz_idMessageGen nz + 1"
    by (simp add: add_message_def Let_def)
  ultimately show ?case
    using Cons.IH [of "add_message toDisk logBuffer now kind msg nz" "old @ [?new]"]
    by (simp add: m)
qed

theorem message_buffer_correct_witness:
  "map msg_text (nz_messages (add_messages False 2 [(1, 0, ''a''), (2, 0, ''b''), (3, 0, ''c'')] example_nzb)) =
     [''b'', ''c'']"
  using message_buffer_correct [of example_nzb "[]" 2 False "[(1, 0, ''a''), (2, 0, ''b''), (3, 0, ''c'')]"]
  by (simp add: example_stats)

section \<open>Times and totals\<close>

lemma min_max_fold:
  assumes "\<forall>fi \<in> set fs. fi_time fi > 0"
  shows "foldl (\<lambda>s fi. min_max_step fi s) (mn, mx, False) fs =
    (Min (insert mn (fi_time ` set fs)), Max (insert mx (fi_time ` set fs)), False)"
  using assms
proof (induction fs arbitrary: mn mx)
  case (Cons f fs)
  have "insert mn (insert (fi_time f) A) = insert (fi_time f) (insert mn A)" for A by auto
  then have "Min (insert (min mn (fi_time f)) (fi_time ` set fs)) = Min (insert mn (fi_time ` set (f # fs)))"
    by (cases "fs = []") (simp_all add: min.assoc min.left_commute)
  moreover have "Max (insert (max mx (fi_time f)) (fi_time ` set fs)) = Max (insert mx (fi_time ` set (f # fs)))"
    by (cases "fs = []") (simp_all add: max.assoc max.left_commute)
  moreover have "min_max_step f (mn, mx, False) = (min mn (fi_time f), max mx (fi_time f), False)"
    using Cons.prems by (auto simp: min_max_step_def Let_def min_def max_def)
  ultimately show ?case using Cons by simp
qed simp

text \<open>The age of a download spans the posting times of its files, when all of them are known.\<close>

theorem update_min_max_time_correct:
  assumes "nz_fileList nz \<noteq> []" "\<forall>fi \<in> set (nz_fileList nz). fi_time fi > 0"
  shows "nz_minTime (update_min_max_time nz) = Min (fi_time ` set (nz_fileList nz)) \<and>
    nz_maxTime (update_min_max_time nz) = Max (fi_time ` set (nz_fileList nz))"
proof -
  obtain f fs where fs: "nz_fileList nz = f # fs" using assms(1) by (cases "nz_fileList nz") auto
  then have "min_max_step f (0, 0, True) = (fi_time f, fi_time f, False)"
    using assms(2) by (simp add: min_max_step_def Let_def)
  then show ?thesis
    using min_max_fold [of fs "fi_time f" "fi_time f"] assms(2) fs by (simp add: update_min_max_time_def)
qed

theorem update_min_max_time_correct_witness:
  "nz_minTime (update_min_max_time example_nzb) = 400"
  using update_min_max_time_correct [of example_nzb] by (simp add: example_stats example_files_def)

lemma remaining_fold:
  "foldl (\<lambda>s fi. remaining_step nz fi s) (a, b) fs =
    (let r = sum_list (map (\<lambda>fi. if fi_paused fi \<or> fi_deleted fi then 0 else fi_remainingSize fi) fs)
     in (a + r, if get_force_priority nz then b + r else b))"
  by (induction fs arbitrary: a b) (auto simp: remaining_step_def Let_def)

lemma calc_remaining_fold:
  assumes "\<forall>nz \<in> set queue. totals_ok nz \<and> (\<forall>fi \<in> set (nz_fileList nz). \<not> fi_deleted fi)"
  shows "foldl (\<lambda>s nz. foldl (\<lambda>s fi. remaining_step nz fi s) s (nz_fileList nz)) (a, b) queue =
    (a + sum_list (map (\<lambda>nz. nz_remainingSize nz - nz_pausedSize nz) queue),
     b + sum_list (map (\<lambda>nz. nz_remainingSize nz - nz_pausedSize nz) (filter get_force_priority queue)))"
  using assms
proof (induction queue arbitrary: a b)
  case (Cons nz queue)
  have "fs = fs \<Longrightarrow> (\<forall>fi \<in> set fs. \<not> fi_deleted fi) \<Longrightarrow>
      sum_list (map (\<lambda>fi. if fi_paused fi \<or> fi_deleted fi then 0 else fi_remainingSize fi) fs) =
      sum_list (map (share cRemaining) fs) - sum_list (map (share cPausedSize) fs)" for fs
    by (induction fs) auto
  moreover have "nz_remainingSize nz = sum_list (map (share cRemaining) (nz_fileList nz))"
    "nz_pausedSize nz = sum_list (map (share cPausedSize) (nz_fileList nz))"
    using Cons.prems spec [of _ cRemaining] spec [of _ cPausedSize] unfolding totals_ok_def
    by (metis (mono_tags, lifting) add_0 current.simps(1,3) list.set_intros(1) settled.simps(9,11))+
  ultimately show ?case
    using Cons by (simp add: remaining_fold Let_def)
qed simp

text \<open>The remaining size of the queue, computed file by file, is what the counters of the downloads
  say, and likewise for the forced downloads.\<close>

theorem calc_remaining_size_correct:
  assumes "\<forall>nz \<in> set queue. totals_ok nz \<and> (\<forall>fi \<in> set (nz_fileList nz). \<not> fi_deleted fi)"
  shows "calc_remaining_size queue =
    (sum_list (map (\<lambda>nz. nz_remainingSize nz - nz_pausedSize nz) queue),
     sum_list (map (\<lambda>nz. nz_remainingSize nz - nz_pausedSize nz) (filter get_force_priority queue)))"
  using calc_remaining_fold [OF assms, of 0 0] by (simp add: calc_remaining_size_def)

theorem calc_remaining_size_correct_witness:
  "fst (calc_remaining_size [update_current_stats example_nzb]) = 60"
proof -
  have "nz_remainingSize (update_current_stats example_nzb) - nz_pausedSize (update_current_stats example_nzb) = 60"
    by (simp add: update_current_stats_def example_files_def Let_def add_current_file_def example_stats file_init_def)
  then show ?thesis
    using calc_remaining_size_correct [of "[update_current_stats example_nzb]"] example_ok
    by (simp add: example_files_def file_init_def)
qed

end
