(* ===== verification/ServerPool.thy ===== *)
theory ServerPool
  imports Prelude "HOL-Library.Multiset"
begin

text \<open>
  The pool of news server connections, \<open>daemon/nntp/ServerPool.cpp\<close>: servers with their
  normalised levels, pooled connections, the count of free connections per level, and the
  operations of the download threads.

  Servers and connections are named by their position in the lists. \<open>Util::CurrentTime\<close> and
  \<open>rand\<close> are arguments. Each definition is one critical section of \<open>m_connectionsMutex\<close>.
  \<open>std::sort\<close> is a stable sort here.
\<close>

section \<open>State\<close>

record news_server =
  ns_id :: int
  ns_stateId :: int
  ns_active :: bool
  ns_name :: cstring
  ns_host :: cstring
  ns_port :: int
  ns_ipVersion :: int
  ns_user :: cstring
  ns_password :: cstring
  ns_joinGroup :: bool
  ns_tls :: bool
  ns_cipher :: cstring
  ns_maxConnections :: int
  ns_retention :: int
  ns_level :: int
  ns_normLevel :: int
  ns_group :: int
  ns_optional :: bool
  ns_blockTime :: int

datatype conn_status = csConnected | csDisconnected | csListening | csCancelled | csBroken

record pooled_connection =
  pc_server :: nat
  pc_status :: conn_status
  pc_inUse :: bool
  pc_freeTime :: int

record server_pool =
  sp_servers :: "news_server list"
  sp_sorted :: "nat list"
  sp_connections :: "pooled_connection list"
  sp_levels :: "int list"
  sp_maxNormLevel :: int
  sp_retryInterval :: int
  sp_generation :: int

abbreviation server_of :: "server_pool \<Rightarrow> pooled_connection \<Rightarrow> news_server" where
  "server_of p c \<equiv> sp_servers p ! pc_server c"

section \<open>Configuration\<close>

definition add_server :: "news_server \<Rightarrow> server_pool \<Rightarrow> server_pool" where
  "add_server s p = p\<lparr>sp_servers := sp_servers p @ [s], sp_sorted := sp_sorted p @ [length (sp_servers p)]\<rparr>"

definition get_server_by_id :: "int \<Rightarrow> server_pool \<Rightarrow> nat option" where
  "get_server_by_id i p =
     (case filter (\<lambda>k. ns_id (sp_servers p ! k) = i) [0..<length (sp_servers p)] of [] \<Rightarrow> None | k # _ \<Rightarrow> Some k)"

definition norm_used :: "int \<Rightarrow> news_server \<Rightarrow> bool" where
  "norm_used minLevel s \<longleftrightarrow> (ns_active s \<and> ns_maxConnections s > 0) \<or> ns_level s = minLevel"

definition norm_step :: "int \<Rightarrow> nat \<Rightarrow> news_server list \<times> int \<times> int \<Rightarrow> news_server list \<times> int \<times> int" where
  "norm_step minLevel i st =
     (case st of (servers, maxNormLevel, lastLevel) \<Rightarrow>
        (let s = servers ! i
         in if norm_used minLevel s then
              (let maxNormLevel = (if ns_level s \<noteq> lastLevel then maxNormLevel + 1 else maxNormLevel)
               in (servers[i := s\<lparr>ns_normLevel := maxNormLevel\<rparr>], maxNormLevel, ns_level s))
            else (servers[i := s\<lparr>ns_normLevel := -1\<rparr>], maxNormLevel, lastLevel)))"

definition normalize_levels :: "server_pool \<Rightarrow> server_pool" where
  "normalize_levels p =
     (if sp_servers p = [] then p
      else
        (let level = (\<lambda>i. ns_level (sp_servers p ! i));
             sorted = sort_key level (sp_sorted p);
             minLevel = foldl (\<lambda>m i. if level i < m then level i else m) (level (hd sorted)) sorted
         in case foldl (\<lambda>st i. norm_step minLevel i st) (sp_servers p, 0, minLevel) sorted of
              (servers, maxNormLevel, _) \<Rightarrow>
                p\<lparr>sp_servers := servers, sp_sorted := sorted, sp_maxNormLevel := maxNormLevel\<rparr>))"

definition new_connection :: "nat \<Rightarrow> pooled_connection" where
  "new_connection i = \<lparr>pc_server = i, pc_status = csDisconnected, pc_inUse = False, pc_freeTime = 0\<rparr>"

definition init_server :: "nat \<Rightarrow> server_pool \<Rightarrow> server_pool" where
  "init_server i p =
     (let p = p\<lparr>sp_servers := (sp_servers p)[i := (sp_servers p ! i)\<lparr>ns_blockTime := 0\<rparr>]\<rparr>;
          s = sp_servers p ! i
      in if ns_normLevel s > -1 then
           (let n = nat (ns_normLevel s);
                p = (if length (sp_levels p) \<le> n then p\<lparr>sp_levels := sp_levels p @ [0]\<rparr> else p)
            in if ns_active s then
                 (let connections = length (filter (\<lambda>c. pc_server c = i) (sp_connections p));
                      missing = nat (ns_maxConnections s) - connections
                  in p\<lparr>sp_connections := sp_connections p @ replicate missing (new_connection i),
                       sp_levels := (sp_levels p)[n := sp_levels p ! n + int (connections + missing)]\<rparr>)
               else p)
         else p)"

definition init_connections :: "server_pool \<Rightarrow> server_pool" where
  "init_connections p =
     (let p = (normalize_levels p)\<lparr>sp_levels := []\<rparr>;
          p = foldl (\<lambda>p i. init_server i p) p (sp_sorted p)
      in p\<lparr>sp_generation := sp_generation p + 1\<rparr>)"

section \<open>Taking and returning connections\<close>

definition is_server_blocked :: "int \<Rightarrow> int \<Rightarrow> news_server \<Rightarrow> bool" where
  "is_server_blocked now retryInterval s =
     (if ns_blockTime s = 0 then False
      else ns_blockTime s \<le> now \<and> now < ns_blockTime s + retryInterval)"

definition block_server :: "int \<Rightarrow> nat \<Rightarrow> server_pool \<Rightarrow> server_pool" where
  "block_server now i p =
     p\<lparr>sp_servers := (sp_servers p)[i := (sp_servers p ! i)\<lparr>ns_blockTime := now\<rparr>]\<rparr>"

definition same_group :: "news_server \<Rightarrow> news_server \<Rightarrow> bool" where
  "same_group a b \<longleftrightarrow> ns_group a > 0 \<and> ns_group a = ns_group b"

definition ignored :: "server_pool \<Rightarrow> nat option \<Rightarrow> nat list \<Rightarrow> nat \<Rightarrow> bool" where
  "ignored p wantServer ignoreServers s \<longleftrightarrow>
     wantServer = None \<and>
     list_ex (\<lambda>g. g = s \<or> (same_group (sp_servers p ! g) (sp_servers p ! s) \<and>
                           ns_normLevel (sp_servers p ! g) = ns_normLevel (sp_servers p ! s))) ignoreServers"

definition candidate_ok :: "int \<Rightarrow> int \<Rightarrow> nat option \<Rightarrow> server_pool \<Rightarrow> pooled_connection \<Rightarrow> bool" where
  "candidate_ok now level wantServer p c \<longleftrightarrow>
     \<not> pc_inUse c \<and> ns_active (server_of p c) \<and> ns_normLevel (server_of p c) = level \<and>
     (case wantServer of
        None \<Rightarrow> True
      | Some w \<Rightarrow> pc_server c = w \<or> same_group (sp_servers p ! w) (server_of p c)) \<and>
     (pc_status c = csConnected \<or> \<not> is_server_blocked now (sp_retryInterval p) (server_of p c))"

text \<open>The search loop over the connections: it also clears the block time of the servers it meets.\<close>

definition candidate_step ::
    "int \<Rightarrow> int \<Rightarrow> nat option \<Rightarrow> nat list \<Rightarrow> nat \<Rightarrow> server_pool \<times> nat list \<Rightarrow> server_pool \<times> nat list" where
  "candidate_step now level wantServer ignoreServers k st =
     (case st of (p, candidates) \<Rightarrow>
        (let c = sp_connections p ! k; s = pc_server c
         in if candidate_ok now level wantServer p c
            then (p\<lparr>sp_servers := (sp_servers p)[s := (sp_servers p ! s)\<lparr>ns_blockTime := 0\<rparr>]\<rparr>,
                  if ignored p wantServer ignoreServers s then candidates else candidates @ [k])
            else (p, candidates)))"

definition locked_get_connection ::
    "int \<Rightarrow> nat \<Rightarrow> int \<Rightarrow> nat option \<Rightarrow> nat list \<Rightarrow> server_pool \<Rightarrow> server_pool \<times> nat option" where
  "locked_get_connection now random level wantServer ignoreServers p =
     (if level \<ge> int (length (sp_levels p)) \<or> sp_levels p ! nat level = 0 then (p, None)
      else
        (case foldl (\<lambda>st k. candidate_step now level wantServer ignoreServers k st) (p, [])
                [0..<length (sp_connections p)] of
           (p, candidates) \<Rightarrow>
             if candidates = [] then (p, None)
             else
               (let k = candidates ! (random mod length candidates)
                in (p\<lparr>sp_connections := (sp_connections p)[k := (sp_connections p ! k)\<lparr>pc_inUse := True\<rparr>],
                      sp_levels := (sp_levels p)[nat level := sp_levels p ! nat level - 1]\<rparr>, Some k))))"

text \<open>A server that keeps the search on its level: not both optional and blocked.\<close>

definition holds_level :: "int \<Rightarrow> server_pool \<Rightarrow> int \<Rightarrow> bool" where
  "holds_level now p level \<longleftrightarrow>
     list_ex (\<lambda>i. let s = sp_servers p ! i in
        ns_normLevel s = level \<and> ns_active s \<and>
        \<not> (ns_optional s \<and> is_server_blocked now (sp_retryInterval p) s)) (sp_sorted p)"

lemma candidate_steps_levels:
  "foldl (\<lambda>st k. candidate_step now level want ign k st) (p, cs) ks = (p', cs') \<Longrightarrow> sp_levels p' = sp_levels p"
proof (induction ks arbitrary: p cs)
  case (Cons k ks)
  obtain p1 c1 where 1: "candidate_step now level want ign k (p, cs) = (p1, c1)" by fastforce
  then have "sp_levels p1 = sp_levels p" by (auto simp: candidate_step_def Let_def split: if_splits)
  with Cons 1 show ?case by simp
qed simp

lemma locked_get_levels_length:
  "locked_get_connection now random level want ign p = (p', r) \<Longrightarrow> length (sp_levels p') = length (sp_levels p)"
  by (auto simp: locked_get_connection_def Let_def dest: candidate_steps_levels split: if_splits prod.splits)

function get_connection ::
    "int \<Rightarrow> nat \<Rightarrow> nat \<Rightarrow> nat option \<Rightarrow> nat list \<Rightarrow> server_pool \<Rightarrow> server_pool \<times> nat option" where
  "get_connection now random level wantServer ignoreServers p =
     (if level < length (sp_levels p) \<and> sp_levels p ! level > 0 then
        (case locked_get_connection now random (int level) wantServer ignoreServers p of
           (p', Some k) \<Rightarrow> (p', Some k)
         | (p', None) \<Rightarrow>
             if holds_level now p' (int level) then (p', None)
             else get_connection now random (Suc level) wantServer ignoreServers p')
      else (p, None))"
  by pat_completeness auto
termination
  by (relation "measure (\<lambda>(now, random, level, want, ignore, p). length (sp_levels p) - level)")
     (auto dest: locked_get_levels_length [OF sym])

declare get_connection.simps [simp del]

definition free_connection :: "int \<Rightarrow> bool \<Rightarrow> nat \<Rightarrow> server_pool \<Rightarrow> server_pool" where
  "free_connection now used k p =
     (let c = (sp_connections p ! k)\<lparr>pc_inUse := False\<rparr>;
          c = (if used then c\<lparr>pc_freeTime := now\<rparr> else c);
          p = p\<lparr>sp_connections := (sp_connections p)[k := c]\<rparr>;
          s = server_of p c
      in if ns_normLevel s > -1 \<and> ns_active s
         then p\<lparr>sp_levels := (sp_levels p)[nat (ns_normLevel s) := sp_levels p ! nat (ns_normLevel s) + 1]\<rparr>
         else p)"

section \<open>Closing connections\<close>

definition conn_disconnect :: "pooled_connection \<Rightarrow> pooled_connection" where
  "conn_disconnect c = (if pc_status c = csDisconnected then c else c\<lparr>pc_status := csDisconnected\<rparr>)"

definition closable :: "server_pool \<Rightarrow> pooled_connection \<Rightarrow> bool" where
  "closable p c \<longleftrightarrow> \<not> pc_inUse c \<and> (ns_normLevel (server_of p c) = -1 \<or> \<not> ns_active (server_of p c))"

text \<open>The scan of a level: whether a connection is in use (the scan stops there) and the longest idle time.\<close>

fun level_scan :: "int \<Rightarrow> server_pool \<Rightarrow> int \<Rightarrow> pooled_connection list \<Rightarrow> bool \<times> int \<Rightarrow> bool \<times> int" where
  "level_scan now p level [] st = st"
| "level_scan now p level (c # cs) (hasInUse, inactiveTime) =
     (if ns_normLevel (server_of p c) = level then
        (if pc_inUse c then (True, inactiveTime)
         else level_scan now p level cs
                (hasInUse, if now - pc_freeTime c > inactiveTime then now - pc_freeTime c else inactiveTime))
      else level_scan now p level cs (hasInUse, inactiveTime))"

definition close_level :: "int \<Rightarrow> int \<Rightarrow> server_pool \<Rightarrow> server_pool" where
  "close_level now level p =
     (case level_scan now p level (sp_connections p) (False, 0) of (hasInUse, inactiveTime) \<Rightarrow>
        if \<not> hasInUse \<and> inactiveTime > 5
        then p\<lparr>sp_connections := map (\<lambda>c. if ns_normLevel (server_of p c) = level \<and> pc_status c = csConnected
                                         then conn_disconnect c else c) (sp_connections p)\<rparr>
        else p)"

definition close_unused_connections :: "int \<Rightarrow> server_pool \<Rightarrow> server_pool" where
  "close_unused_connections now p =
     (let p = p\<lparr>sp_connections := filter (\<lambda>c. \<not> closable p c) (sp_connections p)\<rparr>
      in foldl (\<lambda>p level. close_level now level p) p (map int [0..<nat (sp_maxNormLevel p + 1)]))"

definition pool_changed :: "int \<Rightarrow> server_pool \<Rightarrow> server_pool" where
  "pool_changed now p = close_unused_connections now (init_connections p)"

section \<open>Normalised levels\<close>

lemma foldl_min_eq:
  fixes f :: "'a \<Rightarrow> int"
  assumes "\<forall>x \<in> set xs. m \<le> f x"
  shows "foldl (\<lambda>m i. if f i < m then f i else m) m xs = m"
  using assms by (induction xs) auto

definition used_levels :: "int \<Rightarrow> news_server list \<Rightarrow> nat list \<Rightarrow> int set" where
  "used_levels minLevel servers is = (\<lambda>i. ns_level (servers ! i)) ` {i \<in> set is. norm_used minLevel (servers ! i)}"

text \<open>What a server gets: the number of used levels below its own, or -1.\<close>

definition norm_of :: "int \<Rightarrow> news_server list \<Rightarrow> nat list \<Rightarrow> nat \<Rightarrow> int" where
  "norm_of minLevel servers is i =
     (if norm_used minLevel (servers ! i)
      then int (card {l \<in> used_levels minLevel servers is. l < ns_level (servers ! i)}) else -1)"

lemma norm_used_upd [simp]: "norm_used m (s\<lparr>ns_normLevel := n\<rparr>) = norm_used m s"
  by (simp add: norm_used_def)

lemma norm_fold:
  fixes servers :: "news_server list" and minLevel :: int
  defines "lev \<equiv> \<lambda>i. ns_level (servers ! i)"
  assumes "sorted (map lev is)" "distinct is" "\<forall>i \<in> set is. i < length servers \<and> minLevel \<le> lev i"
    and "is \<noteq> [] \<Longrightarrow> lev (hd is) = minLevel"
  shows "\<exists>servers' mx la. foldl (\<lambda>st i. norm_step minLevel i st) (servers, 0, minLevel) is = (servers', mx, la) \<and>
    servers' = map (\<lambda>i. if i \<in> set is then (servers ! i)\<lparr>ns_normLevel := norm_of minLevel servers is i\<rparr> else servers ! i)
      [0..<length servers] \<and>
    (is \<noteq> [] \<longrightarrow> mx = int (card (used_levels minLevel servers is)) - 1 \<and> used_levels minLevel servers is \<noteq> {} \<and>
       la = Max (used_levels minLevel servers is)) \<and> (is = [] \<longrightarrow> mx = 0 \<and> la = minLevel)"
  using assms(2-)
proof (induction "is" rule: rev_induct)
  case Nil
  then show ?case by (simp add: map_nth)
next
  case (snoc i "is")
  let ?U = "used_levels minLevel servers is" and ?U' = "used_levels minLevel servers (is @ [i])"
  have srt: "sorted (map lev is)" "\<forall>j \<in> set is. lev j \<le> lev i" using snoc.prems(1) by (auto simp: sorted_append)
  have hd: "is \<noteq> [] \<Longrightarrow> lev (hd is) = minLevel" using snoc.prems(4) by (cases "is") auto
  obtain servers' mx la where IH: "foldl (\<lambda>st i. norm_step minLevel i st) (servers, 0, minLevel) is = (servers', mx, la)"
    "servers' = map (\<lambda>i. if i \<in> set is then (servers ! i)\<lparr>ns_normLevel := norm_of minLevel servers is i\<rparr> else servers ! i)
      [0..<length servers]"
    "is \<noteq> [] \<Longrightarrow> mx = int (card ?U) - 1 \<and> ?U \<noteq> {} \<and> la = Max ?U" "is = [] \<Longrightarrow> mx = 0 \<and> la = minLevel"
    using snoc.IH srt(1) snoc.prems(2,3) hd by auto
  have i: "i < length servers" "i \<notin> set is" using snoc.prems by auto
  have si: "servers' ! i = servers ! i" using i by (simp add: IH(2))
  have fin: "finite ?U" by (simp add: used_levels_def)
  have below: "l \<in> ?U \<Longrightarrow> l \<le> lev i" for l using srt(2) by (auto simp: used_levels_def lev_def)
  have U': "?U' = (if norm_used minLevel (servers ! i) then insert (lev i) ?U else ?U)"
    by (auto simp: used_levels_def lev_def)
  have same: "norm_of minLevel servers (is @ [i]) j = norm_of minLevel servers is j" if "j \<in> set is" for j
  proof -
    have "\<not> lev i < lev j" using srt(2) that by auto
    then have "{l \<in> ?U'. l < ns_level (servers ! j)} = {l \<in> ?U. l < ns_level (servers ! j)}"
      unfolding U' by (auto simp: lev_def)
    then show ?thesis by (simp add: norm_of_def)
  qed
  have upd: "servers'[i := (servers ! i)\<lparr>ns_normLevel := norm_of minLevel servers (is @ [i]) i\<rparr>] =
      map (\<lambda>j. if j \<in> set (is @ [i]) then (servers ! j)\<lparr>ns_normLevel := norm_of minLevel servers (is @ [i]) j\<rparr> else servers ! j)
      [0..<length servers]"
    using i by (intro nth_equalityI) (auto simp: IH(2) nth_list_update same)
  define mx' where "mx' = (if lev i \<noteq> la then mx + 1 else mx)"
  have step: "foldl (\<lambda>st i. norm_step minLevel i st) (servers, 0, minLevel) (is @ [i]) =
      (if norm_used minLevel (servers ! i)
       then (servers'[i := (servers ! i)\<lparr>ns_normLevel := mx'\<rparr>], mx', lev i)
       else (servers'[i := (servers ! i)\<lparr>ns_normLevel := -1\<rparr>], mx, la))"
  proof -
    have "norm_step minLevel i (servers', mx, la) =
      (if norm_used minLevel (servers ! i)
       then (servers'[i := (servers ! i)\<lparr>ns_normLevel := mx'\<rparr>], mx', lev i)
       else (servers'[i := (servers ! i)\<lparr>ns_normLevel := -1\<rparr>], mx, la))"
      by (simp add: norm_step_def Let_def si lev_def mx'_def)
    then show ?thesis using IH(1) by simp
  qed
  show ?case
  proof (cases "norm_used minLevel (servers ! i)")
    case False
    have ne: "is \<noteq> []"
      using snoc.prems(4) False by (auto simp: norm_used_def lev_def)
    have "norm_of minLevel servers (is @ [i]) i = -1" using False by (simp add: norm_of_def)
    then show ?thesis
      unfolding step using upd False IH(3) [OF ne] U' by simp
  next
    case used: True
    have lt: "{l \<in> ?U'. l < lev i} = ?U - {lev i}" using used below unfolding U' by force
    have no: "norm_of minLevel servers (is @ [i]) i = int (card (?U - {lev i}))"
      using used lt by (simp add: norm_of_def lev_def)
    have "mx' = int (card (?U - {lev i})) \<and> mx' = int (card ?U') - 1 \<and> lev i = Max ?U'"
    proof (cases "is = []")
      case True
      then have "?U = {}" "lev i = minLevel" using snoc.prems(4) by (auto simp: used_levels_def)
      then show ?thesis using IH(4) [OF True] U' used by (simp add: mx'_def)
    next
      case False
      then have mx: "mx = int (card ?U) - 1" "?U \<noteq> {}" "la = Max ?U" using IH(3) by auto
      have iff: "lev i \<in> ?U \<longleftrightarrow> lev i = la"
        using Max_in [OF fin mx(2)] Max_ge [OF fin] below mx(3) by (metis antisym)
      have mxU: "Max (insert (lev i) ?U) = lev i"
        using below fin by (intro Max_eqI) auto
      have "0 < card ?U" using fin mx(2) by (simp add: card_gt_0_iff)
      then show ?thesis
        using iff mxU mx(1) fin used unfolding U' mx'_def
        by (cases "lev i = la") (simp_all add: card_insert_if insert_absorb)
    qed
    then have e: "norm_of minLevel servers (is @ [i]) i = mx'" and c: "mx' = int (card ?U') - 1" "lev i = Max ?U'"
      using no by metis+
    have ne: "?U' \<noteq> {}" using used unfolding U' by simp
    show ?thesis
      unfolding step if_P [OF used]
      by (intro exI conjI impI, rule refl, rule upd [unfolded e], rule c(1), rule ne, rule c(2), simp_all)
  qed
qed

text \<open>A pool whose connections and sorted list refer to its servers.\<close>

definition pool_wf :: "server_pool \<Rightarrow> bool" where
  "pool_wf p \<longleftrightarrow> list_all (\<lambda>c. pc_server c < length (sp_servers p)) (sp_connections p) \<and>
     distinct (sp_sorted p) \<and> set (sp_sorted p) = {0..<length (sp_servers p)}"

definition min_level :: "server_pool \<Rightarrow> int" where
  "min_level p = Min (ns_level ` set (sp_servers p))"

lemma normalize_levels_spec:
  assumes "pool_wf p" "sp_servers p \<noteq> []"
  defines "U \<equiv> ns_level ` {s \<in> set (sp_servers p). norm_used (min_level p) s}"
  shows "sp_servers (normalize_levels p) =
      map (\<lambda>s. s\<lparr>ns_normLevel := if norm_used (min_level p) s then int (card {l \<in> U. l < ns_level s}) else -1\<rparr>) (sp_servers p)"
    and "sp_maxNormLevel (normalize_levels p) = int (card U) - 1" "min_level p \<in> U"
    and "set (sp_sorted (normalize_levels p)) = set (sp_sorted p)" "distinct (sp_sorted (normalize_levels p))"
    and "sorted (map (\<lambda>i. ns_level (sp_servers p ! i)) (sp_sorted (normalize_levels p)))"
    and "sp_connections (normalize_levels p) = sp_connections p"
proof -
  let ?s = "sp_servers p"
  define lev where "lev = (\<lambda>i. ns_level (?s ! i))"
  define srt where "srt = sort_key lev (sp_sorted p)"
  have set: "set srt = {0..<length ?s}" "distinct srt" using assms(1) by (auto simp: srt_def pool_wf_def)
  have ne: "srt \<noteq> []" using set assms(2) by auto
  have so: "sorted (map lev srt)" by (simp add: srt_def)
  then have hd: "\<forall>i \<in> set srt. lev (hd srt) \<le> lev i" using ne by (cases srt) auto
  have st: "set ?s = (\<lambda>i. ?s ! i) ` {0..<length ?s}" by (force simp: in_set_conv_nth)
  then have im: "ns_level ` set ?s = lev ` set srt" unfolding set by (simp add: lev_def image_image)
  have mn: "lev (hd srt) = min_level p"
    unfolding min_level_def im using hd ne by (intro Min_eqI [symmetric]) auto
  have ml: "foldl (\<lambda>m i. if lev i < m then lev i else m) (lev (hd srt)) srt = min_level p"
    using foldl_min_eq [OF hd] mn by simp
  have "\<forall>i \<in> set srt. i < length ?s \<and> min_level p \<le> ns_level (?s ! i)" using set hd mn by (auto simp: lev_def)
  from norm_fold [OF so [unfolded lev_def] set(2) this] mn
  obtain servers' mx la where f: "foldl (\<lambda>st i. norm_step (min_level p) i st) (?s, 0, min_level p) srt = (servers', mx, la)"
    "servers' = map (\<lambda>i. if i \<in> set srt then (?s ! i)\<lparr>ns_normLevel := norm_of (min_level p) ?s srt i\<rparr> else ?s ! i) [0..<length ?s]"
    "mx = int (card (used_levels (min_level p) ?s srt)) - 1"
    using ne by (auto simp: lev_def)
  have U: "used_levels (min_level p) ?s srt = U"
    unfolding used_levels_def U_def set using st by force
  have n: "normalize_levels p = p\<lparr>sp_servers := servers', sp_sorted := srt, sp_maxNormLevel := mx\<rparr>"
    using assms(2) f(1) ml unfolding normalize_levels_def Let_def lev_def [symmetric] srt_def [symmetric] by simp
  show "sp_servers (normalize_levels p) =
      map (\<lambda>s. s\<lparr>ns_normLevel := if norm_used (min_level p) s then int (card {l \<in> U. l < ns_level s}) else -1\<rparr>) ?s"
    unfolding n f(2) set by (intro nth_equalityI) (auto simp: norm_of_def U)
  show "sp_maxNormLevel (normalize_levels p) = int (card U) - 1" by (simp add: n f(3) U)
  have "hd srt \<in> set srt" using ne by simp
  then show "min_level p \<in> U"
    using mn unfolding U_def set by (auto simp: lev_def norm_used_def intro!: image_eqI [of _ _ "?s ! hd srt"])
  show "set (sp_sorted (normalize_levels p)) = set (sp_sorted p)" "distinct (sp_sorted (normalize_levels p))"
    using set assms(1) by (simp_all add: n pool_wf_def)
  show "sorted (map (\<lambda>i. ns_level (?s ! i)) (sp_sorted (normalize_levels p)))"
    using so by (simp add: n lev_def)
  show "sp_connections (normalize_levels p) = sp_connections p" by (simp add: n)
qed

lemma rank_onto:
  assumes "finite (U :: int set)"
  shows "(\<lambda>l. card {l' \<in> U. l' < l}) ` U = {..<card U}"
proof (rule card_subset_eq)
  have less: "card {l' \<in> U. l' < a} < card {l' \<in> U. l' < b}" if "a \<in> U" "a < b" for a b
    using that assms by (intro psubset_card_mono) auto
  then have "inj_on (\<lambda>l. card {l' \<in> U. l' < l}) U"
    by (metis (no_types, lifting) inj_onI linorder_neqE less_irrefl)
  then show "card ((\<lambda>l. card {l' \<in> U. l' < l}) ` U) = card {..<card U}" by (simp add: card_image)
  show "(\<lambda>l. card {l' \<in> U. l' < l}) ` U \<subseteq> {..<card U}"
    using assms by (auto intro!: psubset_card_mono)
qed simp

text \<open>Level normalisation: the servers in use (active with connections, or of the lowest level) get
  levels that start from 0, have no gaps and are in the order of the configured levels: the number
  of used levels below; the others get -1, and the maximum is the last level.\<close>

theorem normalize_levels_correct:
  assumes "pool_wf p" "sp_servers p \<noteq> []"
    and "U = ns_level ` {s \<in> set (sp_servers p). norm_used (min_level p) s}"
  shows "map ns_normLevel (sp_servers (normalize_levels p)) =
      map (\<lambda>s. if norm_used (min_level p) s then int (card {l \<in> U. l < ns_level s}) else -1) (sp_servers p) \<and>
    sp_maxNormLevel (normalize_levels p) = int (card U) - 1 \<and>
    ns_normLevel ` {s \<in> set (sp_servers (normalize_levels p)). norm_used (min_level p) s} = {0..sp_maxNormLevel (normalize_levels p)}"
proof -
  note spec = normalize_levels_spec [OF assms(1,2), folded assms(3)]
  let ?f = "\<lambda>l. int (card {l' \<in> U. l' < l})" and ?S = "{s \<in> set (sp_servers p). norm_used (min_level p) s}"
  have fin: "finite U" by (simp add: assms(3))
  have "ns_normLevel ` {s \<in> set (sp_servers (normalize_levels p)). norm_used (min_level p) s} = ?f ` U"
  proof -
    let ?g = "\<lambda>s. s\<lparr>ns_normLevel := if norm_used (min_level p) s then ?f (ns_level s) else -1\<rparr>"
    have "{s \<in> set (map ?g (sp_servers p)). norm_used (min_level p) s} = ?g ` ?S" by auto
    then show ?thesis unfolding spec(1) by (simp add: assms(3) image_image)
  qed
  also have "\<dots> = int ` {..<card U}" using rank_onto [OF fin] by (metis image_image)
  also have "\<dots> = {0..sp_maxNormLevel (normalize_levels p)}"
    unfolding spec(2) lessThan_atLeast0 image_int_atLeastLessThan by auto
  finally show ?thesis using spec(1,2) by simp
qed

definition example_server :: "int \<Rightarrow> int \<Rightarrow> news_server" where
  "example_server i level = \<lparr>ns_id = i, ns_stateId = 0, ns_active = True, ns_name = ''s'', ns_host = ''h'', ns_port = 119,
     ns_ipVersion = 0, ns_user = [], ns_password = [], ns_joinGroup = False, ns_tls = False, ns_cipher = [],
     ns_maxConnections = 2, ns_retention = 0, ns_level = level, ns_normLevel = 0, ns_group = 0, ns_optional = False,
     ns_blockTime = 0\<rparr>"

definition empty_pool :: server_pool where
  "empty_pool = \<lparr>sp_servers = [], sp_sorted = [], sp_connections = [], sp_levels = [], sp_maxNormLevel = 0,
     sp_retryInterval = 10, sp_generation = 0\<rparr>"

definition example_pool :: server_pool where
  "example_pool = add_server (example_server 2 5) (add_server (example_server 1 0) empty_pool)"

lemma example_pool_wf: "pool_wf example_pool" "sp_servers example_pool = [example_server 1 0, example_server 2 5]"
  by (auto simp: pool_wf_def example_pool_def add_server_def empty_pool_def)

theorem normalize_levels_correct_witness:
  "map ns_normLevel (sp_servers (normalize_levels example_pool)) = [0, 1]"
proof -
  have U: "{s \<in> set (sp_servers example_pool). norm_used (min_level example_pool) s} =
      {example_server 1 0, example_server 2 5}"
    by (auto simp: example_pool_wf norm_used_def example_server_def)
  have "{l :: int. (l = 0 \<or> l = 5) \<and> l < 0} = {}" "{l :: int. (l = 0 \<or> l = 5) \<and> l < 5} = {0}" by auto
  then show ?thesis
    using normalize_levels_correct [OF example_pool_wf(1) _ refl] U
    by (simp add: example_pool_wf) (simp add: norm_used_def example_server_def)
qed

section \<open>The count of free connections\<close>

definition is_free :: "server_pool \<Rightarrow> int \<Rightarrow> pooled_connection \<Rightarrow> bool" where
  "is_free p l c \<longleftrightarrow> \<not> pc_inUse c \<and> ns_active (server_of p c) \<and> ns_normLevel (server_of p c) = l"

definition free_on :: "server_pool \<Rightarrow> int \<Rightarrow> int" where
  "free_on p l = sum_list (map (\<lambda>c. of_bool (is_free p l c)) (sp_connections p))"

text \<open>By how much the counter of a level exceeds the free connections of its active servers.\<close>

definition excess :: "server_pool \<Rightarrow> nat \<Rightarrow> int" where
  "excess p l = sp_levels p ! l - free_on p (int l)"

definition in_use_on :: "server_pool \<Rightarrow> int \<Rightarrow> int" where
  "in_use_on p l = sum_list (map (\<lambda>c. of_bool (pc_inUse c \<and> ns_active (server_of p c) \<and> ns_normLevel (server_of p c) = l))
     (sp_connections p))"

text \<open>Two pools that differ in block times only.\<close>

definition unblock :: "news_server \<Rightarrow> news_server" where
  "unblock s = s\<lparr>ns_blockTime := 0\<rparr>"

definition same_but_blocks :: "server_pool \<Rightarrow> server_pool \<Rightarrow> bool" where
  "same_but_blocks p q \<longleftrightarrow> map unblock (sp_servers p) = map unblock (sp_servers q) \<and>
     sp_connections p = sp_connections q \<and> sp_levels p = sp_levels q \<and> sp_sorted p = sp_sorted q \<and>
     sp_maxNormLevel p = sp_maxNormLevel q \<and> sp_retryInterval p = sp_retryInterval q"

lemma same_but_blocks_refl [simp]: "same_but_blocks p p"
  by (simp add: same_but_blocks_def)

lemma same_but_blocks_trans: "same_but_blocks p q \<Longrightarrow> same_but_blocks q r \<Longrightarrow> same_but_blocks p r"
  by (simp add: same_but_blocks_def)

lemma unblock_fields:
  "unblock s = unblock t \<Longrightarrow> ns_active s = ns_active t \<and> ns_normLevel s = ns_normLevel t \<and> ns_group s = ns_group t \<and>
     ns_optional s = ns_optional t"
  by (cases s; cases t) (simp add: unblock_def)

lemma same_but_blocks_server:
  assumes "same_but_blocks p q" "i < length (sp_servers p)"
  shows "ns_active (sp_servers p ! i) = ns_active (sp_servers q ! i)"
    "ns_normLevel (sp_servers p ! i) = ns_normLevel (sp_servers q ! i)"
    "ns_group (sp_servers p ! i) = ns_group (sp_servers q ! i)"
    "ns_optional (sp_servers p ! i) = ns_optional (sp_servers q ! i)"
    "length (sp_servers p) = length (sp_servers q)"
proof -
  have m: "map unblock (sp_servers p) = map unblock (sp_servers q)" using assms(1) by (simp add: same_but_blocks_def)
  then show l: "length (sp_servers p) = length (sp_servers q)" by (rule map_eq_imp_length_eq)
  have "unblock (sp_servers p ! i) = unblock (sp_servers q ! i)"
    using m assms(2) l by (metis nth_map)
  from unblock_fields [OF this] show "ns_active (sp_servers p ! i) = ns_active (sp_servers q ! i)"
    "ns_normLevel (sp_servers p ! i) = ns_normLevel (sp_servers q ! i)"
    "ns_group (sp_servers p ! i) = ns_group (sp_servers q ! i)"
    "ns_optional (sp_servers p ! i) = ns_optional (sp_servers q ! i)" by simp_all
qed

lemma same_but_blocks_length: "same_but_blocks p q \<Longrightarrow> length (sp_servers p) = length (sp_servers q)"
  unfolding same_but_blocks_def by (metis map_eq_imp_length_eq)

lemma same_but_blocks_update:
  assumes "unblock s = unblock (sp_servers p ! i)"
  shows "same_but_blocks (p\<lparr>sp_servers := (sp_servers p)[i := s]\<rparr>) p"
proof (cases "i < length (sp_servers p)")
  case True
  then have "(map unblock (sp_servers p))[i := unblock s] = map unblock (sp_servers p)"
    using assms by (metis list_update_id nth_map)
  then show ?thesis by (simp add: same_but_blocks_def map_update)
qed (simp add: same_but_blocks_def list_update_beyond)

lemma same_but_blocks_wf: "same_but_blocks p q \<Longrightarrow> pool_wf p \<longleftrightarrow> pool_wf q"
  unfolding same_but_blocks_def pool_wf_def by (metis map_eq_imp_length_eq)

lemma same_but_blocks_free:
  assumes "same_but_blocks p q" "pool_wf p"
  shows "free_on p l = free_on q l" "in_use_on p l = in_use_on q l" "excess p = excess q"
proof -
  have c: "sp_connections p = sp_connections q" using assms(1) by (simp add: same_but_blocks_def)
  have w: "c \<in> set (sp_connections p) \<Longrightarrow> pc_server c < length (sp_servers p)" for c
    using assms(2) by (simp add: pool_wf_def list_all_iff)
  then have f: "free_on p l = free_on q l" for l
    using same_but_blocks_server(1,2) [OF assms(1)] unfolding free_on_def is_free_def c
    by (intro arg_cong [of _ _ sum_list] map_cong) (simp_all add: c)
  then show "free_on p l = free_on q l" .
  show "in_use_on p l = in_use_on q l"
    using w same_but_blocks_server(1,2) [OF assms(1)] unfolding in_use_on_def c
    by (intro arg_cong [of _ _ sum_list] map_cong) (simp_all add: c)
  show "excess p = excess q" using f assms(1) by (simp add: excess_def same_but_blocks_def fun_eq_iff)
qed

text \<open>Every server's level has a counter.\<close>

definition pool_ok :: "server_pool \<Rightarrow> bool" where
  "pool_ok p \<longleftrightarrow> pool_wf p \<and> list_all (\<lambda>s. ns_normLevel s < int (length (sp_levels p))) (sp_servers p)"

lemma same_but_blocks_ok:
  assumes "same_but_blocks p q"
  shows "pool_ok p \<longleftrightarrow> pool_ok q"
proof -
  have "list_all (\<lambda>s. ns_normLevel s < n) (sp_servers p) \<longleftrightarrow> list_all (\<lambda>s. ns_normLevel s < n) (sp_servers q)" for n
    using same_but_blocks_server(2) [OF assms] same_but_blocks_length [OF assms] unfolding list_all_length by metis
  moreover have "sp_levels p = sp_levels q" using assms by (simp add: same_but_blocks_def)
  ultimately show ?thesis using same_but_blocks_wf [OF assms] by (simp add: pool_ok_def)
qed

subsection \<open>Taking a connection\<close>

definition handles_ok :: "server_pool \<Rightarrow> nat option \<Rightarrow> nat list \<Rightarrow> bool" where
  "handles_ok p want ign \<longleftrightarrow> list_all (\<lambda>i. i < length (sp_servers p)) ign \<and>
     (case want of None \<Rightarrow> True | Some w \<Rightarrow> w < length (sp_servers p))"

definition wanted :: "server_pool \<Rightarrow> nat option \<Rightarrow> nat \<Rightarrow> bool" where
  "wanted p want s \<longleftrightarrow> (case want of None \<Rightarrow> True | Some w \<Rightarrow> s = w \<or> same_group (sp_servers p ! w) (sp_servers p ! s))"

lemma candidate_ok_alt:
  "candidate_ok now level want p c \<longleftrightarrow> is_free p level c \<and> wanted p want (pc_server c) \<and>
     (pc_status c = csConnected \<or> \<not> is_server_blocked now (sp_retryInterval p) (server_of p c))"
  by (auto simp: candidate_ok_def is_free_def wanted_def)

lemma same_but_blocks_handles:
  assumes "same_but_blocks q p" "handles_ok p want ign" "s < length (sp_servers p)"
  shows "ignored q want ign s = ignored p want ign s" "wanted q want s = wanted p want s"
    "handles_ok q want ign"
proof -
  note len = same_but_blocks_length [OF assms(1)] 
  have f: "i < length (sp_servers p) \<Longrightarrow> ns_normLevel (sp_servers q ! i) = ns_normLevel (sp_servers p ! i) \<and>
      ns_group (sp_servers q ! i) = ns_group (sp_servers p ! i)" for i
    using same_but_blocks_server(2,3) [OF assms(1)] len by simp
  have g: "g \<in> set ign \<Longrightarrow> g < length (sp_servers p)" for g
    using assms(2) by (simp add: handles_ok_def list_all_iff)
  have "(g = s \<or> same_group (sp_servers q ! g) (sp_servers q ! s) \<and>
        ns_normLevel (sp_servers q ! g) = ns_normLevel (sp_servers q ! s)) \<longleftrightarrow>
      (g = s \<or> same_group (sp_servers p ! g) (sp_servers p ! s) \<and>
        ns_normLevel (sp_servers p ! g) = ns_normLevel (sp_servers p ! s))" if "g \<in> set ign" for g
    using f [OF g [OF that]] f [OF assms(3)] by (simp add: same_group_def)
  then show "ignored q want ign s = ignored p want ign s"
    unfolding ignored_def list_ex_iff by blast
  show "wanted q want s = wanted p want s"
    using f assms(2,3) by (cases want) (simp_all add: wanted_def handles_ok_def same_group_def)
  show "handles_ok q want ign" using assms(2) len by (cases want) (simp_all add: handles_ok_def)
qed

text \<open>Whether connection \<open>j\<close> below \<open>n\<close> is a free connected one of server \<open>i\<close>.\<close>

definition open_conn :: "server_pool \<Rightarrow> int \<Rightarrow> nat \<Rightarrow> nat \<Rightarrow> bool" where
  "open_conn p level n i \<longleftrightarrow> (\<exists>j < n. is_free p level (sp_connections p ! j) \<and>
     pc_server (sp_connections p ! j) = i \<and> pc_status (sp_connections p ! j) = csConnected)"

abbreviation blocked_at :: "int \<Rightarrow> server_pool \<Rightarrow> nat \<Rightarrow> bool" where
  "blocked_at now p i \<equiv> is_server_blocked now (sp_retryInterval p) (sp_servers p ! i)"

lemma candidate_steps_spec:
  assumes "pool_wf p" "handles_ok p want ign" "n \<le> length (sp_connections p)"
    and "foldl (\<lambda>st k. candidate_step now level want ign k st) (p, []) [0..<n] = (q, cs)"
  shows "same_but_blocks q p \<and>
    (\<forall>i < length (sp_servers p). sp_servers q ! i = sp_servers p ! i \<or>
       (ns_blockTime (sp_servers q ! i) = 0 \<and> (\<not> blocked_at now p i \<or> open_conn p level n i))) \<and>
    (\<forall>k \<in> set cs. k < n \<and> is_free p level (sp_connections p ! k) \<and>
       wanted p want (pc_server (sp_connections p ! k)) \<and> \<not> ignored p want ign (pc_server (sp_connections p ! k)) \<and>
       (\<not> blocked_at now p (pc_server (sp_connections p ! k)) \<or> open_conn p level n (pc_server (sp_connections p ! k)))) \<and>
    (\<forall>k < n. candidate_ok now level want p (sp_connections p ! k) \<and>
       \<not> ignored p want ign (pc_server (sp_connections p ! k)) \<longrightarrow> k \<in> set cs)"
  using assms(3,4)
proof (induction n arbitrary: q cs)
  case 0
  then show ?case by simp
next
  case (Suc n)
  obtain q1 cs1 where 1: "foldl (\<lambda>st k. candidate_step now level want ign k st) (p, []) [0..<n] = (q1, cs1)" by fastforce
  have step: "candidate_step now level want ign n (q1, cs1) = (q, cs)" using Suc.prems(2) 1 by simp
  note IH = Suc.IH [OF _ 1]
  have n: "n \<le> length (sp_connections p)" "n < length (sp_connections p)" using Suc.prems(1) by simp_all
  have sb: "same_but_blocks q1 p" using IH n by blast
  let ?c = "sp_connections p ! n"
  let ?i = "pc_server ?c"
  have conn: "sp_connections q1 = sp_connections p" "sp_retryInterval q1 = sp_retryInterval p"
    using sb by (simp_all add: same_but_blocks_def)
  have i: "?i < length (sp_servers p)" using assms(1) n by (simp add: pool_wf_def list_all_length)
  have mono: "open_conn p level n j \<Longrightarrow> open_conn p level (Suc n) j" for j
    unfolding open_conn_def using less_SucI by blast
  have free: "is_free q1 level ?c = is_free p level ?c"
    using same_but_blocks_server(1,2) [OF sb, of ?i] same_but_blocks_length [OF sb] i unfolding is_free_def by metis
  note h = same_but_blocks_handles [OF sb assms(2) i]
  have blk: "is_server_blocked now (sp_retryInterval p) (sp_servers q1 ! ?i) \<Longrightarrow> blocked_at now p ?i"
    using IH [OF n(1)] i by (metis is_server_blocked_def)
  have blk2: "\<not> is_server_blocked now (sp_retryInterval p) (sp_servers q1 ! ?i) \<Longrightarrow>
      \<not> blocked_at now p ?i \<or> open_conn p level n ?i"
    using IH [OF n(1)] i by metis
  have cand: "candidate_ok now level want q1 ?c \<longleftrightarrow> is_free p level ?c \<and> wanted p want ?i \<and>
      (pc_status ?c = csConnected \<or> \<not> is_server_blocked now (sp_retryInterval p) (sp_servers q1 ! ?i))"
    by (simp add: candidate_ok_alt free h(2) conn)
  show ?case
  proof (cases "candidate_ok now level want q1 ?c")
    case False
    then have q: "q = q1" "cs = cs1" using step by (auto simp: candidate_step_def Let_def conn)
    have "\<not> candidate_ok now level want p ?c"
      using False [unfolded cand] blk unfolding candidate_ok_alt by blast
    then show ?thesis
      using IH [OF n(1)] mono unfolding q by (auto simp: less_Suc_eq)
  next
    case True
    then have q: "q = q1\<lparr>sp_servers := (sp_servers q1)[?i := (sp_servers q1 ! ?i)\<lparr>ns_blockTime := 0\<rparr>]\<rparr>"
      "cs = (if ignored p want ign ?i then cs1 else cs1 @ [n])"
      using step by (auto simp: candidate_step_def Let_def conn h(1) split: if_splits)
    have "same_but_blocks q q1" unfolding q by (rule same_but_blocks_update) (simp add: unblock_def)
    then have sb2: "same_but_blocks q p" using sb same_but_blocks_trans by blast
    have ok: "is_free p level ?c" "wanted p want ?i" "\<not> blocked_at now p ?i \<or> open_conn p level (Suc n) ?i"
      using True blk2 mono unfolding cand by (auto simp: open_conn_def)
    have len: "length (sp_servers q1) = length (sp_servers p)" using sb by (rule same_but_blocks_length)
    have srv: "\<forall>i < length (sp_servers p). sp_servers q ! i = sp_servers p ! i \<or>
       (ns_blockTime (sp_servers q ! i) = 0 \<and> (\<not> blocked_at now p i \<or> open_conn p level (Suc n) i))"
      using IH [OF n(1)] ok(3) mono i len unfolding q(1)
      by (auto simp: nth_list_update)
    show ?thesis
      using IH [OF n(1)] sb2 srv ok mono unfolding q(2) by (auto simp: less_Suc_eq)
  qed
qed

lemma free_on_update:
  assumes "k < length (sp_connections p)"
  shows "free_on (p\<lparr>sp_connections := (sp_connections p)[k := c]\<rparr>) l =
    free_on p l - of_bool (is_free p l (sp_connections p ! k)) + of_bool (is_free p l c)"
  using sum_list_update_int [OF assms, of "\<lambda>c. of_bool (is_free p l c)" c]
  by (simp add: free_on_def is_free_def)

lemma free_on_levels [simp]:
  "free_on (p\<lparr>sp_levels := ls\<rparr>) l = free_on p l" "free_on (p\<lparr>sp_generation := g\<rparr>) l = free_on p l"
  by (simp_all add: free_on_def is_free_def)

text \<open>What a successful or failed search on one level means.\<close>

lemma locked_get_spec:
  assumes "pool_ok p" "handles_ok p want ign" "0 \<le> level"
    and "locked_get_connection now random level want ign p = (q, r)"
  shows "pool_ok q" "length (sp_levels q) = length (sp_levels p)" "sp_retryInterval q = sp_retryInterval p"
    "excess q = excess p" "map unblock (sp_servers q) = map unblock (sp_servers p)"
    "\<forall>i < length (sp_servers p). sp_servers q ! i = sp_servers p ! i \<or> ns_blockTime (sp_servers q ! i) = 0"
    "r = Some k \<Longrightarrow> k < length (sp_connections p) \<and> is_free p level (sp_connections p ! k) \<and>
       wanted p want (pc_server (sp_connections p ! k)) \<and> \<not> ignored p want ign (pc_server (sp_connections p ! k)) \<and>
       (\<not> blocked_at now p (pc_server (sp_connections p ! k)) \<or>
          open_conn p level (length (sp_connections p)) (pc_server (sp_connections p ! k))) \<and>
       sp_connections q = (sp_connections p)[k := (sp_connections p ! k)\<lparr>pc_inUse := True\<rparr>]"
    "r = None \<Longrightarrow> same_but_blocks q p \<and> (nat level < length (sp_levels p) \<and> sp_levels p ! nat level \<noteq> 0 \<longrightarrow>
       (\<forall>k < length (sp_connections p). \<not> (candidate_ok now level want p (sp_connections p ! k) \<and>
         \<not> ignored p want ign (pc_server (sp_connections p ! k)))))"
proof -
  obtain p1 cs where f: "foldl (\<lambda>st k. candidate_step now level want ign k st) (p, []) [0..<length (sp_connections p)] = (p1, cs)"
    by fastforce
  have wf: "pool_wf p" using assms(1) by (simp add: pool_ok_def)
  note spec = candidate_steps_spec [OF wf assms(2) order_refl f]
  have sb: "same_but_blocks p1 p" using spec by blast
  let ?stop = "level \<ge> int (length (sp_levels p)) \<or> sp_levels p ! nat level = 0"
  consider (stop) "?stop" "q = p" "r = None" | (none) "\<not> ?stop" "cs = []" "q = p1" "r = None"
    | (some) k where "\<not> ?stop" "k \<in> set cs" "r = Some k"
      "q = p1\<lparr>sp_connections := (sp_connections p1)[k := (sp_connections p1 ! k)\<lparr>pc_inUse := True\<rparr>],
              sp_levels := (sp_levels p1)[nat level := sp_levels p1 ! nat level - 1]\<rparr>"
  proof (cases ?stop)
    case True
    then show ?thesis using stop assms(4) by (simp add: locked_get_connection_def)
  next
    case False
    show ?thesis
    proof (cases "cs = []")
      case True
      then show ?thesis using none False assms(4) f by (auto simp: locked_get_connection_def)
    next
      case ne: False
      then have "cs ! (random mod length cs) \<in> set cs" by simp
      from some [OF False this] show ?thesis
        using False ne assms(4) f by (auto simp: locked_get_connection_def Let_def)
    qed
  qed
  then have "pool_ok q \<and> length (sp_levels q) = length (sp_levels p) \<and> sp_retryInterval q = sp_retryInterval p \<and>
      excess q = excess p \<and> map unblock (sp_servers q) = map unblock (sp_servers p) \<and>
    (\<forall>i < length (sp_servers p). sp_servers q ! i = sp_servers p ! i \<or> ns_blockTime (sp_servers q ! i) = 0) \<and>
    (\<forall>k. r = Some k \<longrightarrow> k < length (sp_connections p) \<and> is_free p level (sp_connections p ! k) \<and>
       wanted p want (pc_server (sp_connections p ! k)) \<and> \<not> ignored p want ign (pc_server (sp_connections p ! k)) \<and>
       (\<not> blocked_at now p (pc_server (sp_connections p ! k)) \<or>
          open_conn p level (length (sp_connections p)) (pc_server (sp_connections p ! k))) \<and>
       sp_connections q = (sp_connections p)[k := (sp_connections p ! k)\<lparr>pc_inUse := True\<rparr>]) \<and>
    (r = None \<longrightarrow> same_but_blocks q p \<and> (nat level < length (sp_levels p) \<and> sp_levels p ! nat level \<noteq> 0 \<longrightarrow>
       (\<forall>k < length (sp_connections p). \<not> (candidate_ok now level want p (sp_connections p ! k) \<and>
         \<not> ignored p want ign (pc_server (sp_connections p ! k))))))"
  proof cases
    case stop
    then show ?thesis using assms(1,3) by (auto simp: nat_less_iff)
  next
    case none
    have "excess p1 = excess p" using same_but_blocks_free(3) [OF sb] same_but_blocks_wf [OF sb] wf by simp
    moreover have "pool_ok p1" using same_but_blocks_ok [OF sb] assms(1) by simp
    ultimately show ?thesis using none spec sb by (auto simp: same_but_blocks_def)
  next
    case (some k)
    have k: "k < length (sp_connections p)" "is_free p level (sp_connections p ! k)" using some spec by auto
    have conn: "sp_connections p1 = sp_connections p" "sp_levels p1 = sp_levels p" "sp_sorted p1 = sp_sorted p"
      using sb by (simp_all add: same_but_blocks_def)
    have ok1: "pool_ok p1" using same_but_blocks_ok [OF sb] assms(1) by simp
    let ?c = "(sp_connections p ! k)\<lparr>pc_inUse := True\<rparr>"
    have srv: "pc_server (sp_connections p ! k) < length (sp_servers p1)"
      using ok1 k conn by (simp add: pool_ok_def pool_wf_def list_all_length)
    have "pool_ok q" using ok1 srv k unfolding some(4)
      by (simp add: pool_ok_def pool_wf_def conn list_all_iff) (auto dest!: set_update_subset_insert [THEN subsetD])
    moreover have "excess q l = excess p l" for l
    proof -
      have wf1: "pool_wf p1" using ok1 by (simp add: pool_ok_def)
      have "is_free p1 m c = is_free p m c" if "c \<in> set (sp_connections p)" for m c
        using same_but_blocks_server(1,2) [OF sb] wf1 that conn
        by (simp add: is_free_def pool_wf_def list_all_iff)
      from this [OF nth_mem [OF k(1)]] have "is_free p1 m (sp_connections p ! k) = (m = level)" for m
        using k(2) by (simp only: is_free_def) auto
      moreover have "\<not> is_free p1 m ?c" for m by (simp add: is_free_def)
      ultimately have "free_on q m = free_on p1 m - of_bool (m = level)" for m
        unfolding some(4) using free_on_update [of k p1 ?c m] k(1) by (simp add: conn)
      moreover have "excess p1 l = excess p l" using same_but_blocks_free(3) [OF sb wf1] by simp
      ultimately show ?thesis
        using some(1) assms(3) by (auto simp: excess_def some(4) conn nth_list_update nat_less_iff)
    qed
    moreover have "map unblock (sp_servers q) = map unblock (sp_servers p)"
      using sb by (simp add: some(4) same_but_blocks_def)
    moreover have "sp_retryInterval q = sp_retryInterval p" using sb by (simp add: some(4) same_but_blocks_def)
    ultimately show ?thesis using some spec by (auto simp: conn)
  qed
  then show "pool_ok q" "length (sp_levels q) = length (sp_levels p)" "sp_retryInterval q = sp_retryInterval p"
    "excess q = excess p" "map unblock (sp_servers q) = map unblock (sp_servers p)"
    "\<forall>i < length (sp_servers p). sp_servers q ! i = sp_servers p ! i \<or> ns_blockTime (sp_servers q ! i) = 0"
    "r = Some k \<Longrightarrow> k < length (sp_connections p) \<and> is_free p level (sp_connections p ! k) \<and>
       wanted p want (pc_server (sp_connections p ! k)) \<and> \<not> ignored p want ign (pc_server (sp_connections p ! k)) \<and>
       (\<not> blocked_at now p (pc_server (sp_connections p ! k)) \<or>
          open_conn p level (length (sp_connections p)) (pc_server (sp_connections p ! k))) \<and>
       sp_connections q = (sp_connections p)[k := (sp_connections p ! k)\<lparr>pc_inUse := True\<rparr>]"
    "r = None \<Longrightarrow> same_but_blocks q p \<and> (nat level < length (sp_levels p) \<and> sp_levels p ! nat level \<noteq> 0 \<longrightarrow>
       (\<forall>k < length (sp_connections p). \<not> (candidate_ok now level want p (sp_connections p ! k) \<and>
         \<not> ignored p want ign (pc_server (sp_connections p ! k)))))"
    by blast+
qed

subsection \<open>The operations on the counters\<close>

text \<open>A search on one level returns a connection that is free, of an active server of that level,
  of the wanted server or its group, of no ignored server or group, and not of a blocked server
  unless that server has another open connection. It returns none only when no connection
  qualifies, provided the counter does not understate the free connections.\<close>

theorem locked_get_connection_correct:
  assumes "pool_ok p" "handles_ok p want ign" "level < length (sp_levels p)" "excess p level \<ge> 0"
    and "locked_get_connection now random (int level) want ign p = (q, r)"
  shows "(case r of
      Some k \<Rightarrow> k < length (sp_connections p) \<and> is_free p (int level) (sp_connections p ! k) \<and>
        wanted p want (pc_server (sp_connections p ! k)) \<and> \<not> ignored p want ign (pc_server (sp_connections p ! k)) \<and>
        (\<not> blocked_at now p (pc_server (sp_connections p ! k)) \<or>
           open_conn p (int level) (length (sp_connections p)) (pc_server (sp_connections p ! k)))
    | None \<Rightarrow> \<not> list_ex (\<lambda>c. candidate_ok now (int level) want p c \<and> \<not> ignored p want ign (pc_server c)) (sp_connections p))"
proof (cases r)
  case (Some k)
  then show ?thesis using locked_get_spec(7) [OF assms(1,2) _ assms(5)] by simp
next
  case None
  have "\<not> candidate_ok now (int level) want p c" if z: "sp_levels p ! level = 0" and c: "c \<in> set (sp_connections p)" for c
  proof
    assume "candidate_ok now (int level) want p c"
    then have "is_free p (int level) c" by (simp add: candidate_ok_alt)
    moreover have "of_bool (is_free p (int level) c) \<le> free_on p (int level)"
      unfolding free_on_def using c by (intro member_le_sum_list) auto
    ultimately show False using assms(4) z by (simp add: excess_def)
  qed
  moreover have "same_but_blocks q p \<and> (sp_levels p ! level \<noteq> 0 \<longrightarrow>
      (\<forall>k < length (sp_connections p). \<not> (candidate_ok now (int level) want p (sp_connections p ! k) \<and>
         \<not> ignored p want ign (pc_server (sp_connections p ! k)))))"
    using locked_get_spec(8) [OF assms(1,2) _ assms(5) None] assms(3) by simp
  ultimately show ?thesis using None by (auto simp: list_ex_iff in_set_conv_nth)
qed

text \<open>The optional servers that let the search pass a level.\<close>

definition passable :: "int \<Rightarrow> server_pool \<Rightarrow> int \<Rightarrow> bool" where
  "passable now p level \<longleftrightarrow> list_all (\<lambda>s. ns_normLevel s = level \<and> ns_active s \<longrightarrow>
     ns_optional s \<and> is_server_blocked now (sp_retryInterval p) s) (sp_servers p)"

lemma not_holds_passable:
  assumes "pool_wf p" "same_but_blocks q p" "\<not> holds_level now q level"
    and "\<forall>i < length (sp_servers p). sp_servers q ! i = sp_servers p ! i \<or> ns_blockTime (sp_servers q ! i) = 0"
  shows "passable now p level"
  unfolding passable_def list_all_length
proof (intro allI impI)
  fix i
  assume i: "i < length (sp_servers p)" "ns_normLevel (sp_servers p ! i) = level \<and> ns_active (sp_servers p ! i)"
  have len: "i < length (sp_servers q)" using same_but_blocks_length [OF assms(2)] i by simp
  note f = same_but_blocks_server [OF assms(2) len]
  have "i \<in> set (sp_sorted q)" using assms(1,2) i by (simp add: pool_wf_def same_but_blocks_def)
  then have "ns_optional (sp_servers q ! i) \<and> is_server_blocked now (sp_retryInterval q) (sp_servers q ! i)"
    using assms(3) i f by (auto simp: holds_level_def list_ex_iff Let_def)
  moreover have "sp_retryInterval q = sp_retryInterval p" using assms(2) by (simp add: same_but_blocks_def)
  ultimately show "ns_optional (sp_servers p ! i) \<and> is_server_blocked now (sp_retryInterval p) (sp_servers p ! i)"
    using assms(4) i f by (metis is_server_blocked_def)
qed

lemma passable_back:
  assumes "passable now q level" "same_but_blocks q p"
    and "\<forall>i < length (sp_servers p). sp_servers q ! i = sp_servers p ! i \<or> ns_blockTime (sp_servers q ! i) = 0"
  shows "passable now p level"
  unfolding passable_def list_all_length
proof (intro allI impI)
  fix i
  assume i: "i < length (sp_servers p)" "ns_normLevel (sp_servers p ! i) = level \<and> ns_active (sp_servers p ! i)"
  have len: "i < length (sp_servers q)" using same_but_blocks_length [OF assms(2)] i by simp
  note f = same_but_blocks_server [OF assms(2) len]
  have "ns_optional (sp_servers q ! i) \<and> is_server_blocked now (sp_retryInterval q) (sp_servers q ! i)"
    using assms(1) i f len by (auto simp: passable_def list_all_length)
  moreover have "sp_retryInterval q = sp_retryInterval p" using assms(2) by (simp add: same_but_blocks_def)
  ultimately show "ns_optional (sp_servers p ! i) \<and> is_server_blocked now (sp_retryInterval p) (sp_servers p ! i)"
    using assms(3) i f by (metis is_server_blocked_def)
qed

lemma get_connection_spec:
  assumes "pool_ok p" "handles_ok p want ign" "get_connection now random level want ign p = (q, r)"
  shows "pool_ok q \<and> excess q = excess p \<and> length (sp_levels q) = length (sp_levels p) \<and>
    (\<forall>k. r = Some k \<longrightarrow> k < length (sp_connections p) \<and>
       (\<exists>l \<ge> level. is_free p (int l) (sp_connections p ! k) \<and>
         wanted p want (pc_server (sp_connections p ! k)) \<and> \<not> ignored p want ign (pc_server (sp_connections p ! k)) \<and>
         (\<forall>m. level \<le> m \<and> m < l \<longrightarrow> passable now p (int m))))"
  using assms
proof (induction now random level want ign p arbitrary: q r rule: get_connection.induct)
  case (1 now random level want ign p)
  show ?case
  proof (cases "level < length (sp_levels p) \<and> sp_levels p ! level > 0")
    case False
    then have "q = p" "r = None" using 1(4) by (subst (asm) get_connection.simps, auto)+
    then show ?thesis using 1(2) by simp
  next
    case True
    obtain p1 r1 where l: "locked_get_connection now random (int level) want ign p = (p1, r1)" by fastforce
    note spec = locked_get_spec [OF 1(2,3) _ l, simplified]
    have g: "get_connection now random level want ign p =
        (case r1 of Some k \<Rightarrow> (p1, Some k)
         | None \<Rightarrow> if holds_level now p1 (int level) then (p1, None)
                   else get_connection now random (Suc level) want ign p1)"
      using True l by (subst get_connection.simps) (simp split: option.split)
    show ?thesis
    proof (cases r1)
      case (Some k)
      then have "q = p1" "r = Some k" using g 1(4) by simp_all
      then show ?thesis using spec(1-4) spec(7) [OF Some] by (auto intro!: exI [of _ level])
    next
      case None
      then have sb: "same_but_blocks p1 p" using spec(8) by blast
      show ?thesis
      proof (cases "holds_level now p1 (int level)")
        case True
        then show ?thesis using g None 1(4) spec(1-4) by auto
      next
        case False
        have wf: "pool_wf p" using 1(2) by (simp add: pool_ok_def)
        have pass: "passable now p (int level)" using not_holds_passable [OF wf sb False spec(6)] .
        have h: "handles_ok p1 want ign"
          using 1(3) same_but_blocks_length [OF sb] by (cases want) (simp_all add: handles_ok_def)
        have "get_connection now random (Suc level) want ign p1 = (q, r)" using g None False 1(4) by simp
        from 1(1) [OF True l [symmetric] None False spec(1) h this]
        have IH: "pool_ok q" "excess q = excess p1" "length (sp_levels q) = length (sp_levels p1)"
          "\<And>k. r = Some k \<Longrightarrow> k < length (sp_connections p1) \<and>
            (\<exists>l \<ge> Suc level. is_free p1 (int l) (sp_connections p1 ! k) \<and>
              wanted p1 want (pc_server (sp_connections p1 ! k)) \<and> \<not> ignored p1 want ign (pc_server (sp_connections p1 ! k)) \<and>
              (\<forall>m. Suc level \<le> m \<and> m < l \<longrightarrow> passable now p1 (int m)))" by blast+
        have conn: "sp_connections p1 = sp_connections p" using sb by (simp add: same_but_blocks_def)
        have "k < length (sp_connections p) \<and> (\<exists>l \<ge> level. is_free p (int l) (sp_connections p ! k) \<and>
            wanted p want (pc_server (sp_connections p ! k)) \<and> \<not> ignored p want ign (pc_server (sp_connections p ! k)) \<and>
            (\<forall>m. level \<le> m \<and> m < l \<longrightarrow> passable now p (int m)))" if r: "r = Some k" for k
        proof -
          from IH(4) [OF r] obtain l where l: "k < length (sp_connections p)" "Suc level \<le> l"
            "is_free p1 (int l) (sp_connections p ! k)" "wanted p1 want (pc_server (sp_connections p ! k))"
            "\<not> ignored p1 want ign (pc_server (sp_connections p ! k))"
            "\<forall>m. Suc level \<le> m \<and> m < l \<longrightarrow> passable now p1 (int m)"
            unfolding conn by blast
          have i: "pc_server (sp_connections p ! k) < length (sp_servers p)"
            using wf l(1) by (simp add: pool_wf_def list_all_length)
          have "is_free p (int l) (sp_connections p ! k)"
            using l(3) same_but_blocks_server(1,2) [OF sb] i same_but_blocks_length [OF sb]
            unfolding is_free_def by metis
          moreover have "\<forall>m. level \<le> m \<and> m < l \<longrightarrow> passable now p (int m)"
            using l(6) pass passable_back [OF _ sb spec(6)] by (metis Suc_leI le_neq_implies_less)
          ultimately show ?thesis
            using l same_but_blocks_handles [OF sb 1(3) i] by (intro conjI exI [of _ l]) auto
        qed
        then show ?thesis using IH(1-3) spec(2,4) by simp
      qed
    qed
  qed
qed

lemma get_connection_servers:
  assumes "pool_ok p" "handles_ok p want ign" "get_connection now random level want ign p = (q, r)"
  shows "length (sp_servers q) = length (sp_servers p)"
  using assms
proof (induction now random level want ign p arbitrary: q r rule: get_connection.induct)
  case (1 now random level want ign p)
  obtain p1 r1 where l: "locked_get_connection now random (int level) want ign p = (p1, r1)" by fastforce
  note spec = locked_get_spec [OF 1(2,3) _ l, simplified]
  have len: "length (sp_servers p1) = length (sp_servers p)" using spec(5) by (rule map_eq_imp_length_eq)
  then have h: "handles_ok p1 want ign" using 1(3) by (cases want) (simp_all add: handles_ok_def)
  note IH = 1(1) [OF _ l [symmetric] _ _ spec(1) h]
  show ?case
    using 1(4) l len IH by (subst (asm) get_connection.simps) (auto split: if_splits option.splits)
qed

text \<open>C38: \<open>GetConnection\<close> hands out a free connection of an active server that is wanted and not ignored;
  it goes to a higher level only past levels whose active servers are all optional and blocked.
  Taking the connection keeps every level counter in step with the free connections.\<close>

theorem get_connection_correct:
  assumes "pool_ok p" "handles_ok p want ign" "get_connection now random level want ign p = (q, Some k)"
  shows "k < length (sp_connections p) \<and>
    (let s = server_of p (sp_connections p ! k); l = ns_normLevel s
     in \<not> pc_inUse (sp_connections p ! k) \<and> ns_active s \<and> int level \<le> l \<and>
        wanted p want (pc_server (sp_connections p ! k)) \<and> \<not> ignored p want ign (pc_server (sp_connections p ! k)) \<and>
        list_all (passable now p) [int level..l - 1]) \<and>
    excess q = excess p"
proof -
  from get_connection_spec [OF assms] obtain l where l: "k < length (sp_connections p)" "l \<ge> level"
    "is_free p (int l) (sp_connections p ! k)" "wanted p want (pc_server (sp_connections p ! k))"
    "\<not> ignored p want ign (pc_server (sp_connections p ! k))"
    "\<forall>m. level \<le> m \<and> m < l \<longrightarrow> passable now p (int m)" "excess q = excess p" by blast
  have "passable now p m" if "int level \<le> m" "m \<le> int l - 1" for m
    using l(6) [rule_format, of "nat m"] that by (simp add: nat_less_iff le_nat_iff)
  then show ?thesis using l by (auto simp: is_free_def Let_def list_all_iff)
qed

lemma free_connection_excess:
  assumes "pool_ok p" "k < length (sp_connections p)" "pc_inUse (sp_connections p ! k)" "l < length (sp_levels p)"
  shows "excess (free_connection now used k p) l = excess p l \<and> excess (block_server now i p) l = excess p l"
proof
  let ?c0 = "sp_connections p ! k"
  let ?c = "if used then ?c0\<lparr>pc_inUse := False, pc_freeTime := now\<rparr> else ?c0\<lparr>pc_inUse := False\<rparr>"
  let ?s = "server_of p ?c0"
  have s: "pc_server ?c0 < length (sp_servers p)" "ns_normLevel ?s < int (length (sp_levels p))"
    using assms(1,2) by (simp_all add: pool_ok_def pool_wf_def list_all_length)
  have f: "free_on (p\<lparr>sp_connections := (sp_connections p)[k := ?c]\<rparr>) (int l) =
      free_on p (int l) + of_bool (ns_active ?s \<and> ns_normLevel ?s = int l)"
    using free_on_update [OF assms(2), of ?c "int l"] assms(3) by (simp add: is_free_def)
  have e: "free_connection now used k p =
      (let p1 = p\<lparr>sp_connections := (sp_connections p)[k := ?c]\<rparr>
       in if ns_normLevel ?s > -1 \<and> ns_active ?s
          then p1\<lparr>sp_levels := (sp_levels p)[nat (ns_normLevel ?s) := sp_levels p ! nat (ns_normLevel ?s) + 1]\<rparr> else p1)"
    by (simp add: free_connection_def Let_def)
  show "excess (free_connection now used k p) l = excess p l"
    using f s(2) assms(4) unfolding e by (auto simp: excess_def Let_def nth_list_update)
  have "same_but_blocks (block_server now i p) p"
    unfolding block_server_def by (rule same_but_blocks_update) (simp add: unblock_def)
  then show "excess (block_server now i p) l = excess p l"
    using same_but_blocks_free(3) same_but_blocks_wf assms(1) by (metis pool_ok_def)
qed

text \<open>Returning a connection keeps every level counter in step with the free connections; so does
  blocking a server.\<close>

theorem free_connection_keeps_counts:
  assumes "pool_ok p" "k < length (sp_connections p)" "pc_inUse (sp_connections p ! k)" "l < length (sp_levels p)"
  shows "excess (free_connection now used k p) l = excess p l \<and> excess (block_server now i p) l = excess p l"
  by (rule free_connection_excess [OF assms])

section \<open>Initialising the connections\<close>

definition count_on :: "server_pool \<Rightarrow> nat set \<Rightarrow> int \<Rightarrow> int" where
  "count_on p A l = sum_list (map (\<lambda>c. of_bool (pc_server c \<in> A \<and> ns_active (server_of p c) \<and> ns_normLevel (server_of p c) = l))
     (sp_connections p))"

lemma sum_list_of_bool_length: "sum_list (map (\<lambda>c. of_bool (P c)) xs) = (int (length (filter P xs)))"
  by (induction xs) auto

text \<open>The levels after a prefix of the sorted servers: one counter per used level.\<close>

definition used_prefix :: "server_pool \<Rightarrow> nat list \<Rightarrow> int set" where
  "used_prefix p is = (\<lambda>i. ns_level (sp_servers p ! i)) ` {i \<in> set is. norm_used (min_level p) (sp_servers p ! i)}"

lemma count_split:
  "(\<And>c. P c \<longleftrightarrow> Q c \<or> R c) \<Longrightarrow> (\<And>c. \<not> (Q c \<and> R c)) \<Longrightarrow>
   sum_list (map (\<lambda>c. of_bool (P c)) cs) = sum_list (map (\<lambda>c. of_bool (Q c)) cs) + (sum_list (map (\<lambda>c. of_bool (R c)) cs) :: int)"
  by (induction cs) auto

lemma count_on_init_server:
  assumes "i \<notin> A" "servers' = (sp_servers q)[i := s]" "i < length (sp_servers q)"
    and "ns_active s = ns_active (sp_servers q ! i)" "ns_normLevel s = ns_normLevel (sp_servers q ! i)"
    and "sp_servers q' = servers'" "sp_connections q' = sp_connections q @ replicate m (new_connection i)"
  shows "count_on q' (insert i A) l = count_on q A l +
    (if ns_active s \<and> ns_normLevel s = l
     then int (length (filter (\<lambda>c. pc_server c = i) (sp_connections q)) + m) else 0)"
proof -
  have act: "ns_active (sp_servers q' ! j) = ns_active (sp_servers q ! j)"
    "ns_normLevel (sp_servers q' ! j) = ns_normLevel (sp_servers q ! j)" for j
    using assms by (auto simp: nth_list_update)
  let ?on = "\<lambda>j. ns_active (sp_servers q ! j) \<and> ns_normLevel (sp_servers q ! j) = l"
  have "sum_list (map (\<lambda>c. of_bool (pc_server c \<in> insert i A \<and> ?on (pc_server c))) cs) =
      sum_list (map (\<lambda>c. of_bool (pc_server c \<in> A \<and> ?on (pc_server c))) cs) +
      (sum_list (map (\<lambda>c. of_bool (pc_server c = i \<and> ?on i)) cs) :: int)" for cs
    using assms(1) by (intro count_split) auto
  also have "(sum_list (map (\<lambda>c. of_bool (pc_server c = i \<and> ?on i)) cs) :: int) =
      (if ?on i then int (length (filter (\<lambda>c. pc_server c = i) cs)) else 0)" for cs
    by (simp add: sum_list_of_bool_length)
  finally have F: "sum_list (map (\<lambda>c. of_bool (pc_server c \<in> insert i A \<and> ?on (pc_server c))) cs) =
      sum_list (map (\<lambda>c. of_bool (pc_server c \<in> A \<and> ?on (pc_server c))) cs) +
      (if ?on i then int (length (filter (\<lambda>c. pc_server c = i) cs)) else 0)" for cs .
  have new: "pc_server (new_connection i) = i" by (simp add: new_connection_def)
  have z: "sum_list (map (\<lambda>c. of_bool (pc_server c \<in> A \<and> ?on (pc_server c))) (replicate m (new_connection i))) = (0::int)"
    using assms(1) by (simp add: new sum_list_replicate)
  show ?thesis
    unfolding count_on_def act assms(7) F using z assms(4,5) by (simp add: new)
qed

lemma init_fold:
  fixes p :: server_pool
  defines "p0 \<equiv> (normalize_levels p)\<lparr>sp_levels := []\<rparr>"
  assumes wf: "pool_wf p" "sp_servers p \<noteq> []" and pre: "sp_sorted p0 = is @ rest"
  shows "let q = foldl (\<lambda>p i. init_server i p) p0 is in
    sp_servers q = map (\<lambda>i. if i \<in> set is then unblock (sp_servers p0 ! i) else sp_servers p0 ! i) [0..<length (sp_servers p)] \<and>
    sp_sorted q = sp_sorted p0 \<and> sp_maxNormLevel q = sp_maxNormLevel p0 \<and>
    (\<exists>new. sp_connections q = sp_connections p @ new \<and> list_all (\<lambda>c. \<not> pc_inUse c \<and> pc_server c \<in> set is) new) \<and>
    length (sp_levels q) = card (used_prefix p is) \<and>
    (\<forall>j \<in> set is. ns_normLevel (sp_servers p0 ! j) < int (card (used_prefix p is))) \<and>
    (\<forall>l < length (sp_levels q). sp_levels q ! l = count_on q (set is) (int l))"
  using pre
proof (induction "is" arbitrary: rest rule: rev_induct)
  case Nil
  have "sp_connections p0 = sp_connections p" "length (sp_servers p0) = length (sp_servers p)" "sp_levels p0 = []"
    using normalize_levels_spec(7) [OF wf] normalize_levels_spec(1) [OF wf] by (simp_all add: p0_def)
  then show ?case using map_nth [of "sp_servers p0"] by (simp add: used_prefix_def)
next
  case (snoc i "is")
  note norm = normalize_levels_spec [OF wf]
  define q where "q = foldl (\<lambda>p i. init_server i p) p0 is"
  let ?U = "ns_level ` {s \<in> set (sp_servers p). norm_used (min_level p) s}"
  let ?lev = "\<lambda>i. ns_level (sp_servers p ! i)"
  have srt: "sp_sorted p0 = is @ i # rest" using snoc.prems by simp
  have sset: "set (sp_sorted p0) = {0..<length (sp_servers p)}" "distinct (sp_sorted p0)"
    using norm(4,5) wf(1) by (simp_all add: p0_def pool_wf_def)
  have i: "i < length (sp_servers p)" "i \<notin> set is" using sset srt by auto
  have so: "sorted (map ?lev (is @ i # rest))" using norm(6) srt by (simp add: p0_def)
  from snoc.IH [OF srt, folded q_def] obtain new where IH:
    "sp_servers q = map (\<lambda>i. if i \<in> set is then unblock (sp_servers p0 ! i) else sp_servers p0 ! i) [0..<length (sp_servers p)]"
    "sp_sorted q = sp_sorted p0" "sp_maxNormLevel q = sp_maxNormLevel p0"
    "sp_connections q = sp_connections p @ new" "list_all (\<lambda>c. \<not> pc_inUse c \<and> pc_server c \<in> set is) new"
    "length (sp_levels q) = card (used_prefix p is)"
    "\<And>j. j \<in> set is \<Longrightarrow> ns_normLevel (sp_servers p0 ! j) < int (card (used_prefix p is))"
    "\<And>l. l < length (sp_levels q) \<Longrightarrow> sp_levels q ! l = count_on q (set is) (int l)"
    by (auto simp: Let_def)
  define s where "s = unblock (sp_servers p0 ! i)"
  have si: "sp_servers q ! i = sp_servers p0 ! i" using i IH(1) by simp
  have len: "length (sp_servers q) = length (sp_servers p)" using IH(1) by simp
  have ns0: "ns_normLevel s = (if norm_used (min_level p) (sp_servers p ! i)
      then int (card {l \<in> ?U. l < ?lev i}) else -1)"
    using norm(1) i(1) by (simp add: s_def p0_def unblock_def)
  have below: "{l \<in> ?U. l < ?lev i} = used_prefix p is - {?lev i}"
  proof -
    have le: "j \<in> set is \<Longrightarrow> ?lev j \<le> ?lev i" for j using so by (auto simp: sorted_append)
    have ge: "j \<in> set (i # rest) \<Longrightarrow> ?lev i \<le> ?lev j" for j using so by (auto simp: sorted_append)
    have U: "x \<in> ?U \<longleftrightarrow> (\<exists>j \<in> set (is @ i # rest). norm_used (min_level p) (sp_servers p ! j) \<and> x = ?lev j)" for x
    proof -
      have "set (is @ i # rest) = {0..<length (sp_servers p)}" using sset(1) srt by simp
      moreover have "set (sp_servers p) = (\<lambda>j. sp_servers p ! j) ` {0..<length (sp_servers p)}"
        by (metis list.set_map map_nth set_upt)
      ultimately show ?thesis by auto
    qed
    show ?thesis
    proof (intro set_eqI iffI)
      fix x assume "x \<in> {l \<in> ?U. l < ?lev i}"
      then obtain j where j: "j \<in> set (is @ i # rest)" "norm_used (min_level p) (sp_servers p ! j)" "x = ?lev j" "x < ?lev i"
        using U by blast
      with ge have "j \<in> set is" by force
      with j show "x \<in> used_prefix p is - {?lev i}" by (auto simp: used_prefix_def)
    next
      fix x assume "x \<in> used_prefix p is - {?lev i}"
      then obtain j where "j \<in> set is" "norm_used (min_level p) (sp_servers p ! j)" "x = ?lev j" "x \<noteq> ?lev i"
        by (auto simp: used_prefix_def)
      with le U show "x \<in> {l \<in> ?U. l < ?lev i}" by force
    qed
  qed
  have fin: "finite (used_prefix p is)" by (simp add: used_prefix_def)
  have up: "used_prefix p (is @ [i]) = (if norm_used (min_level p) (sp_servers p ! i) then insert (?lev i) (used_prefix p is)
      else used_prefix p is)"
    by (auto simp: used_prefix_def)
  have ns1: "ns_normLevel s = (if norm_used (min_level p) (sp_servers p ! i)
      then int (card (used_prefix p is - {?lev i})) else -1)"
    using ns0 unfolding below .
  have ins: "card (insert (?lev i) (used_prefix p is)) = Suc (card (used_prefix p is - {?lev i}))"
    using fin by (rule card.insert_remove)
  have norm_i: "ns_normLevel s < int (card (used_prefix p (is @ [i])))"
    unfolding ns1 up by (simp add: ins)
  have mono: "card (used_prefix p is) \<le> card (used_prefix p (is @ [i]))"
    unfolding up by (simp add: card_insert_le fin)
  define q' where "q' = init_server i q"
  define n where "n = nat (ns_normLevel s)"
  define lv where "lv = (if norm_used (min_level p) (sp_servers p ! i) \<and> length (sp_levels q) \<le> n
      then sp_levels q @ [0] else sp_levels q)"
  define conns where "conns = length (filter (\<lambda>c. pc_server c = i) (sp_connections q))"
  define m where "m = (if ns_normLevel s > -1 \<and> ns_active s then nat (ns_maxConnections s) - conns else 0)"
  have used: "ns_normLevel s > -1 \<longleftrightarrow> norm_used (min_level p) (sp_servers p ! i)" unfolding ns1 by simp
  have s': "(sp_servers q ! i)\<lparr>ns_blockTime := 0\<rparr> = s" by (simp add: si s_def unblock_def)
  have q': "sp_servers q' = (sp_servers q)[i := s]" "sp_connections q' = sp_connections q @ replicate m (new_connection i)"
    "sp_sorted q' = sp_sorted q" "sp_maxNormLevel q' = sp_maxNormLevel q"
    "sp_levels q' = (if ns_normLevel s > -1 \<and> ns_active s then lv[n := lv ! n + int (conns + m)] else lv)"
    using i(1) len by (simp_all add: q'_def init_server_def Let_def s' n_def m_def lv_def conns_def used)
  have lenlv: "length lv = card (used_prefix p (is @ [i]))"
  proof -
    have "card (used_prefix p is - {?lev i}) \<le> card (used_prefix p is)" by (rule card_Diff1_le)
    moreover have "card (used_prefix p is) \<le> Suc (card (used_prefix p is - {?lev i}))"
      unfolding ins [symmetric] by (rule card_insert_le)
    ultimately show ?thesis unfolding lv_def up n_def ns1 by (simp add: ins IH(6))
  qed
  have cnt: "count_on q' (insert i (set is)) l = count_on q (set is) l +
      (if ns_active s \<and> ns_normLevel s = l then int (conns + m) else 0)" for l
    unfolding conns_def
    by (rule count_on_init_server [OF i(2) refl])
       (use i len q'(1,2) si in \<open>simp_all add: s_def unblock_def\<close>)
  have zero: "count_on q (set is) (int l) = 0" if "card (used_prefix p is) \<le> l" for l
  proof -
    have "ns_normLevel (sp_servers q ! j) \<noteq> int l" if j: "j \<in> set is" for j
    proof -
      from j have "j \<in> {0..<length (sp_servers p)}" using sset(1) srt by auto
      then have "sp_servers q ! j = unblock (sp_servers p0 ! j)" using j IH(1) by simp
      then show ?thesis using IH(7) [OF j] \<open>card (used_prefix p is) \<le> l\<close> by (simp add: unblock_def)
    qed
    then show ?thesis unfolding count_on_def sum_list_of_bool_length by (auto simp: filter_empty_conv)
  qed
  have lvc: "l < length lv \<Longrightarrow> lv ! l = count_on q (set is) (int l)" for l
    using IH(6) IH(8) [of l] zero [of l] by (auto simp: lv_def nth_append split: if_splits)
  have levels: "\<forall>l < length (sp_levels q'). sp_levels q' ! l = count_on q' (set (is @ [i])) (int l)"
    using lvc lenlv norm_i unfolding q'(5) by (auto simp: cnt n_def nth_list_update)
  have servers: "sp_servers q' = map (\<lambda>j. if j \<in> set (is @ [i]) then unblock (sp_servers p0 ! j) else sp_servers p0 ! j)
      [0..<length (sp_servers p)]"
    using i unfolding q'(1) IH(1) by (intro nth_equalityI) (auto simp: nth_list_update s_def)
  have conn: "\<exists>new. sp_connections q' = sp_connections p @ new \<and> list_all (\<lambda>c. \<not> pc_inUse c \<and> pc_server c \<in> set (is @ [i])) new"
    using IH(5) unfolding q'(2) IH(4)
    by (intro exI [of _ "new @ replicate m (new_connection i)"]) (auto simp: list_all_iff new_connection_def)
  have nl: "\<forall>j \<in> set (is @ [i]). ns_normLevel (sp_servers p0 ! j) < int (card (used_prefix p (is @ [i])))"
    using IH(7) mono norm_i by (auto simp: s_def unblock_def) (meson le_less_trans not_le of_nat_le_iff order_less_le_trans)
  have "foldl (\<lambda>p i. init_server i p) p0 (is @ [i]) = q'" by (simp add: q'_def q_def)
  moreover have "length (sp_levels q') = card (used_prefix p (is @ [i]))" using lenlv by (simp add: q'(5))
  ultimately show ?case
    using servers conn nl levels q'(3,4) IH(2,3) by (simp add: Let_def)
qed

lemma count_on_all:
  assumes "list_all (\<lambda>c. pc_server c < length (sp_servers q)) (sp_connections q)"
  shows "count_on q {0..<length (sp_servers q)} l = free_on q l + in_use_on q l"
proof -
  have "sum_list (map (\<lambda>c. of_bool (pc_server c \<in> {0..<length (sp_servers q)} \<and> ns_active (server_of q c) \<and> ns_normLevel (server_of q c) = l)) cs) =
      (sum_list (map (\<lambda>c. of_bool (is_free q l c)) cs) +
       sum_list (map (\<lambda>c. of_bool (pc_inUse c \<and> ns_active (server_of q c) \<and> ns_normLevel (server_of q c) = l)) cs) :: int)"
    if "list_all (\<lambda>c. pc_server c < length (sp_servers q)) cs" for cs
    using that by (induction cs) (auto simp: is_free_def)
  from this [OF assms] show ?thesis by (simp add: count_on_def free_on_def in_use_on_def)
qed

lemma init_connections_spec:
  assumes "pool_wf p" "sp_servers p \<noteq> []"
  defines "q \<equiv> init_connections p"
  shows "sp_servers q \<noteq> [] \<and> pool_ok q \<and> int (length (sp_levels q)) = sp_maxNormLevel q + 1 \<and>
    take (length (sp_connections p)) (sp_connections q) = sp_connections p \<and>
    list_all (\<lambda>l. excess q l = in_use_on q (int l)) [0..<length (sp_levels q)]"
proof -
  define p0 where "p0 = (normalize_levels p)\<lparr>sp_levels := []\<rparr>"
  define q1 where "q1 = foldl (\<lambda>p i. init_server i p) p0 (sp_sorted p0)"
  note norm = normalize_levels_spec [OF assms(1,2)]
  have q: "q = q1\<lparr>sp_generation := sp_generation q1 + 1\<rparr>"
    by (simp add: q_def init_connections_def p0_def q1_def Let_def)
  have sset: "set (sp_sorted p0) = {0..<length (sp_servers p)}" "distinct (sp_sorted p0)"
    using norm(4,5) assms(1) by (simp_all add: p0_def pool_wf_def)
  from init_fold [OF assms(1,2), of "sp_sorted p0" "[]", folded p0_def q1_def]
  obtain new where f: "sp_servers q1 = map (\<lambda>i. if i \<in> set (sp_sorted p0) then unblock (sp_servers p0 ! i) else sp_servers p0 ! i) [0..<length (sp_servers p)]"
    "sp_sorted q1 = sp_sorted p0" "sp_maxNormLevel q1 = sp_maxNormLevel p0"
    "sp_connections q1 = sp_connections p @ new" "list_all (\<lambda>c. \<not> pc_inUse c \<and> pc_server c \<in> set (sp_sorted p0)) new"
    "length (sp_levels q1) = card (used_prefix p (sp_sorted p0))"
    "\<And>j. j \<in> set (sp_sorted p0) \<Longrightarrow> ns_normLevel (sp_servers p0 ! j) < int (card (used_prefix p (sp_sorted p0)))"
    "\<And>l. l < length (sp_levels q1) \<Longrightarrow> sp_levels q1 ! l = count_on q1 (set (sp_sorted p0)) (int l)"
    by (auto simp: Let_def q1_def [symmetric])
  have len: "length (sp_servers q1) = length (sp_servers p)" by (simp add: f(1))
  have conns: "list_all (\<lambda>c. pc_server c < length (sp_servers q1)) (sp_connections q1)"
    using assms(1) f(5) sset(1) unfolding f(4) len by (auto simp: pool_wf_def list_all_iff)
  have levs: "list_all (\<lambda>s. ns_normLevel s < int (length (sp_levels q1))) (sp_servers q1)"
    using f(7) sset(1) unfolding f(1,6) by (auto simp: list_all_iff unblock_def)
  have ok: "pool_ok q" using conns levs sset len by (simp add: pool_ok_def pool_wf_def q f(2))
  have set: "set (sp_servers p) = (\<lambda>j. sp_servers p ! j) ` {0..<length (sp_servers p)}"
    by (metis list.set_map map_nth set_upt)
  have "used_prefix p (sp_sorted p0) = ns_level ` {s \<in> set (sp_servers p). norm_used (min_level p) s}"
    unfolding used_prefix_def sset(1) set by auto
  then have "int (length (sp_levels q)) = sp_maxNormLevel q + 1"
    using norm(2) by (simp add: q f(3,6)) (simp add: p0_def)
  moreover have "excess q l = in_use_on q (int l)" if "l < length (sp_levels q)" for l
  proof -
    have "sp_levels q1 ! l = free_on q1 (int l) + in_use_on q1 (int l)"
      using f(8) that count_on_all [OF conns, of "int l"] by (simp add: q sset(1) len)
    moreover have "in_use_on q (int l) = in_use_on q1 (int l)" by (simp add: q in_use_on_def)
    ultimately show ?thesis by (simp add: excess_def q)
  qed
  moreover have "length (sp_servers q) = length (sp_servers p)" by (simp add: q len)
  ultimately show ?thesis using ok f(4) assms(2) by (auto simp: q list_all_iff)
qed

text \<open>\<open>InitConnections\<close> gives every used level a counter, keeps the existing connections, and sets the
  counters to the free connections plus those in use: after a change of the configuration during a
  download the connections in use are counted as free, so the counters can only overstate what is
  free.\<close>

theorem init_connections_correct:
  assumes "pool_wf p" "sp_servers p \<noteq> []"
  defines "q \<equiv> init_connections p"
  shows "pool_ok q \<and> int (length (sp_levels q)) = sp_maxNormLevel q + 1 \<and>
    take (length (sp_connections p)) (sp_connections q) = sp_connections p \<and>
    list_all (\<lambda>l. excess q l = in_use_on q (int l)) [0..<length (sp_levels q)]"
  using init_connections_spec [OF assms(1,2)] unfolding q_def by blast

section \<open>Closing\<close>

lemma close_level_static:
  "\<exists>f. (\<forall>c. pc_inUse (f c) = pc_inUse c \<and> pc_server (f c) = pc_server c) \<and>
     close_level now level p = p\<lparr>sp_connections := map f (sp_connections p)\<rparr>"
proof -
  obtain u t where s: "level_scan now p level (sp_connections p) (False, 0) = (u, t)" by fastforce
  show ?thesis
  proof (cases "\<not> u \<and> t > 5")
    case True
    then show ?thesis
      by (intro exI [of _ "\<lambda>c. if ns_normLevel (server_of p c) = level \<and> pc_status c = csConnected then conn_disconnect c else c"])
         (simp add: close_level_def s conn_disconnect_def)
  next
    case False
    then show ?thesis by (intro exI [of _ "\<lambda>c. c"]) (auto simp: close_level_def s)
  qed
qed

lemma level_scan_in_use:
  "fst (level_scan now p level cs st) \<longleftrightarrow> fst st \<or> list_ex (\<lambda>c. ns_normLevel (server_of p c) = level \<and> pc_inUse c) cs"
  by (induction now p level cs st rule: level_scan.induct) auto

lemma close_level_keeps:
  "filter pc_inUse (sp_connections (close_level now level p)) = filter pc_inUse (sp_connections p)"
proof (cases "fst (level_scan now p level (sp_connections p) (False, 0))")
  case True
  then show ?thesis by (auto simp: close_level_def split: prod.split)
next
  case False
  then have "c \<in> set (sp_connections p) \<Longrightarrow> pc_inUse c \<Longrightarrow> ns_normLevel (server_of p c) \<noteq> level" for c
    by (auto simp: level_scan_in_use list_ex_iff)
  then have "filter pc_inUse (map (\<lambda>c. if ns_normLevel (server_of p c) = level \<and> pc_status c = csConnected then conn_disconnect c else c) cs) =
      filter pc_inUse cs" if "set cs \<subseteq> set (sp_connections p)" for cs
    using that by (induction cs) (auto simp: conn_disconnect_def)
  then show ?thesis by (simp add: close_level_def split: prod.split)
qed

lemma close_level_invariant:
  "pool_ok (close_level now level p) = pool_ok p" "sp_levels (close_level now level p) = sp_levels p"
  "excess (close_level now level p) l = excess p l"
proof -
  obtain f where f: "\<And>c. pc_inUse (f c) = pc_inUse c \<and> pc_server (f c) = pc_server c"
    "close_level now level p = p\<lparr>sp_connections := map f (sp_connections p)\<rparr>"
    using close_level_static by blast
  show "pool_ok (close_level now level p) = pool_ok p" "sp_levels (close_level now level p) = sp_levels p"
    "excess (close_level now level p) l = excess p l"
    by (simp_all add: f pool_ok_def pool_wf_def list_all_iff excess_def free_on_def is_free_def comp_def)
qed

lemma close_levels_invariant:
  "pool_ok (foldl (\<lambda>p level. close_level now level p) p ls) = pool_ok p"
  "sp_levels (foldl (\<lambda>p level. close_level now level p) p ls) = sp_levels p"
  "excess (foldl (\<lambda>p level. close_level now level p) p ls) l = excess p l"
  "filter pc_inUse (sp_connections (foldl (\<lambda>p level. close_level now level p) p ls)) = filter pc_inUse (sp_connections p)"
  by (induction ls arbitrary: p) (simp_all add: close_level_invariant close_level_keeps)

lemma close_unused_spec:
  "filter pc_inUse (sp_connections (close_unused_connections now p)) = filter pc_inUse (sp_connections p) \<and>
   excess (close_unused_connections now p) l = excess p l"
proof -
  let ?p = "p\<lparr>sp_connections := filter (\<lambda>c. \<not> closable p c) (sp_connections p)\<rparr>"
  have "filter pc_inUse (filter (\<lambda>c. \<not> closable p c) cs) = filter pc_inUse cs" for cs
    by (induction cs) (auto simp: closable_def)
  moreover have "sum_list (map (\<lambda>c. of_bool (is_free p (int l) c)) (filter (\<lambda>c. \<not> closable p c) cs)) =
      (sum_list (map (\<lambda>c. of_bool (is_free p (int l) c)) cs) :: int)" for cs
    by (induction cs) (auto simp: closable_def is_free_def)
  then have "excess ?p l = excess p l" by (simp add: excess_def free_on_def is_free_def)
  ultimately show ?thesis
    unfolding close_unused_connections_def Let_def by (simp add: close_levels_invariant)
qed

text \<open>\<open>CloseUnusedConnections\<close> neither removes nor disconnects a connection that is in use, and keeps
  every level counter in step with the free connections.\<close>

theorem close_unused_connections_correct:
  "filter pc_inUse (sp_connections (close_unused_connections now p)) = filter pc_inUse (sp_connections p) \<and>
   excess (close_unused_connections now p) l = excess p l"
  by (rule close_unused_spec)

lemma close_unused_ok:
  assumes "pool_ok p"
  shows "pool_ok (close_unused_connections now p)" "sp_levels (close_unused_connections now p) = sp_levels p"
proof -
  have "pool_ok (p\<lparr>sp_connections := filter (\<lambda>c. \<not> closable p c) (sp_connections p)\<rparr>)"
    using assms by (auto simp: pool_ok_def pool_wf_def list_all_iff)
  then show "pool_ok (close_unused_connections now p)" "sp_levels (close_unused_connections now p) = sp_levels p"
    unfolding close_unused_connections_def Let_def by (simp_all add: close_levels_invariant)
qed

section \<open>The pool in operation\<close>

definition set_active :: "nat \<Rightarrow> bool \<Rightarrow> server_pool \<Rightarrow> server_pool" where
  "set_active i b p = p\<lparr>sp_servers := (sp_servers p)[i := (sp_servers p ! i)\<lparr>ns_active := b\<rparr>]\<rparr>"

text \<open>The download threads, the main loop and the scheduler, each step one critical section.\<close>

inductive pool_step :: "server_pool \<Rightarrow> server_pool \<Rightarrow> bool" where
  step_get: "handles_ok p want ign \<Longrightarrow> get_connection now random level want ign p = (q, r) \<Longrightarrow> pool_step p q"
| step_free: "k < length (sp_connections p) \<Longrightarrow> pc_inUse (sp_connections p ! k) \<Longrightarrow>
    pool_step p (free_connection now used k p)"
| step_block: "pool_step p (block_server now i p)"
| step_close: "pool_step p (close_unused_connections now p)"
| step_changed: "pool_step p (pool_changed now (set_active i b p))"

inductive_cases pool_stepE: "pool_step p q"

lemma free_connection_ok:
  assumes "pool_ok p" "k < length (sp_connections p)"
  shows "pool_ok (free_connection now used k p)" "length (sp_levels (free_connection now used k p)) = length (sp_levels p)"
proof -
  have s: "pc_server (sp_connections p ! k) < length (sp_servers p)"
    using assms by (simp add: pool_ok_def pool_wf_def list_all_length)
  have upd: "list_all P xs \<Longrightarrow> P x \<Longrightarrow> list_all P (xs[k := x])" for P :: "pooled_connection \<Rightarrow> bool" and xs x
    by (auto simp: list_all_iff dest!: set_update_subset_insert [THEN subsetD])
  show "pool_ok (free_connection now used k p)"
    using assms s by (auto simp: free_connection_def Let_def pool_ok_def pool_wf_def intro!: upd)
  show "length (sp_levels (free_connection now used k p)) = length (sp_levels p)"
    by (simp add: free_connection_def Let_def)
qed

lemma in_use_on_nonneg: "0 \<le> in_use_on p l"
  unfolding in_use_on_def sum_list_of_bool_length by simp

lemma set_active_wf: "pool_wf p \<Longrightarrow> pool_wf (set_active i b p)" "sp_servers p \<noteq> [] \<Longrightarrow> sp_servers (set_active i b p) \<noteq> []"
  by (simp_all add: set_active_def pool_wf_def)

definition pool_inv :: "server_pool \<Rightarrow> bool" where
  "pool_inv p \<longleftrightarrow> pool_ok p \<and> sp_servers p \<noteq> [] \<and> list_all (\<lambda>l. 0 \<le> excess p l) [0..<length (sp_levels p)]"

lemma pool_inv_init:
  assumes "pool_wf p" "sp_servers p \<noteq> []"
  shows "pool_inv (init_connections p)"
  using init_connections_spec [OF assms] in_use_on_nonneg by (auto simp: pool_inv_def list_all_iff)

lemma pool_inv_close:
  assumes "pool_inv p"
  shows "pool_inv (close_unused_connections now p)"
proof -
  have "sp_servers (foldl (\<lambda>p level. close_level now level p) q ls) = sp_servers q" for q ls
    by (induction ls arbitrary: q) (simp_all add: close_level_def split: prod.split)
  then have "sp_servers (close_unused_connections now p) = sp_servers p"
    by (simp add: close_unused_connections_def Let_def)
  with assms close_unused_ok [of p now] close_unused_spec [of now p] show ?thesis
    by (simp add: pool_inv_def)
qed

lemmas pool_step_cases = pool_stepE [consumes 1, case_names get free block close changed]

lemma pool_inv_step:
  assumes "pool_step p q" "pool_inv p"
  shows "pool_inv q"
  using assms(1)
proof (cases rule: pool_step_cases)
  case (get want ign now random level r)
  have ok: "pool_ok p" using assms(2) by (simp add: pool_inv_def)
  have "length (sp_servers q) = length (sp_servers p)"
    using get_connection_servers [OF ok get(1,2)] .
  with assms(2) get_connection_spec [OF ok get(1,2)] show ?thesis by (auto simp: pool_inv_def)
next
  case (free k now used)
  have ok: "pool_ok p" using assms(2) by (simp add: pool_inv_def)
  have "sp_servers q = sp_servers p" by (simp add: free free_connection_def Let_def)
  moreover have "excess q l = excess p l" if "l < length (sp_levels p)" for l
    using free_connection_excess [OF ok free(2,3) that] by (simp add: free(1))
  ultimately show ?thesis
    using assms(2) free_connection_ok [OF ok free(2)] by (simp add: pool_inv_def free(1) list_all_iff)
next
  case (block now i)
  have sb: "same_but_blocks q p"
    unfolding block block_server_def by (rule same_but_blocks_update) (simp add: unblock_def)
  then have "sp_levels q = sp_levels p" by (simp add: same_but_blocks_def)
  moreover have "sp_servers q \<noteq> []" using assms(2) same_but_blocks_length [OF sb] by (auto simp: pool_inv_def)
  ultimately show ?thesis
    using assms(2) same_but_blocks_ok [OF sb] same_but_blocks_free(3) [OF sb] same_but_blocks_wf [OF sb]
    by (auto simp: pool_inv_def pool_ok_def)
next
  case (close now)
  then show ?thesis using pool_inv_close assms(2) by simp
next
  case (changed now i b)
  have "pool_wf p" "sp_servers p \<noteq> []" using assms(2) by (simp_all add: pool_inv_def pool_ok_def)
  then show ?thesis
    using pool_inv_init [OF set_active_wf] pool_inv_close by (simp add: changed pool_changed_def)
qed


section \<open>An example pool\<close>

text \<open>Two servers on two levels with two connections each.\<close>

definition started_pool :: server_pool where
  "started_pool = init_connections example_pool"

lemma started_pool_inv: "pool_inv started_pool"
  unfolding started_pool_def by (rule pool_inv_init) (simp_all add: example_pool_wf)

lemma started_pool_eq:
  "started_pool = \<lparr>sp_servers = [example_server 1 0, (example_server 2 5)\<lparr>ns_normLevel := 1\<rparr>], sp_sorted = [0, 1],
     sp_connections = [new_connection 0, new_connection 0, new_connection 1, new_connection 1],
     sp_levels = [2, 2], sp_maxNormLevel = 1, sp_retryInterval = 10, sp_generation = 1\<rparr>"
  by (simp add: started_pool_def example_pool_def init_connections_def normalize_levels_def norm_step_def norm_used_def
      init_server_def new_connection_def example_server_def add_server_def empty_pool_def Let_def numeral_2_eq_2)


theorem locked_get_connection_correct_witness:
  "\<exists>q r. locked_get_connection 7 3 (int 0) None [] started_pool = (q, r) \<and>
     (case r of Some k \<Rightarrow> k < 4 | None \<Rightarrow> True)"
proof -
  obtain q r where l: "locked_get_connection 7 3 (int 0) None [] started_pool = (q, r)" by fastforce
  have "pool_ok started_pool" "handles_ok started_pool None []" "excess started_pool 0 \<ge> 0"
    using started_pool_inv by (simp_all add: pool_inv_def handles_ok_def started_pool_eq list_all_iff)
  from locked_get_connection_correct [OF this(1,2) _ this(3) l] have "case r of Some k \<Rightarrow> k < 4 | None \<Rightarrow> True"
    by (simp add: started_pool_eq split: option.splits)
  with l show ?thesis by blast
qed

theorem get_connection_correct_witness:
  "\<exists>q k. get_connection 7 0 0 None [] started_pool = (q, Some k) \<and> k < 4 \<and> excess q = excess started_pool"
proof -
  have ok: "pool_ok started_pool" "handles_ok started_pool None []"
    using started_pool_inv by (simp_all add: pool_inv_def handles_ok_def)
  have "snd (get_connection 7 0 0 None [] started_pool) = Some 0"
    by (subst get_connection.simps)
       (simp add: started_pool_eq locked_get_connection_def candidate_step_def candidate_ok_def ignored_def
         new_connection_def example_server_def Let_def is_server_blocked_def upt_rec)
  then obtain q where g: "get_connection 7 0 0 None [] started_pool = (q, Some 0)"
    by (cases "get_connection 7 0 0 None [] started_pool") auto
  from get_connection_correct [OF ok g] have "(0::nat) < 4 \<and> excess q = excess started_pool"
    by (simp add: started_pool_eq Let_def)
  with g show ?thesis by blast
qed

theorem free_connection_keeps_counts_witness:
  "excess (free_connection 9 True 0 (started_pool\<lparr>sp_connections := (sp_connections started_pool)[0 :=
     (new_connection 0)\<lparr>pc_inUse := True\<rparr>]\<rparr>)) 1 = 0"
proof -
  let ?p = "started_pool\<lparr>sp_connections := (sp_connections started_pool)[0 := (new_connection 0)\<lparr>pc_inUse := True\<rparr>]\<rparr>"
  have "pool_ok ?p" by (auto simp: pool_ok_def pool_wf_def started_pool_eq new_connection_def example_server_def)
  from free_connection_keeps_counts [OF this, of 0 1 9 True]
  have "excess (free_connection 9 True 0 ?p) 1 = excess ?p 1"
    by (simp add: started_pool_eq)
  also have "excess ?p 1 = 0"
    by (simp add: excess_def free_on_def is_free_def started_pool_eq new_connection_def example_server_def)
  finally show ?thesis .
qed

theorem init_connections_correct_witness:
  "list_all (\<lambda>l. excess started_pool l = in_use_on started_pool (int l)) [0..<length (sp_levels started_pool)]"
  unfolding started_pool_def
  using init_connections_correct [OF example_pool_wf(1)] by (simp add: example_pool_wf)

end
