(* ===== verification/QueueSearch.thy ===== *)
theory QueueSearch
  imports NzbTotals
begin

text \<open>
  The choice of the next article to download, \<open>QueueCoordinator::GetNextArticle\<close> and
  \<open>GetNextFirstArticle\<close> (\<open>daemon/queue/QueueCoordinator.cpp\<close>). A file is referred to by its
  position: the index of its download in the queue and its own index in the file list. Reading the
  articles of a file from disk (\<open>DiskState::LoadArticles\<close>, \<open>LoadPartialState\<close>) is the parameter
  \<open>load\<close>.
\<close>

section \<open>The search for a file\<close>

record search_options =
  so_now :: int
  so_paused :: bool
  so_propagationDelay :: int
  so_directRename :: bool
  so_serverMode :: bool

type_synonym queue = "nzb_info list"
type_synonym file_ref = "nat \<times> nat"

definition nzb_at :: "queue \<Rightarrow> file_ref \<Rightarrow> nzb_info" where
  "nzb_at q r = q ! fst r"

definition file_at :: "queue \<Rightarrow> file_ref \<Rightarrow> file_info" where
  "file_at q r = nz_fileList (q ! fst r) ! snd r"

text \<open>The difference of a \<open>size_t\<close> and an \<open>int\<close> is unsigned: it is \<open>\<le> 0\<close> only when it is 0.\<close>

definition nzb_paused :: "nzb_info \<Rightarrow> bool" where
  "nzb_paused nz \<longleftrightarrow> (word_of_int (int (length (nz_fileList nz)) - nz_pausedFileCount nz) :: 64 word) \<le> 0"

definition nzb_higher :: "nzb_info \<Rightarrow> nzb_info \<Rightarrow> bool" where
  "nzb_higher nz cur \<longleftrightarrow>
     (has_extra_priority nz = has_extra_priority cur \<and> nz_priority nz > nz_priority cur) \<or>
     (has_extra_priority nz \<and> \<not> has_extra_priority cur)"

definition file_higher :: "queue \<Rightarrow> file_ref \<Rightarrow> file_ref \<Rightarrow> bool" where
  "file_higher q r cur \<longleftrightarrow>
     (fi_extraPriority (file_at q r) = fi_extraPriority (file_at q cur) \<and>
        nz_priority (nzb_at q r) > nz_priority (nzb_at q cur)) \<or>
     (fi_extraPriority (file_at q r) \<and> \<not> fi_extraPriority (file_at q cur))"

definition propagation_wait :: "search_options \<Rightarrow> file_info \<Rightarrow> bool" where
  "propagation_wait so fi \<longleftrightarrow> so_propagationDelay so > 0 \<and>
     int32 (fi_time fi) + so_propagationDelay so \<ge> int32 (so_now so)"

definition nzb_open :: "search_options \<Rightarrow> nzb_info \<Rightarrow> bool" where
  "nzb_open so nz \<longleftrightarrow> \<not> nzb_paused nz \<and> (\<not> so_paused so \<or> get_force_priority nz)"

definition file_open :: "search_options \<Rightarrow> file_info \<Rightarrow> bool" where
  "file_open so fi \<longleftrightarrow> \<not> propagation_wait so fi \<and> \<not> fi_paused fi \<and> \<not> fi_deleted fi"

definition scan_file ::
    "search_options \<Rightarrow> queue \<Rightarrow> file_ref list \<Rightarrow> file_ref \<Rightarrow> file_ref option \<Rightarrow> file_ref option" where
  "scan_file so q checked r cur =
     (if r \<notin> set checked \<and> file_open so (file_at q r) \<and>
         (case cur of None \<Rightarrow> True | Some c \<Rightarrow> file_higher q r c)
      then Some r else cur)"

definition scan_nzb ::
    "search_options \<Rightarrow> queue \<Rightarrow> file_ref list \<Rightarrow> nat \<Rightarrow> file_ref option \<Rightarrow> file_ref option" where
  "scan_nzb so q checked i cur =
     (if (case cur of None \<Rightarrow> True | Some c \<Rightarrow> nzb_higher (q ! i) (nzb_at q c)) \<and> nzb_open so (q ! i)
      then foldl (\<lambda>cur j. scan_file so q checked (i, j) cur) cur [0..<length (nz_fileList (q ! i))]
      else cur)"

definition find_file :: "search_options \<Rightarrow> queue \<Rightarrow> file_ref list \<Rightarrow> file_ref option" where
  "find_file so q checked = foldl (\<lambda>cur i. scan_nzb so q checked i cur) None [0..<length q]"

section \<open>The search for an article\<close>

type_synonym article_loader = "file_info \<Rightarrow> file_info"

definition ensure_loaded :: "article_loader \<Rightarrow> search_options \<Rightarrow> file_info \<Rightarrow> file_info" where
  "ensure_loaded load so fi = (if fi_articles fi = [] \<and> so_serverMode so then load fi else fi)"

definition put_file :: "queue \<Rightarrow> file_ref \<Rightarrow> file_info \<Rightarrow> queue" where
  "put_file q r fi =
     q[fst r := (q ! fst r)\<lparr>nz_fileList := (nz_fileList (q ! fst r))[snd r := fi]\<rparr>]"

fun next_undefined :: "article_info list \<Rightarrow> nat option" where
  "next_undefined [] = None"
| "next_undefined (a # as) =
     (if ai_status a = aiUndefined then Some 0 else map_option Suc (next_undefined as))"

text \<open>\<open>GetNextFirstArticle\<close> on the download \<open>i\<close>: the first article of a file not renamed yet.\<close>

fun first_scan ::
    "article_loader \<Rightarrow> search_options \<Rightarrow> nat \<Rightarrow> nat list \<Rightarrow> queue \<Rightarrow> queue \<times> file_ref option" where
  "first_scan load so i [] q = (q[i := (q ! i)\<lparr>nz_allFirst := True\<rparr>], None)"
| "first_scan load so i (j # js) q =
     (if fi_filenameConfirmed (file_at q (i, j)) then first_scan load so i js q
      else
        (let fi = ensure_loaded load so (file_at q (i, j));
             q = put_file q (i, j) fi
         in if fi_articles fi \<noteq> [] \<and> ai_status (hd (fi_articles fi)) = aiUndefined
            then (q[i := (q ! i)\<lparr>nz_directRenameStatus := tsRunning\<rparr>], Some (i, j))
            else first_scan load so i js q))"

definition get_next_first ::
    "article_loader \<Rightarrow> search_options \<Rightarrow> nat \<Rightarrow> queue \<Rightarrow> queue \<times> file_ref option" where
  "get_next_first load so i q = first_scan load so i [0..<length (nz_fileList (q ! i))] q"

definition wants_first :: "search_options \<Rightarrow> nzb_info \<Rightarrow> bool" where
  "wants_first so nz \<longleftrightarrow> so_directRename so \<and> nz_directRenameStatus nz \<le> tsRunning \<and> \<not> nz_allFirst nz"

subsection \<open>What the search leaves alone\<close>

definition refs :: "queue \<Rightarrow> file_ref set" where
  "refs q = (SIGMA i:{..<length q}. {..<length (nz_fileList (q ! i))})"

lemma finite_refs [simp]: "finite (refs q)"
  by (simp add: refs_def)

lemma mem_refs: "r \<in> refs q \<longleftrightarrow> fst r < length q \<and> snd r < length (nz_fileList (q ! fst r))"
  by (cases r) (simp add: refs_def)

lemma nth_update_cases: "i < length q \<Longrightarrow> q[i := x] ! k = (if k = i then x else q ! k)"
  by (cases "k = i") simp_all

lemma refs_cong: "map (\<lambda>nz. length (nz_fileList nz)) q = map (\<lambda>nz. length (nz_fileList nz)) q' \<Longrightarrow> refs q = refs q'"
  by (auto simp: set_eq_iff mem_refs list_eq_iff_nth_eq)

lemma refs_put_file [simp]: "refs (put_file q r fi) = refs q"
  by (cases "fst r < length q") (auto simp: set_eq_iff mem_refs put_file_def nth_update_cases)

lemma refs_update [simp]:
  "refs (q[i := (q ! i)\<lparr>nz_allFirst := b\<rparr>]) = refs q"
  "refs (q[i := (q ! i)\<lparr>nz_directRenameStatus := s\<rparr>]) = refs q"
  by (cases "i < length q"; auto simp: set_eq_iff mem_refs nth_update_cases)+

lemma refs_first_scan: "refs (fst (first_scan load so i js q)) = refs q"
  by (induction load so i js q rule: first_scan.induct) (simp_all add: Let_def)

text \<open>A fold over candidates ends with the start value or with one of the candidates.\<close>

lemma foldl_choice:
  assumes "foldl (\<lambda>c y. step y c) c xs = Some x"
    and "\<And>y c. y \<in> set xs \<Longrightarrow> step y c = Some x \<Longrightarrow> c = Some x \<or> P x"
  shows "c = Some x \<or> P x"
  using assms
proof (induction xs arbitrary: c)
  case (Cons y ys)
  have "step y c = Some x \<or> P x" by (rule Cons.IH) (use Cons.prems in auto)
  with Cons.prems(2) show ?case by auto
qed simp

lemma scan_nzb_Some:
  assumes "scan_nzb so q checked i cur = Some x" "i < length q"
  shows "cur = Some x \<or> x \<in> refs q \<and> x \<notin> set checked \<and> nzb_open so (nzb_at q x) \<and> file_open so (file_at q x)"
proof -
  have "cur = Some x \<or> x \<in> refs q \<and> x \<notin> set checked \<and> nzb_open so (nzb_at q x) \<and> file_open so (file_at q x)"
    if "foldl (\<lambda>cur j. scan_file so q checked (i, j) cur) cur [0..<length (nz_fileList (q ! i))] = Some x"
      "nzb_open so (q ! i)"
    using that(1)
  proof (rule foldl_choice)
    fix y c assume "y \<in> set [0..<length (nz_fileList (q ! i))]" "scan_file so q checked (i, y) c = Some x"
    with that(2) assms(2)
    show "c = Some x \<or> x \<in> refs q \<and> x \<notin> set checked \<and> nzb_open so (nzb_at q x) \<and> file_open so (file_at q x)"
      by (auto simp: scan_file_def mem_refs nzb_at_def split: if_splits)
  qed
  with assms show ?thesis by (auto simp: scan_nzb_def split: if_splits)
qed

lemma find_file_Some:
  assumes "find_file so q checked = Some r"
  shows "r \<in> refs q \<and> r \<notin> set checked \<and> nzb_open so (nzb_at q r) \<and> file_open so (file_at q r)"
proof -
  have "None = Some r \<or> r \<in> refs q \<and> r \<notin> set checked \<and> nzb_open so (nzb_at q r) \<and> file_open so (file_at q r)"
    using assms unfolding find_file_def
    by (rule foldl_choice) (metis atLeastLessThan_iff scan_nzb_Some set_upt)
  then show ?thesis by simp
qed

subsection \<open>The loop\<close>

function get_next_article ::
    "article_loader \<Rightarrow> search_options \<Rightarrow> file_ref list \<Rightarrow> queue \<Rightarrow> queue \<times> (file_ref \<times> nat) option" where
  "get_next_article load so checked q =
     (case find_file so q checked of
        None \<Rightarrow> (q, None)
      | Some r \<Rightarrow>
          (case (if wants_first so (nzb_at q r) then get_next_first load so (fst r) q else (q, None)) of
             (q1, Some r1) \<Rightarrow> (q1, Some (r1, 0))
           | (q1, None) \<Rightarrow>
               (let fi = ensure_loaded load so (file_at q1 r);
                    q2 = put_file q1 r fi
                in case next_undefined (fi_articles fi) of
                     Some k \<Rightarrow> (q2, Some (r, k))
                   | None \<Rightarrow> get_next_article load so (checked @ [r]) q2)))"
  by pat_completeness auto
termination
proof (relation "measure (\<lambda>(load, so, checked, q). card (refs q - set checked))", goal_cases)
  case 1
  then show ?case by simp
next
  case (2 load so checked q r q1 y fi q2)
  have r: "r \<in> refs q - set checked" using find_file_Some [OF 2(1)] by simp
  have "refs q2 = refs q"
    using 2(2-5) refs_first_scan [of load so "fst r" _ q]
    by (auto simp: get_next_first_def split: if_splits) (metis fst_conv)+
  then have "refs q2 - set (checked @ [r]) \<subset> refs q - set checked" using r by auto
  then show ?case by (simp add: psubset_card_mono)
qed

declare get_next_article.simps [simp del]

section \<open>What the search finds\<close>

text \<open>Loading the articles of a file keeps what the search looks at.\<close>

definition search_view :: "file_info \<Rightarrow> bool \<times> bool \<times> bool \<times> int" where
  "search_view fi = (fi_paused fi, fi_deleted fi, fi_extraPriority fi, fi_time fi)"

definition nzb_view :: "nzb_info \<Rightarrow> int \<times> int \<times> int" where
  "nzb_view nz = (nz_pausedFileCount nz, nz_extraPriority nz, nz_priority nz)"

definition same_view :: "queue \<Rightarrow> queue \<Rightarrow> bool" where
  "same_view q q' \<longleftrightarrow> refs q' = refs q \<and> length q' = length q \<and>
     (\<forall>r\<in>refs q. length (nz_fileList (nzb_at q' r)) = length (nz_fileList (nzb_at q r)) \<and>
        nzb_view (nzb_at q' r) = nzb_view (nzb_at q r) \<and>
        search_view (file_at q' r) = search_view (file_at q r))"

lemma same_view_refl [simp]: "same_view q q"
  by (simp add: same_view_def)

lemma same_view_trans: "same_view q q' \<Longrightarrow> same_view q' q'' \<Longrightarrow> same_view q q''"
  by (simp add: same_view_def)

lemma same_view_open:
  assumes "same_view q q'" "r \<in> refs q"
  shows "nzb_open so (nzb_at q' r) = nzb_open so (nzb_at q r)"
    "file_open so (file_at q' r) = file_open so (file_at q r)"
  using assms
  by (auto simp: same_view_def nzb_open_def nzb_paused_def nzb_view_def search_view_def get_force_priority_def
      file_open_def propagation_wait_def)

lemma nth_upd: "k < length q \<Longrightarrow> q[i := x] ! k = (if k = i then x else q ! k)"
  by (metis nth_list_update_eq nth_list_update_neq)

lemma put_file_same_view:
  assumes "search_view fi = search_view (file_at q r)"
  shows "same_view q (put_file q r fi)"
  using assms
  by (cases r) (auto simp: same_view_def mem_refs put_file_def file_at_def nzb_at_def nzb_view_def nth_upd split: if_splits)

lemma update_same_view:
  "same_view q (q[i := (q ! i)\<lparr>nz_allFirst := b\<rparr>])"
  "same_view q (q[i := (q ! i)\<lparr>nz_directRenameStatus := s\<rparr>])"
  by (auto simp: same_view_def mem_refs file_at_def nzb_at_def nzb_view_def nth_upd)

lemma next_undefined_Some:
  "next_undefined as = Some k \<Longrightarrow> k < length as \<and> ai_status (as ! k) = aiUndefined"
  by (induction as arbitrary: k) (auto split: if_splits)

lemma next_undefined_None: "next_undefined as = None \<longleftrightarrow> list_all (\<lambda>a. ai_status a \<noteq> aiUndefined) as"
  by (induction as) auto

lemma file_at_put_file:
  "r \<in> refs q \<Longrightarrow> file_at (put_file q r fi) x = (if x = r then fi else file_at q x)"
  by (cases "fst x = fst r"; cases "snd x = snd r")
     (auto simp: file_at_def put_file_def mem_refs prod_eq_iff)

lemma file_at_updates [simp]:
  "file_at (q[i := (q ! i)\<lparr>nz_allFirst := b\<rparr>]) x = file_at q x"
  "file_at (q[i := (q ! i)\<lparr>nz_directRenameStatus := s\<rparr>]) x = file_at q x"
  by (cases "i < length q"; auto simp: file_at_def nth_list_update_eq nth_list_update_neq list_update_beyond nth_update_cases)+

text \<open>
  \<open>tried load so q r\<close>: the articles of the file are loaded, as far as they can be, and none is left
  to download.
\<close>

definition tried :: "article_loader \<Rightarrow> search_options \<Rightarrow> queue \<Rightarrow> file_ref \<Rightarrow> bool" where
  "tried load so q r \<longleftrightarrow> ensure_loaded load so (file_at q r) = file_at q r \<and>
     next_undefined (fi_articles (file_at q r)) = None"

lemma set_upt_less: "set [0..<n] \<subseteq> {..<n}"
  by auto

lemma first_scan_spec:
  assumes "first_scan load so i js q = (q', hit)" "set js \<subseteq> {..<length (nz_fileList (q ! i))}" "i < length q"
    and "\<And>fi. search_view (load fi) = search_view fi"
  shows "same_view q q' \<and> (\<forall>r. tried load so q r \<longrightarrow> file_at q' r = file_at q r) \<and>
    (\<forall>r. hit = Some r \<longrightarrow> fst r = i \<and> r \<in> refs q \<and> \<not> fi_filenameConfirmed (file_at q r) \<and>
       fi_articles (file_at q' r) \<noteq> [] \<and> ai_status (fi_articles (file_at q' r) ! 0) = aiUndefined)"
  using assms(1-3)
proof (induction js arbitrary: q)
  case Nil
  then show ?case using update_same_view by auto
next
  case (Cons j js)
  show ?case
  proof (cases "fi_filenameConfirmed (file_at q (i, j))")
    case True
    then have "first_scan load so i js q = (q', hit)" using Cons.prems(1) by simp
    from Cons.IH [OF this] Cons.prems(2,3) show ?thesis by simp
  next
    case False
    define fi where "fi = ensure_loaded load so (file_at q (i, j))"
    define q1 where "q1 = put_file q (i, j) fi"
    have ij: "(i, j) \<in> refs q" using Cons.prems by (simp add: mem_refs)
    have v: "same_view q q1" unfolding q1_def
      by (rule put_file_same_view) (simp add: fi_def ensure_loaded_def assms(4))
    have f: "file_at q1 r = (if r = (i, j) then fi else file_at q r)" for r
      by (simp add: q1_def file_at_put_file ij)
    have t: "file_at q1 r = file_at q r" if "tried load so q r" for r
      using that by (auto simp: f fi_def tried_def)
    show ?thesis
    proof (cases "fi_articles fi \<noteq> [] \<and> ai_status (hd (fi_articles fi)) = aiUndefined")
      case hit: True
      then have "q' = q1[i := (q1 ! i)\<lparr>nz_directRenameStatus := tsRunning\<rparr>]" "hit = Some (i, j)"
        using Cons.prems(1) False by (auto simp: Let_def q1_def fi_def)
      then show ?thesis
        using hit f t ij False same_view_trans [OF v update_same_view(2)]
        by (auto simp: hd_conv_nth)
    next
      case miss: False
      then have run: "first_scan load so i js q1 = (q', hit)"
        using Cons.prems(1) False by (auto simp: Let_def q1_def fi_def)
      have len: "length q1 = length q" "length (nz_fileList (q1 ! i)) = length (nz_fileList (q ! i))"
        using Cons.prems(3) by (simp_all add: q1_def put_file_def)
      have r1: "refs q1 = refs q" by (simp add: q1_def)
      have keep: "tried load so q1 r" if "tried load so q r" for r
        using that t [OF that] by (simp add: tried_def)
      have *: "same_view q1 q' \<and> (\<forall>r. tried load so q1 r \<longrightarrow> file_at q' r = file_at q1 r) \<and>
          (\<forall>r. hit = Some r \<longrightarrow> fst r = i \<and> r \<in> refs q1 \<and> \<not> fi_filenameConfirmed (file_at q1 r) \<and>
             fi_articles (file_at q' r) \<noteq> [] \<and> ai_status (fi_articles (file_at q' r) ! 0) = aiUndefined)"
        by (rule Cons.IH [OF run]) (use Cons.prems len in auto)
      have un: "\<not> fi_filenameConfirmed (file_at q1 r) \<Longrightarrow> \<not> fi_filenameConfirmed (file_at q r)" for r
        using False f by (cases "r = (i, j)") auto
      show ?thesis
        using same_view_trans [OF v, of q'] * keep t un r1 by metis
    qed
  qed
qed

lemma scan_None:
  assumes "foldl (\<lambda>c y. step y c) c xs = None" "\<And>y c. c \<noteq> None \<Longrightarrow> step y c \<noteq> None"
  shows "c = None \<and> (\<forall>y\<in>set xs. step y None = None)"
  using assms(1)
proof (induction xs arbitrary: c)
  case (Cons y ys)
  then have 1: "step y c = None" "\<forall>y\<in>set ys. step y None = None" by auto
  moreover have "c = None" using 1(1) assms(2) by blast
  ultimately show ?case by simp
qed simp

lemma foldl_not_None:
  "c \<noteq> None \<Longrightarrow> (\<And>y c. c \<noteq> None \<Longrightarrow> step y c \<noteq> None) \<Longrightarrow> foldl (\<lambda>c y. step y c) c xs \<noteq> None"
  by (induction xs arbitrary: c) simp_all

lemma scan_file_mono: "cur \<noteq> None \<Longrightarrow> scan_file so q checked r cur \<noteq> None"
  by (auto simp: scan_file_def)

lemma scan_nzb_mono: "cur \<noteq> None \<Longrightarrow> scan_nzb so q checked i cur \<noteq> None"
proof -
  assume c: "cur \<noteq> None"
  then have "foldl (\<lambda>cur j. scan_file so q checked (i, j) cur) cur [0..<length (nz_fileList (q ! i))] \<noteq> None"
    by (rule foldl_not_None) (rule scan_file_mono)
  with c show ?thesis by (auto simp: scan_nzb_def)
qed

lemma find_file_None:
  assumes "find_file so q checked = None" "r \<in> refs q" "nzb_open so (nzb_at q r)" "file_open so (file_at q r)"
  shows "r \<in> set checked"
proof -
  have "scan_nzb so q checked (fst r) None = None"
    using scan_None [of "scan_nzb so q checked" None "[0..<length q]"] assms(1,2) scan_nzb_mono
    by (simp add: find_file_def mem_refs)
  then have "foldl (\<lambda>cur j. scan_file so q checked (fst r, j) cur) None [0..<length (nz_fileList (q ! fst r))] = None"
    using assms(3) by (simp add: scan_nzb_def nzb_at_def)
  from scan_None [OF this scan_file_mono] have "scan_file so q checked r None = None"
    using assms(2) by (cases r) (simp add: mem_refs)
  then show ?thesis using assms(4) by (simp add: scan_file_def split: if_splits)
qed

text \<open>What the loader is relied on for.\<close>

definition loader_ok :: "article_loader \<Rightarrow> bool" where
  "loader_ok load \<longleftrightarrow> (\<forall>fi. search_view (load fi) = search_view fi \<and>
     (fi_articles (load fi) = [] \<longrightarrow> load fi = fi))"

lemma ensure_loaded_idem:
  assumes "loader_ok load"
  shows "ensure_loaded load so (ensure_loaded load so fi) = ensure_loaded load so fi"
proof (cases "fi_articles (load fi) = []")
  case True
  then have "load fi = fi" using assms unfolding loader_ok_def by blast
  then show ?thesis by (simp add: ensure_loaded_def)
next
  case False
  then show ?thesis by (simp add: ensure_loaded_def)
qed

definition candidate :: "search_options \<Rightarrow> queue \<Rightarrow> file_ref \<Rightarrow> bool" where
  "candidate so q r \<longleftrightarrow> r \<in> refs q \<and> nzb_open so (nzb_at q r) \<and> file_open so (file_at q r)"

lemma candidate_same_view: "same_view q q' \<Longrightarrow> candidate so q' r = candidate so q r"
  using same_view_open [of q q' r so] by (cases "r \<in> refs q") (simp_all add: candidate_def same_view_def)

definition answer_ok ::
    "search_options \<Rightarrow> queue \<Rightarrow> queue \<Rightarrow> file_ref \<Rightarrow> nat \<Rightarrow> bool" where
  "answer_ok so q q' r k \<longleftrightarrow> r \<in> refs q \<and> k < length (fi_articles (file_at q' r)) \<and>
     ai_status (fi_articles (file_at q' r) ! k) = aiUndefined \<and>
     (candidate so q r \<or>
      k = 0 \<and> so_directRename so \<and> (\<exists>c. candidate so q c \<and> fst c = fst r))"

lemma get_next_spec:
  assumes "loader_ok load" "\<forall>r\<in>set checked. tried load so q r"
    and "get_next_article load so checked q = (q', res)"
  shows "same_view q q' \<and>
    (case res of None \<Rightarrow> \<forall>r. candidate so q r \<longrightarrow> tried load so q' r
     | Some (r, k) \<Rightarrow> answer_ok so q q' r k)"
  using assms
proof (induction load so checked q arbitrary: q' res rule: get_next_article.induct)
  case (1 load so checked q)
  show ?case
  proof (cases "find_file so q checked")
    case None
    then have "q' = q" "res = None" using 1(4) by (simp_all add: get_next_article.simps [of _ _ _ q])
    then show ?thesis using None find_file_None 1(3) by (auto simp: candidate_def)
  next
    case (Some c)
    define first where "first = (if wants_first so (nzb_at q c) then get_next_first load so (fst c) q else (q, None))"
    obtain q1 hit where f: "first = (q1, hit)" by fastforce
    have c: "candidate so q c" "c \<in> refs q" using find_file_Some [OF Some] by (simp_all add: candidate_def)
    then have fc: "fst c < length q" by (simp add: mem_refs)
    have view: "search_view (load fi) = search_view fi" for fi using 1(2) unfolding loader_ok_def by blast
    have step: "same_view q q1 \<and> (\<forall>r. tried load so q r \<longrightarrow> file_at q1 r = file_at q r) \<and>
      (\<forall>r. hit = Some r \<longrightarrow> so_directRename so \<and> fst r = fst c \<and> r \<in> refs q \<and>
         fi_articles (file_at q1 r) \<noteq> [] \<and> ai_status (fi_articles (file_at q1 r) ! 0) = aiUndefined)"
    proof (cases "wants_first so (nzb_at q c)")
      case True
      then have "first_scan load so (fst c) [0..<length (nz_fileList (q ! fst c))] q = (q1, hit)"
        using f by (simp add: first_def get_next_first_def)
      from first_scan_spec [OF this _ fc view, OF set_upt_less] True show ?thesis by (auto simp: wants_first_def)
    next
      case False
      then show ?thesis using f by (simp add: first_def)
    qed
    show ?thesis
    proof (cases hit)
      case hit: (Some r)
      then have "q' = q1" "res = Some (r, 0)"
        using 1(4) Some f by (simp_all add: get_next_article.simps [of _ _ _ q] first_def)
      then show ?thesis using step hit c(1)
        by (cases c) (auto simp: answer_ok_def)
    next
      case None
      define fi where "fi = ensure_loaded load so (file_at q1 c)"
      define q2 where "q2 = put_file q1 c fi"
      have c1: "c \<in> refs q1" using step c(2) by (simp add: same_view_def)
      have f2: "file_at q2 r = (if r = c then fi else file_at q1 r)" for r
        by (simp add: q2_def file_at_put_file c1)
      have v: "same_view q q2"
        using step put_file_same_view [of fi q1 c] by (metis ensure_loaded_def fi_def q2_def same_view_trans view)
      show ?thesis
      proof (cases "next_undefined (fi_articles fi)")
        case (Some k)
        then have "q' = q2" "res = Some (c, k)"
          using 1(4) \<open>find_file so q checked = Some c\<close> f None
          by (simp_all add: get_next_article.simps [of _ _ _ q] first_def fi_def q2_def Let_def)
        then show ?thesis using v c next_undefined_Some [OF Some] by (simp add: answer_ok_def f2)
      next
        case none: None
        then have "get_next_article load so (checked @ [c]) q2 = (q', res)"
          using 1(4) Some f None
          by (simp add: get_next_article.simps [of _ _ _ q] first_def fi_def q2_def Let_def)
        moreover have "tried load so q2 r" if "r \<in> set (checked @ [c])" for r
        proof (cases "r = c")
          case True
          have "ensure_loaded load so fi = fi"
            unfolding fi_def by (rule ensure_loaded_idem [OF 1(2)])
          then show ?thesis using True none by (simp add: tried_def f2)
        next
          case False
          then have "tried load so q r" using that 1(3) by auto
          moreover have "file_at q1 r = file_at q r" using step \<open>tried load so q r\<close> by blast
          ultimately show ?thesis using False by (simp add: tried_def f2)
        qed
        ultimately have "same_view q2 q' \<and>
            (case res of None \<Rightarrow> \<forall>r. candidate so q2 r \<longrightarrow> tried load so q' r
             | Some (r, k) \<Rightarrow> answer_ok so q2 q' r k)"
          using 1(1) [OF Some _ None fi_def q2_def none 1(2)] f None by (auto simp: first_def)
        moreover have "refs q2 = refs q" using v by (simp add: same_view_def)
        ultimately show ?thesis
          using same_view_trans [OF v] candidate_same_view [OF v]
          by (auto simp: answer_ok_def split: option.splits)
      qed
    qed
  qed
qed

text \<open>C3: \<open>GetNextArticle\<close> always ends. An article it returns exists, is not started, finished or failed,
  and belongs to a file that may be downloaded now (not paused, deleted or still propagating, in a
  download with unpaused files that downloads or is forced) or, for direct renaming, is the first
  article of a file of the same download as such a file. When it returns nothing, every file that
  may be downloaded has its articles loaded and none of them left to download.\<close>

theorem next_article_correct:
  assumes "loader_ok load" "get_next_article load so [] q = (q', res)"
  shows "case res of
      Some (r, k) \<Rightarrow> answer_ok so q q' r k
    | None \<Rightarrow> \<forall>r. candidate so q r \<longrightarrow> tried load so q' r"
  using get_next_spec [OF assms(1) _ assms(2)] by (simp split: option.splits)

section \<open>Priorities\<close>

text \<open>
  What is left of a search is a maximum: no file seen so far that may be downloaded is higher than
  the current one.
\<close>

definition extra_flags_ok :: "search_options \<Rightarrow> queue \<Rightarrow> bool" where
  "extra_flags_ok so q \<longleftrightarrow> (\<forall>i<length q. nzb_open so (q ! i) \<longrightarrow>
     (has_extra_priority (q ! i) \<longleftrightarrow>
        (\<exists>j<length (nz_fileList (q ! i)). file_open so (file_at q (i, j)) \<and> fi_extraPriority (file_at q (i, j)))))"

definition best :: "search_options \<Rightarrow> queue \<Rightarrow> file_ref set \<Rightarrow> file_ref option \<Rightarrow> bool" where
  "best so q seen cur \<longleftrightarrow>
     (case cur of None \<Rightarrow> \<forall>r\<in>seen. \<not> candidate so q r
      | Some c \<Rightarrow> candidate so q c \<and> (\<forall>r\<in>seen. candidate so q r \<longrightarrow> \<not> file_higher q r c))"

lemma best_mono:
  "best so q S cur \<Longrightarrow> (\<And>r. r \<in> T \<Longrightarrow> candidate so q r \<Longrightarrow> r \<in> S) \<Longrightarrow> best so q T cur"
  unfolding best_def by (cases cur) (simp_all, blast+)

lemma file_higher_trans:
  "\<not> file_higher q a b \<Longrightarrow> file_higher q c b \<Longrightarrow> \<not> file_higher q a c"
  by (auto simp: file_higher_def)

lemma best_scan_file:
  assumes "best so q seen cur" "(i, j) \<in> refs q" "nzb_open so (q ! i)"
  shows "best so q (insert (i, j) seen) (scan_file so q [] (i, j) cur)"
proof (cases cur)
  case None
  then show ?thesis using assms
    by (auto simp: best_def scan_file_def candidate_def nzb_at_def file_higher_def)
next
  case (Some c)
  then show ?thesis using assms
    by (auto simp: best_def scan_file_def candidate_def nzb_at_def intro: file_higher_trans)
       (auto simp: file_higher_def)
qed

lemma best_scan_files:
  assumes "best so q seen cur" "\<And>j. j \<in> set js \<Longrightarrow> (i, j) \<in> refs q" "nzb_open so (q ! i)"
  shows "best so q (seen \<union> Pair i ` set js) (foldl (\<lambda>cur j. scan_file so q [] (i, j) cur) cur js)"
  using assms(1,2)
proof (induction js arbitrary: cur seen)
  case (Cons j js)
  from Cons.IH [OF best_scan_file [OF Cons.prems(1) _ assms(3)]] Cons.prems(2) show ?case by simp
qed simp

lemma nzb_not_higher:
  assumes "extra_flags_ok so q" "candidate so q c" "\<not> nzb_higher (q ! i) (nzb_at q c)"
    and "candidate so q (i, j)" "fi_extraPriority (file_at q c) = has_extra_priority (nzb_at q c)"
  shows "\<not> file_higher q (i, j) c"
proof -
  have "fi_extraPriority (file_at q (i, j)) \<longrightarrow> has_extra_priority (q ! i)"
    using assms(1,4) by (auto simp: extra_flags_ok_def candidate_def mem_refs nzb_at_def)
  then show ?thesis using assms(3,5)
    by (auto simp: file_higher_def nzb_higher_def nzb_at_def)
qed

definition best_flag :: "search_options \<Rightarrow> queue \<Rightarrow> file_ref set \<Rightarrow> file_ref option \<Rightarrow> bool" where
  "best_flag so q seen cur \<longleftrightarrow> best so q seen cur \<and>
     (\<forall>c. cur = Some c \<longrightarrow> fi_extraPriority (file_at q c) = has_extra_priority (nzb_at q c))"

lemma scan_files_from:
  assumes "foldl (\<lambda>cur j. scan_file so q checked (i, j) cur) cur js = Some x"
  shows "cur = Some x \<or> fst x = i \<and> file_open so (file_at q x)"
  using assms
  by (rule foldl_choice) (auto simp: scan_file_def split: if_splits)

lemma best_scan_nzb:
  assumes ok: "extra_flags_ok so q" and i: "i < length q"
    and b: "best_flag so q {r. fst r < i} cur"
  shows "best_flag so q {r. fst r < Suc i} (scan_nzb so q [] i cur)"
proof -
  let ?js = "[0..<length (nz_fileList (q ! i))]"
  let ?new = "foldl (\<lambda>cur j. scan_file so q [] (i, j) cur) cur ?js"
  have seen: "r \<in> {r. fst r < i} \<union> Pair i ` set ?js" if "fst r < Suc i" "candidate so q r" for r
    using that by (cases r) (auto simp: candidate_def mem_refs less_Suc_eq)
  consider (closed) "\<not> nzb_open so (q ! i)"
    | (lower) c where "nzb_open so (q ! i)" "cur = Some c" "\<not> nzb_higher (q ! i) (nzb_at q c)"
    | (scan) "nzb_open so (q ! i)" "case cur of None \<Rightarrow> True | Some c \<Rightarrow> nzb_higher (q ! i) (nzb_at q c)"
    by (cases cur) auto
  then show ?thesis
  proof cases
    case closed
    then have "\<not> candidate so q r" if "fst r = i" for r using that by (auto simp: candidate_def nzb_at_def)
    with b closed show ?thesis
      by (auto simp: best_flag_def best_def scan_nzb_def less_Suc_eq split: option.splits)
  next
    case lower
    then have "\<not> file_higher q r c" if "fst r = i" "candidate so q r" for r
      using nzb_not_higher [OF ok, of c i "snd r"] b that
      by (cases r) (auto simp: best_flag_def best_def)
    with b lower show ?thesis
      by (auto simp: best_flag_def best_def scan_nzb_def less_Suc_eq)
  next
    case scan
    have bn: "best so q ({r. fst r < i} \<union> Pair i ` set ?js) ?new"
      by (rule best_scan_files) (use b scan i in \<open>auto simp: best_flag_def mem_refs\<close>)
    then have "best so q {r. fst r < Suc i} ?new"
      by (rule best_mono) (use seen in auto)
    moreover have "fi_extraPriority (file_at q c) = has_extra_priority (nzb_at q c)" if n: "?new = Some c" for c
    proof -
      have c: "candidate so q c" using bn n by (simp add: best_def)
      then have up: "fi_extraPriority (file_at q c) \<longrightarrow> has_extra_priority (nzb_at q c)"
        using ok by (cases c) (auto simp: extra_flags_ok_def candidate_def mem_refs nzb_at_def)
      show ?thesis
      proof (cases "has_extra_priority (q ! i)")
        case True
        then obtain j where j: "candidate so q (i, j)" "fi_extraPriority (file_at q (i, j))"
          using ok i scan(1) by (auto simp: extra_flags_ok_def candidate_def mem_refs nzb_at_def)
        then have "\<not> file_higher q (i, j) c" using bn n seen [of "(i, j)"] by (auto simp: best_def)
        then show ?thesis using j up by (auto simp: file_higher_def)
      next
        case False
        from scan_files_from [OF n] show ?thesis
        proof
          assume "cur = Some c" then show ?thesis using b by (simp add: best_flag_def)
        next
          assume "fst c = i \<and> file_open so (file_at q c)"
          then show ?thesis using up False by (simp add: nzb_at_def)
        qed
      qed
    qed
    ultimately show ?thesis using scan by (auto simp: best_flag_def scan_nzb_def)
  qed
qed

lemma best_find_file:
  assumes "extra_flags_ok so q"
  shows "best_flag so q {r. fst r < length q} (find_file so q [])"
proof -
  have "n \<le> length q \<Longrightarrow>
      best_flag so q {r. fst r < n} (foldl (\<lambda>cur i. scan_nzb so q [] i cur) None [0..<n])" for n
  proof (induction n)
    case (Suc n)
    then show ?case using best_scan_nzb [OF assms, of n] by simp
  qed (simp add: best_flag_def best_def)
  then show ?thesis by (simp add: find_file_def)
qed

text \<open>As long as the extra-priority counter of each active download tells whether it has a file with
  extra priority to download, the file found first has extra priority if any file has, and among
  the files of the same kind its download has the highest priority.\<close>

theorem search_respects_priorities:
  assumes "extra_flags_ok so q" "find_file so q [] = Some c"
  shows "candidate so q c \<and> (\<forall>r. candidate so q r \<longrightarrow> \<not> file_higher q r c)"
  using best_find_file [OF assms(1)] assms(2)
  by (auto simp: best_flag_def best_def candidate_def mem_refs)

section \<open>Examples\<close>

definition example_article :: article_info where
  "example_article = \<lparr>ai_partNumber = 1, ai_messageId = ''<1@x>'', ai_size = 100, ai_segmentContent = None,
     ai_segmentOffset = 0, ai_segmentSize = 0, ai_crc = 0, ai_status = aiUndefined, ai_resultFilename = []\<rparr>"

definition example_options :: search_options where
  "example_options = \<lparr>so_now = 1000, so_paused = False, so_propagationDelay = 0, so_directRename = False,
     so_serverMode = False\<rparr>"

definition one_file :: "bool \<Rightarrow> bool \<Rightarrow> file_info" where
  "one_file paused extra = file_init\<lparr>fi_articles := [example_article], fi_paused := paused, fi_extraPriority := extra\<rparr>"

definition plain_nzb :: "int \<Rightarrow> int \<Rightarrow> int \<Rightarrow> file_info list \<Rightarrow> nzb_info" where
  "plain_nzb priority extra paused files = nzb_init\<lparr>nz_priority := priority, nz_extraPriority := extra,
     nz_pausedFileCount := paused, nz_fileList := files\<rparr>"

lemmas search_evaluation = get_next_article.simps find_file_def scan_nzb_def scan_file_def nzb_open_def
  nzb_paused_def file_open_def propagation_wait_def nzb_higher_def file_higher_def file_at_def nzb_at_def
  plain_nzb_def one_file_def example_options_def nzb_init_def file_init_def has_extra_priority_def
  get_force_priority_def wants_first_def ensure_loaded_def put_file_def example_article_def upt_rec

theorem next_article_correct_witness:
  "\<exists>q'. get_next_article id example_options [] [plain_nzb 0 0 0 [one_file False False]] = (q', Some ((0, 0), 0)) \<and>
     answer_ok example_options [plain_nzb 0 0 0 [one_file False False]] q' (0, 0) 0"
proof -
  have "loader_ok id" by (simp add: loader_ok_def)
  moreover have "\<exists>q'. get_next_article id example_options [] [plain_nzb 0 0 0 [one_file False False]] =
      (q', Some ((0, 0), 0))"
    by (simp add: search_evaluation)
  ultimately show ?thesis using next_article_correct [of id example_options] by fastforce
qed

theorem search_respects_priorities_witness:
  "candidate example_options [plain_nzb 1 0 0 [one_file False False], plain_nzb 5 0 0 [one_file False False]] (1, 0)"
proof -
  let ?q = "[plain_nzb 1 0 0 [one_file False False], plain_nzb 5 0 0 [one_file False False]]"
  have "extra_flags_ok example_options ?q"
    by (auto simp: extra_flags_ok_def less_Suc_eq plain_nzb_def one_file_def file_at_def has_extra_priority_def
        nzb_init_def file_init_def)
  moreover have "find_file example_options ?q [] = Some (1, 0)" by (simp add: search_evaluation)
  ultimately show ?thesis using search_respects_priorities [of example_options ?q "(1, 0)"] by blast
qed

text \<open>A file with extra priority is not always taken first: the counter of the other download also
  counts its paused file with extra priority, so that the download is not left for one whose file
  with extra priority can be downloaded.\<close>

theorem extra_priority_passed_over:
  "\<exists>q. find_file example_options q [] = Some (0, 1) \<and> candidate example_options q (1, 0) \<and>
     fi_extraPriority (file_at q (1, 0)) \<and> \<not> fi_extraPriority (file_at q (0, 1))"
  by (rule exI [of _ "[plain_nzb 0 1 1 [one_file True True, one_file False False], plain_nzb 0 1 0 [one_file False True]]"])
     (simp add: search_evaluation candidate_def mem_refs)

end
