(* ===== verification/QueueSteps.thy ===== *)
theory QueueSteps
  imports QueueSearch
begin

text \<open>
  The steps of the queue coordinator (\<open>daemon/queue/QueueCoordinator.cpp\<close>): starting an article
  download, the end of an article download (\<open>ArticleCompleted\<close>), the deletion of files and the
  health check, with the edit actions of \<open>QueueEditor\<close> the health check calls.

  A running \<open>ArticleDownloader\<close> refers to its file by the file's id and to its article by the
  position in the file. The disk state, temporary files and log messages are left out; what other
  components decide or compute during a step comes in through the record \<open>queue_env\<close>.
\<close>

section \<open>The state\<close>

datatype downloader_status = adUndefined | adRunning | adWaiting | adFinished | adFailed | adRetry
  | adCrcError | adNotFound | adConnectError | adFatalError

record downloader =
  dl_file :: int
  dl_article :: nat
  dl_status :: downloader_status
  dl_serverStats :: "server_stat list"
  dl_downloadedSize :: int
  dl_articleFilename :: "cstring option"
  dl_lastUpdate :: int
  dl_stopped :: bool

datatype queue_event = eaFileCompleted int int | eaFileDeleted int int | eaNzbDeleted int

record coordinator =
  qc_queue :: queue
  qc_active :: "downloader list"
  qc_events :: "queue_event list"

datatype file_naming = nfAuto | nfArticle | nfNzb
datatype health_check = hcPause | hcDelete | hcPark | hcNone

record queue_options =
  qo_now :: int
  qo_serverMode :: bool
  qo_continuePartial :: bool
  qo_directRename :: bool
  qo_fileNaming :: file_naming
  qo_dupeCheck :: bool
  qo_healthCheck :: health_check
  qo_parScanDupe :: bool
  qo_keepHistory :: int
  qo_articleTimeout :: int

record queue_env =
  qe_obfuscated :: "cstring \<Rightarrow> bool"
  qe_validName :: "cstring \<Rightarrow> cstring"
  qe_fileExists :: "cstring \<Rightarrow> bool"
  qe_analyzed :: "nat \<Rightarrow> file_info \<Rightarrow> file_info"
  qe_renamed :: "nzb_info \<Rightarrow> nzb_info"
  qe_completeParts :: "file_info \<Rightarrow> file_info"

section \<open>Starting an article\<close>

definition put_nzb :: "queue \<Rightarrow> nat \<Rightarrow> nzb_info \<Rightarrow> queue" where
  "put_nzb q i nz = q[i := nz]"

definition nzb_put_file :: "nat \<Rightarrow> file_info \<Rightarrow> nzb_info \<Rightarrow> nzb_info" where
  "nzb_put_file j fi nz = set_file_list ((nz_fileList nz)[j := fi]) nz"

definition set_article_status :: "nat \<Rightarrow> article_status \<Rightarrow> file_info \<Rightarrow> file_info" where
  "set_article_status k st fi =
     fi\<lparr>fi_articles := (fi_articles fi)[k := (fi_articles fi ! k)\<lparr>ai_status := st\<rparr>]\<rparr>"

definition start_article_download :: "int \<Rightarrow> file_ref \<Rightarrow> nat \<Rightarrow> coordinator \<Rightarrow> coordinator" where
  "start_article_download now r k s =
     (let nz = nzb_at (qc_queue s) r;
          fi = set_article_status k aiRunning (file_at (qc_queue s) r);
          fi = file_set_active_downloads (fi_activeDownloads fi + 1) fi;
          nz = nz_set_active_downloads now (nz_activeDownloads nz + 1) nz;
          dl = \<lparr>dl_file = fi_id fi, dl_article = k, dl_status = adUndefined, dl_serverStats = [],
                dl_downloadedSize = 0, dl_articleFilename = None, dl_lastUpdate = now, dl_stopped = False\<rparr>
      in s\<lparr>qc_queue := put_nzb (qc_queue s) (fst r) (nzb_put_file (snd r) fi nz),
           qc_active := qc_active s @ [dl]\<rparr>)"

section \<open>Deleting files\<close>

definition file_refs :: "queue \<Rightarrow> file_ref list" where
  "file_refs q = concat (map (\<lambda>i. map (Pair i) [0..<length (nz_fileList (q ! i))]) [0..<length q])"

definition locate :: "int \<Rightarrow> queue \<Rightarrow> file_ref option" where
  "locate fid q = find (\<lambda>r. fi_id (file_at q r) = fid) (file_refs q)"

definition completed_status_of :: "file_info \<Rightarrow> completed_status" where
  "completed_status_of fi =
     (if fi_totalArticles fi = fi_successArticles fi then cfSuccess
      else if fi_totalArticles fi = fi_missedArticles fi + fi_failedArticles fi then cfFailure
      else if fi_successArticles fi > 0 \<or> fi_failedArticles fi > 0 then cfPartial
      else cfNone)"

definition completed_file_of :: "bool \<Rightarrow> file_info \<Rightarrow> completed_file" where
  "completed_file_of completed fi =
     \<lparr>cf_id = fi_id fi,
      cf_filename = (if completed \<and> fi_outputFilename fi \<noteq> [] then base_file_name (fi_outputFilename fi)
                     else fi_filename fi),
      cf_origname = fi_origname fi, cf_status = completed_status_of fi,
      cf_crc = (if completed_status_of fi = cfSuccess then fi_crc fi else 0),
      cf_parFile = fi_parFile fi, cf_hash16k = fi_hash16k fi, cf_parSetId = fi_parSetId fi\<rparr>"

text \<open>\<open>DiscardDownloadedArticles\<close>: the articles of a partially downloaded par-file are given up.\<close>

definition discard_file :: "bool \<Rightarrow> file_info \<Rightarrow> file_info" where
  "discard_file serverMode fi = fi\<lparr>
     fi_serverStats := [], fi_successSize := 0, fi_successArticles := 0, fi_failedSize := 0,
     fi_failedArticles := 0, fi_completedArticles := 0, fi_remainingSize := fi_size fi - fi_missedSize fi,
     fi_outputFilename := [], fi_outputInitialized := False, fi_cachedArticles := 0,
     fi_partialChanged := False, fi_partialState := fpNone,
     fi_articles := (if serverMode then []
       else map (\<lambda>a. discard_segment (a\<lparr>ai_status := aiUndefined, ai_resultFilename := []\<rparr>)) (fi_articles fi))\<rparr>"

definition discard_downloaded_articles :: "bool \<Rightarrow> nat \<Rightarrow> nzb_info \<Rightarrow> nzb_info" where
  "discard_downloaded_articles serverMode j nz =
     (let fi = nz_fileList nz ! j;
          nz = nz\<lparr>
            nz_remainingSize := nz_remainingSize nz + fi_successSize fi + fi_failedSize fi,
            nz_pausedSize := (if fi_paused fi then nz_pausedSize nz + fi_successSize fi + fi_failedSize fi
                              else nz_pausedSize nz),
            nz_currentServerStats := list_op (fi_serverStats fi) soSubtract (nz_currentServerStats nz),
            nz_currentSuccessArticles := nz_currentSuccessArticles nz - fi_successArticles fi,
            nz_currentSuccessSize := nz_currentSuccessSize nz - fi_successSize fi,
            nz_parCurrentSuccessSize := nz_parCurrentSuccessSize nz - fi_successSize fi,
            nz_currentFailedArticles := nz_currentFailedArticles nz - fi_failedArticles fi,
            nz_currentFailedSize := nz_currentFailedSize nz - fi_failedSize fi,
            nz_parCurrentFailedSize := nz_parCurrentFailedSize nz - fi_failedSize fi\<rparr>
      in nzb_put_file j (discard_file serverMode fi) nz)"

text \<open>\<open>SavePartialState\<close>, as far as it changes the file.\<close>

definition save_partial_state :: "file_info \<Rightarrow> file_info" where
  "save_partial_state fi =
     (if fi_partialChanged fi then fi\<lparr>fi_partialChanged := False, fi_partialState := fpPartial\<rparr> else fi)"

definition discard_rename_step :: "queue_options \<Rightarrow> nat \<Rightarrow> nzb_info \<Rightarrow> nzb_info" where
  "discard_rename_step qo j nz =
     (let fi = nz_fileList nz ! j;
          nz = (if fi_parFile fi \<and> fi_completedArticles fi = 1 \<and> fi_activeDownloads fi = 0 \<and> \<not> fi_flushLocked fi
                then discard_downloaded_articles (qo_serverMode qo) j nz else nz);
          fi = nz_fileList nz ! j
      in if qo_serverMode qo \<and> fi_articles fi \<noteq> [] \<and> qo_continuePartial qo \<and> fi_activeDownloads fi = 0 \<and>
            fi_cachedArticles fi = 0
         then nzb_put_file j ((save_partial_state (fi\<lparr>fi_partialChanged := True\<rparr>))\<lparr>fi_articles := []\<rparr>) nz
         else nz)"

definition discard_direct_rename :: "queue_options \<Rightarrow> nzb_info \<Rightarrow> nzb_info" where
  "discard_direct_rename qo nz =
     foldl (\<lambda>nz j. discard_rename_step qo j nz) nz [0..<length (nz_fileList nz)]"

definition delete_file_info ::
    "queue_env \<Rightarrow> queue_options \<Rightarrow> file_ref \<Rightarrow> bool \<Rightarrow> coordinator \<Rightarrow> coordinator" where
  "delete_file_info qe qo r completed s =
     (let q = qc_queue s; nz = nzb_at q r; fi0 = file_at q r; fi = fi0\<lparr>fi_deleted := True\<rparr>;
          nz = nzb_put_file (snd r) fi nz;
          nz = (if completed \<or> nz_deleting nz then update_completed_stats fi nz else update_deleted_stats fi nz);
          nz = (if completed \<or> nz_parking nz
                then nz\<lparr>nz_completedFiles := nz_completedFiles nz @ [completed_file_of completed fi]\<rparr> else nz);
          nz = (if qo_directRename qo then qe_renamed qe nz else nz);
          nz = (if nz_directRenameStatus nz = tsRunning \<and> \<not> nz_deleting nz \<and> is_download_completed True nz
                then discard_direct_rename qo nz else nz);
          nz = set_file_list (take (snd r) (nz_fileList nz) @ drop (Suc (snd r)) (nz_fileList nz)) nz;
          ev = (if completed \<and> \<not> fi_deleted fi0 then eaFileCompleted else eaFileDeleted) (nz_id nz) (fi_id fi)
      in s\<lparr>qc_queue := put_nzb q (fst r) nz, qc_events := qc_events s @ [ev]\<rparr>)"

text \<open>\<open>DeleteQueueEntry\<close>: a file that is being downloaded is deleted by its last downloader.\<close>

definition delete_queue_entry ::
    "queue_env \<Rightarrow> queue_options \<Rightarrow> file_ref \<Rightarrow> coordinator \<Rightarrow> coordinator \<times> bool" where
  "delete_queue_entry qe qo r s =
     (let q = qc_queue s; fi = (file_at q r)\<lparr>fi_deleted := True\<rparr>;
          downloading = list_ex (\<lambda>d. dl_file d = fi_id fi) (qc_active s);
          s = s\<lparr>qc_queue := put_file q r fi,
                qc_active := map (\<lambda>d. if dl_file d = fi_id fi then d\<lparr>dl_stopped := True\<rparr> else d) (qc_active s)\<rparr>
      in (if downloading then s else delete_file_info qe qo r False s, downloading))"

section \<open>The health check\<close>

text \<open>\<open>QueueEditor::EditGroup\<close> for the actions of the health check: pausing the files of a download,
  and deleting them (\<open>park\<close> tells \<open>eaGroupParkDelete\<close> from \<open>eaGroupDelete\<close>).\<close>

definition group_pause :: "nzb_info \<Rightarrow> nzb_info" where
  "group_pause nz = foldl (\<lambda>nz j. nz_file_set_paused True j nz) nz [0..<length (nz_fileList nz)]"

definition delete_entry :: "queue_env \<Rightarrow> queue_options \<Rightarrow> int \<Rightarrow> coordinator \<Rightarrow> coordinator" where
  "delete_entry qe qo fid s =
     (case locate fid (qc_queue s) of
        None \<Rightarrow> s
      | Some r \<Rightarrow> if fi_deleted (file_at (qc_queue s) r) then s else fst (delete_queue_entry qe qo r s))"

definition mark_deleting :: "queue_options \<Rightarrow> bool \<Rightarrow> nzb_info \<Rightarrow> nzb_info" where
  "mark_deleting qo park nz = nz\<lparr>
     nz_deleting := True,
     nz_parking := park \<and> qo_keepHistory qo > 0 \<and> \<not> nz_unpackCleanedUpDisk nz \<and> nz_currentSuccessArticles nz > 0,
     nz_avoidHistory := False,
     nz_deletePaused := list_all fi_paused (nz_fileList nz),
     nz_cleanupDisk := \<not> park\<rparr>"

definition group_delete :: "queue_env \<Rightarrow> queue_options \<Rightarrow> bool \<Rightarrow> nat \<Rightarrow> coordinator \<Rightarrow> coordinator" where
  "group_delete qe qo park i s =
     (let nz = qc_queue s ! i;
          s = s\<lparr>qc_queue := put_nzb (qc_queue s) i (mark_deleting qo park nz)\<rparr>;
          s = foldl (\<lambda>s fid. delete_entry qe qo fid s) s (map fi_id (nz_fileList nz))
      in if park then s else s\<lparr>qc_events := qc_events s @ [eaNzbDeleted (nz_id nz)]\<rparr>)"

definition health_fine :: "queue_options \<Rightarrow> nzb_info \<Rightarrow> bool" where
  "health_fine qo nz \<longleftrightarrow>
     qo_healthCheck qo = hcNone \<or> nz_healthPaused nz \<or> nz_deleteStatus nz = dsHealth \<or>
     calc_health nz \<ge> calc_critical_health True nz \<or>
     (qo_parScanDupe qo \<and> qo_healthCheck qo = hcPark \<and>
      cdiv (nz_successArticles nz * 100) (nz_totalArticles nz) > 10)"

definition check_health :: "queue_env \<Rightarrow> queue_options \<Rightarrow> nat \<Rightarrow> coordinator \<Rightarrow> coordinator" where
  "check_health qe qo i s =
     (let nz = qc_queue s ! i
      in if health_fine qo nz then s
         else if qo_healthCheck qo = hcPause
         then s\<lparr>qc_queue := put_nzb (qc_queue s) i (group_pause (nz\<lparr>nz_healthPaused := True\<rparr>))\<rparr>
         else group_delete qe qo (qo_healthCheck qo = hcPark) i
                (s\<lparr>qc_queue := put_nzb (qc_queue s) i (nz\<lparr>nz_deleteStatus := dsHealth\<rparr>)\<rparr>))"

section \<open>The end of an article\<close>

definition article_counted ::
    "downloader_status \<Rightarrow> nat \<Rightarrow> server_stat list \<Rightarrow> file_info \<Rightarrow> nzb_info \<Rightarrow> file_info \<times> nzb_info" where
  "article_counted st k stats fi nz =
     (let a = fi_articles fi ! k; size = ai_size a;
          par = (if fi_parFile fi then size else 0);
          (fi, nz) =
            (if st = adFinished then
               ((set_article_status k aiFinished fi)\<lparr>
                  fi_successSize := fi_successSize fi + size, fi_successArticles := fi_successArticles fi + 1\<rparr>,
                nz\<lparr>nz_currentSuccessSize := nz_currentSuccessSize nz + size,
                   nz_parCurrentSuccessSize := nz_parCurrentSuccessSize nz + par,
                   nz_currentSuccessArticles := nz_currentSuccessArticles nz + 1\<rparr>)
             else if st = adFailed then
               ((set_article_status k aiFailed fi)\<lparr>
                  fi_failedSize := fi_failedSize fi + size, fi_failedArticles := fi_failedArticles fi + 1\<rparr>,
                nz\<lparr>nz_currentFailedSize := nz_currentFailedSize nz + size,
                   nz_parCurrentFailedSize := nz_parCurrentFailedSize nz + par,
                   nz_currentFailedArticles := nz_currentFailedArticles nz + 1\<rparr>)
             else if st = adRetry then
               (set_article_status k aiUndefined fi,
                if ai_partNumber a = 1 then nz\<lparr>nz_allFirst := False\<rparr> else nz)
             else (fi, nz))
      in if st = adRetry then (fi, nz)
         else
           (fi\<lparr>fi_remainingSize := fi_remainingSize fi - size,
               fi_completedArticles := fi_completedArticles fi + 1,
               fi_serverStats := list_op stats soAdd (fi_serverStats fi),
               fi_partialChanged := True\<rparr>,
            nz\<lparr>nz_remainingSize := nz_remainingSize nz - size,
               nz_pausedSize := (if fi_paused fi then nz_pausedSize nz - size else nz_pausedSize nz),
               nz_currentServerStats := list_op stats soAdd (nz_currentServerStats nz)\<rparr>))"

definition all_articles_done :: "file_info \<Rightarrow> bool" where
  "all_articles_done fi \<longleftrightarrow> int32 (int (length (fi_articles fi))) = fi_completedArticles fi"

text \<open>The name found in the article; the flag tells that the file turned out to be a duplicate.\<close>

definition confirm_filename ::
    "queue_env \<Rightarrow> queue_options \<Rightarrow> nzb_info \<Rightarrow> cstring \<Rightarrow> file_info \<Rightarrow> file_info \<times> bool" where
  "confirm_filename qe qo nz name fi =
     (let use = (qo_fileNaming qo = nfArticle \<or>
                 (qo_fileNaming qo = nfAuto \<and> \<not> qe_obfuscated qe name \<and> \<not> nz_manyDupeFiles nz));
          fi = (if use then fi\<lparr>fi_filename := qe_validName qe name\<rparr> else fi);
          fi = fi\<lparr>fi_filenameConfirmed := True\<rparr>
      in (fi, qo_dupeCheck qo \<and> nz_dupeMode nz \<noteq> dmForce \<and> \<not> nz_manyDupeFiles nz \<and>
              qe_fileExists qe (take 1023 (nz_destDir nz @ ''/'' @ fi_filename fi))))"

definition delete_downloader ::
    "queue_env \<Rightarrow> queue_options \<Rightarrow> nat \<Rightarrow> bool \<Rightarrow> file_ref \<Rightarrow> coordinator \<Rightarrow> coordinator" where
  "delete_downloader qe qo k fileCompleted r s =
     (let q = qc_queue s; nz = nzb_at q r; fi = file_at q r;
          deleteFileObj = (fileCompleted \<or> (fi_deleted fi \<and> \<not> fi_activeDownloads fi > 1));
          fi = file_set_active_downloads (fi_activeDownloads fi - 1) fi;
          nz = nz_set_active_downloads (qo_now qo) (nz_activeDownloads nz - 1) nz;
          s = s\<lparr>qc_active := take k (qc_active s) @ drop (Suc k) (qc_active s),
                qc_queue := put_nzb q (fst r) (nzb_put_file (snd r) fi nz)\<rparr>
      in if deleteFileObj
         then (let s = delete_file_info qe qo r fileCompleted s; q = qc_queue s
               in s\<lparr>qc_queue := put_nzb q (fst r) ((q ! fst r)\<lparr>nz_changed := True\<rparr>)\<rparr>)
         else s)"

definition article_arrived ::
    "queue_env \<Rightarrow> queue_options \<Rightarrow> downloader \<Rightarrow> file_ref \<Rightarrow> coordinator \<Rightarrow> coordinator \<times> bool" where
  "article_arrived qe qo dl r s =
     (let q = qc_queue s;
          (fi, nz) = article_counted (dl_status dl) (dl_article dl) (dl_serverStats dl) (file_at q r) (nzb_at q r);
          fileCompleted = (dl_status dl \<noteq> adRetry \<and> all_articles_done fi);
          (fi, dupe) =
            (case dl_articleFilename dl of
               Some name \<Rightarrow> if \<not> fi_filenameConfirmed fi \<and> dl_status dl = adFinished
                             then confirm_filename qe qo nz name fi else (fi, False)
             | None \<Rightarrow> (fi, False));
          fi = (if dupe then fi\<lparr>fi_dupeDeleted := True, fi_deleted := True\<rparr> else fi);
          s = (if dupe
               then s\<lparr>qc_active := map (\<lambda>d. if dl_file d = fi_id fi then d\<lparr>dl_stopped := True\<rparr> else d) (qc_active s)\<rparr>
               else s);
          fi = (if dl_status dl = adFinished then qe_analyzed qe (dl_article dl) fi else fi);
          nz = nz\<lparr>nz_downloadedSize := nz_downloadedSize nz + dl_downloadedSize dl\<rparr>
      in (s\<lparr>qc_queue := put_nzb q (fst r) (nzb_put_file (snd r) fi nz)\<rparr>, fileCompleted \<and> \<not> dupe))"

definition article_completed :: "queue_env \<Rightarrow> queue_options \<Rightarrow> nat \<Rightarrow> coordinator \<Rightarrow> coordinator" where
  "article_completed qe qo k s =
     (let dl = qc_active s ! k
      in case locate (dl_file dl) (qc_queue s) of
           None \<Rightarrow> s
         | Some r \<Rightarrow>
             (case article_arrived qe qo dl r s of (s, fileCompleted) \<Rightarrow>
                (let s = check_health qe qo (fst r) s
                 in case locate (dl_file dl) (qc_queue s) of
                      None \<Rightarrow> s
                    | Some r \<Rightarrow>
                        (let nz = nzb_at (qc_queue s) r; fi = file_at (qc_queue s) r;
                             fileCompleted = (fileCompleted \<or>
                               (nz_parking nz \<and> fi_activeDownloads fi = 1 \<and> \<not> fi_dupeDeleted fi));
                             completeFileParts = (fileCompleted \<and> (\<not> fi_deleted fi \<or> nz_parking nz))
                         in if completeFileParts
                            then delete_downloader qe qo k True r
                                   (s\<lparr>qc_queue := put_file (qc_queue s) r
                                       ((qe_completeParts qe fi)\<lparr>fi_partialChanged := False\<rparr>)\<rparr>)
                            else delete_downloader qe qo k False r s))))"

text \<open>\<open>ResetHangingDownloads\<close>.\<close>

definition reset_hanging :: "queue_options \<Rightarrow> coordinator \<Rightarrow> coordinator" where
  "reset_hanging qo s =
     (if qo_articleTimeout qo = 0 then s
      else s\<lparr>qc_active := map (\<lambda>d. if qo_now qo - dl_lastUpdate d > qo_articleTimeout qo + 1 \<and> dl_status d = adRunning
                                      then d\<lparr>dl_stopped := True\<rparr> else d) (qc_active s)\<rparr>)"

end
