(* ===== verification/QueueInv.thy ===== *)
theory QueueInv
  imports QueueSteps
begin

text \<open>
  The invariant of the queue coordinator: the counters of active downloads agree with the list of
  article downloaders, every downloader works on its own article of a file of the queue, and the
  number of completed articles of a file is the number of its finished and failed articles. It
  follows that no file is destroyed while a downloader refers to it.

  The invariant is stated on an abstraction of the queue, which keeps of every file its id, its
  count of active downloads, its count of completed articles and the states of its articles.
\<close>

section \<open>The abstraction\<close>

type_synonym file_core = "int \<times> int \<times> int \<times> article_status list"
type_synonym nzb_core = "int \<times> file_core list"

definition file_core :: "file_info \<Rightarrow> file_core" where
  "file_core fi = (fi_id fi, fi_activeDownloads fi, fi_completedArticles fi, map ai_status (fi_articles fi))"

definition nzb_core :: "nzb_info \<Rightarrow> nzb_core" where
  "nzb_core nz = (nz_activeDownloads nz, map file_core (nz_fileList nz))"

definition core_ids :: "nzb_core list \<Rightarrow> int list" where
  "core_ids cq = concat (map (\<lambda>nc. map fst (snd nc)) cq)"

definition done_flag :: "article_status \<Rightarrow> int" where
  "done_flag st = (if st = aiFinished \<or> st = aiFailed then 1 else 0)"

definition done_count :: "article_status list \<Rightarrow> int" where
  "done_count sts = sum_list (map done_flag sts)"

text \<open>The jobs of the downloaders: file and article.\<close>

type_synonym job = "int \<times> nat"

definition jobs :: "downloader list \<Rightarrow> job list" where
  "jobs ds = map (\<lambda>d. (dl_file d, dl_article d)) ds"

definition working_on :: "job list \<Rightarrow> int \<Rightarrow> nat list" where
  "working_on act fid = map snd (filter (\<lambda>d. fst d = fid) act)"

text \<open>\<open>extra\<close> counts, by file, a downloader that has ended its article but is still counted.\<close>

definition core_ok :: "job list \<Rightarrow> (int \<Rightarrow> int) \<Rightarrow> file_core \<Rightarrow> bool" where
  "core_ok act extra c \<longleftrightarrow>
     (case c of (fid, active, completed, sts) \<Rightarrow>
        active = int (length (working_on act fid)) + extra fid \<and>
        distinct (working_on act fid) \<and>
        (\<forall>k\<in>set (working_on act fid). k < length sts \<and> sts ! k = aiRunning) \<and>
        (sts \<noteq> [] \<longrightarrow> completed = done_count sts) \<and> int (length sts) < 2 ^ 31)"

definition nzb_ok :: "job list \<Rightarrow> (int \<Rightarrow> int) \<Rightarrow> nzb_core \<Rightarrow> bool" where
  "nzb_ok act extra nc \<longleftrightarrow> list_all (core_ok act extra) (snd nc) \<and>
     fst nc = sum_list (map (\<lambda>c. fst (snd c)) (snd nc))"

definition cores_ok :: "job list \<Rightarrow> (int \<Rightarrow> int) \<Rightarrow> nzb_core list \<Rightarrow> bool" where
  "cores_ok act extra cq \<longleftrightarrow> distinct (core_ids cq) \<and> list_all (nzb_ok act extra) cq \<and>
     (\<forall>d\<in>set act. fst d \<in> set (core_ids cq)) \<and>
     (\<forall>i. extra i \<ge> 0 \<and> (extra i > 0 \<longrightarrow> i \<in> set (core_ids cq)))"

definition coord_inv :: "job list \<Rightarrow> (int \<Rightarrow> int) \<Rightarrow> queue \<Rightarrow> bool" where
  "coord_inv act extra q \<longleftrightarrow> cores_ok act extra (map nzb_core q)"

definition coord_ok :: "coordinator \<Rightarrow> bool" where
  "coord_ok s \<longleftrightarrow> coord_inv (jobs (qc_active s)) (\<lambda>_. 0) (qc_queue s)"

section \<open>Changing one file\<close>

lemma core_ids_update:
  assumes "i < length cq" "map fst (snd nc) = map fst (snd (cq ! i))"
  shows "core_ids (cq[i := nc]) = core_ids cq"
proof -
  let ?f = "\<lambda>nc. map fst (snd nc)"
  have "map ?f (cq[i := nc]) = (map ?f cq)[i := map ?f cq ! i]"
    using assms by (simp only: map_update nth_map)
  then show ?thesis by (simp only: core_ids_def list_update_id)
qed

lemma core_ok_cong:
  assumes "working_on act' (fst c) = working_on act (fst c)" "extra' (fst c) = extra (fst c)"
  shows "core_ok act' extra' c = core_ok act extra c"
  using assms by (cases c) (simp add: core_ok_def)

lemma core_id_mem:
  "i < length cq \<Longrightarrow> c \<in> set (snd (cq ! i)) \<Longrightarrow> fst c \<in> set (core_ids cq)"
  by (auto simp: core_ids_def intro!: bexI [of _ "cq ! i"])

lemma core_ids_unique:
  assumes "distinct (core_ids cq)" "i < length cq" "j < length (snd (cq ! i))"
    and "i' < length cq" "j' < length (snd (cq ! i'))"
    and "fst (snd (cq ! i) ! j) = fst (snd (cq ! i') ! j')"
  shows "i = i' \<and> j = j'"
  using assms
proof (induction cq arbitrary: i i')
  case (Cons nc cq)
  have apart: "fst c \<notin> set (core_ids cq)" if "c \<in> set (snd nc)" for c
    using Cons.prems(1) that by (auto simp: core_ids_def)
  have here: "distinct (map fst (snd nc))" using Cons.prems(1) by (simp add: core_ids_def)
  show ?case
  proof (cases i; cases i')
    assume "i = 0" "i' = 0"
    then show ?thesis using Cons.prems here by (auto simp: distinct_conv_nth)
  next
    fix m assume "i = 0" "i' = Suc m"
    then show ?thesis using Cons.prems apart [of "snd nc ! j"] core_id_mem [of m cq] by (metis length_Cons nth_Cons_0 nth_Cons_Suc nth_mem Suc_less_eq)
  next
    fix m assume "i = Suc m" "i' = 0"
    then show ?thesis using Cons.prems apart [of "snd nc ! j'"] core_id_mem [of m cq] by (metis length_Cons nth_Cons_0 nth_Cons_Suc nth_mem Suc_less_eq)
  next
    fix m m' assume "i = Suc m" "i' = Suc m'"
    moreover have "distinct (core_ids cq)" using Cons.prems(1) by (simp add: core_ids_def)
    ultimately show ?thesis using Cons.IH [of m m'] Cons.prems by simp
  qed
qed simp

text \<open>The state of one file and the downloaders that work on it change; the other files see no change.\<close>

lemma cores_ok_change:
  assumes ok: "cores_ok act extra cq"
    and i: "i < length cq" and j: "j < length (snd (cq ! i))" and c: "snd (cq ! i) ! j = (fid, a, n, sts)"
    and others: "\<And>x. x \<noteq> fid \<Longrightarrow> working_on act' x = working_on act x \<and> extra' x = extra x"
    and new: "core_ok act' extra' (fid, a', n', sts')"
    and act': "\<And>d. d \<in> set act' \<Longrightarrow> fst d = fid \<or> fst d \<in> fst ` set act"
    and nonneg: "extra' fid \<ge> 0"
  shows "cores_ok act' extra' (cq[i := (fst (cq ! i) - a + a', (snd (cq ! i))[j := (fid, a', n', sts')])])"
proof -
  let ?nc = "(fst (cq ! i) - a + a', (snd (cq ! i))[j := (fid, a', n', sts')])"
  let ?cq = "cq[i := ?nc]"
  have ids: "core_ids ?cq = core_ids cq"
    by (rule core_ids_update [OF i]) (metis c fst_conv j list_update_id map_update nth_map snd_conv)
  have dist: "distinct (core_ids cq)" using ok by (simp add: cores_ok_def)
  have fid: "fid \<in> set (core_ids cq)" using core_id_mem [OF i, of "(fid, a, n, sts)"] c j by (metis fst_conv nth_mem)
  have keep: "core_ok act' extra' (snd (cq ! i') ! j')"
    if "i' < length cq" "j' < length (snd (cq ! i'))" "(i', j') \<noteq> (i, j)" for i' j'
  proof -
    have "fst (snd (cq ! i') ! j') \<noteq> fid"
      using core_ids_unique [OF dist i j that(1,2)] that(3) c by auto
    moreover have "core_ok act extra (snd (cq ! i') ! j')"
      using ok that(1,2) by (auto simp: cores_ok_def nzb_ok_def list_all_length)
    ultimately show ?thesis using core_ok_cong others by metis
  qed
  have "nzb_ok act' extra' (?cq ! i')" if i': "i' < length cq" for i'
  proof (cases "i' = i")
    case False
    then show ?thesis using ok i' keep [OF i']
      by (auto simp: cores_ok_def nzb_ok_def list_all_length)
  next
    case True
    have "core_ok act' extra' (snd ?nc ! j')" if "j' < length (snd ?nc)" for j'
      using keep [OF i, of j'] new that by (cases "j' = j") auto
    moreover have "fst (cq ! i) = sum_list (map (\<lambda>c. fst (snd c)) (snd (cq ! i)))"
      using ok i by (auto simp: cores_ok_def nzb_ok_def list_all_length)
    then have "fst ?nc = sum_list (map (\<lambda>c. fst (snd c)) (snd ?nc))"
      using sum_list_update_int [OF j, of "\<lambda>c. fst (snd c)"] c by simp
    ultimately show ?thesis using True i by (simp add: nzb_ok_def list_all_length)
  qed
  moreover have "\<forall>d\<in>set act'. fst d \<in> set (core_ids cq)"
  proof
    fix d assume "d \<in> set act'"
    from act' [OF this] ok fid show "fst d \<in> set (core_ids cq)" by (auto simp: cores_ok_def)
  qed
  moreover have "\<forall>x. extra' x \<ge> 0 \<and> (extra' x > 0 \<longrightarrow> x \<in> set (core_ids cq))"
    using others nonneg ok fid by (metis cores_ok_def)
  ultimately show ?thesis using ids dist by (simp add: cores_ok_def list_all_length)
qed

text \<open>A file nobody works on leaves the queue.\<close>

lemma cores_ok_remove:
  assumes ok: "cores_ok act extra cq"
    and i: "i < length cq" and j: "j < length (snd (cq ! i))" and c: "snd (cq ! i) ! j = (fid, a, n, sts)"
    and idle: "working_on act fid = []" "extra fid = 0"
  shows "cores_ok act extra (cq[i := (fst (cq ! i), take j (snd (cq ! i)) @ drop (Suc j) (snd (cq ! i)))]) \<and>
    fid \<notin> set (core_ids (cq[i := (fst (cq ! i), take j (snd (cq ! i)) @ drop (Suc j) (snd (cq ! i)))]))"
proof -
  let ?cs = "snd (cq ! i)"
  have cs: "?cs = take j ?cs @ (fid, a, n, sts) # drop (Suc j) ?cs" using j c by (metis id_take_nth_drop)
  have cq: "cq = take i cq @ (fst (cq ! i), ?cs) # drop (Suc i) cq" using i by (simp add: id_take_nth_drop)
  have upd: "cq[i := x] = take i cq @ x # drop (Suc i) cq" for x using i by (rule upd_conv_take_nth_drop)
  have id1: "core_ids cq = core_ids (take i cq) @ map fst (take j ?cs) @ fid # map fst (drop (Suc j) ?cs) @ core_ids (drop (Suc i) cq)"
    apply (subst cq, subst cs) by (simp add: core_ids_def)
  have id2: "core_ids (cq[i := (fst (cq ! i), take j ?cs @ drop (Suc j) ?cs)]) =
      core_ids (take i cq) @ map fst (take j ?cs) @ map fst (drop (Suc j) ?cs) @ core_ids (drop (Suc i) cq)"
    by (simp add: upd core_ids_def)
  have nz: "nzb_ok act extra (cq ! i)" using ok i by (simp add: cores_ok_def list_all_length)
  then have "core_ok act extra (fid, a, n, sts)" using j c by (metis list_all_length nzb_ok_def)
  then have "a = 0" using idle by (simp add: core_ok_def)
  moreover have "list_all (core_ok act extra) (take j ?cs @ drop (Suc j) ?cs) \<and>
      fst (cq ! i) = sum_list (map (\<lambda>c. fst (snd c)) (take j ?cs @ (fid, a, n, sts) # drop (Suc j) ?cs))"
    using nz cs by (metis (no_types, lifting) list_all_append list.pred_inject(2) nzb_ok_def)
  ultimately have "nzb_ok act extra (fst (cq ! i), take j ?cs @ drop (Suc j) ?cs)"
    by (simp add: nzb_ok_def)
  moreover have "list_all (nzb_ok act extra) (take i cq @ drop (Suc i) cq)"
    using ok by (auto simp: cores_ok_def list_all_iff dest: in_set_takeD in_set_dropD)
  moreover have "fst d \<noteq> fid" if "d \<in> set act" for d
    using that idle(1) by (auto simp: working_on_def filter_empty_conv)
  moreover have "distinct (core_ids cq)" "\<forall>d\<in>set act. fst d \<in> set (core_ids cq)"
    using ok by (simp_all add: cores_ok_def)
  moreover from this have "set (core_ids (cq[i := (fst (cq ! i), take j ?cs @ drop (Suc j) ?cs)])) = set (core_ids cq) - {fid}"
    "distinct (core_ids (cq[i := (fst (cq ! i), take j ?cs @ drop (Suc j) ?cs)]))"
    unfolding id2 unfolding id1 by auto
  moreover have "extra x \<ge> 0" "extra x > 0 \<Longrightarrow> x \<noteq> fid \<and> x \<in> set (core_ids cq)" for x
    using ok idle(2) by (auto simp: cores_ok_def)
  ultimately show ?thesis
    unfolding cores_ok_def upd by auto
qed

section \<open>Lists of jobs\<close>

lemma done_count_update:
  "k < length sts \<Longrightarrow> done_count (sts[k := st]) = done_count sts - done_flag (sts ! k) + done_flag st"
  by (simp add: done_count_def sum_list_update_int)

lemma done_count_all: "done_count sts = int (length sts) \<Longrightarrow> k < length sts \<Longrightarrow> done_flag (sts ! k) = 1"
proof (induction sts arbitrary: k)
  case (Cons st sts)
  have "done_count sts \<le> int (length sts)" for sts
    by (induction sts) (auto simp: done_count_def done_flag_def)
  from this [of sts] Cons.prems(1) have "done_flag st = 1" "done_count sts = int (length sts)"
    by (auto simp: done_count_def done_flag_def split: if_splits)
  with Cons.IH Cons.prems(2) show ?case by (cases k) auto
qed simp

lemma working_on_append [simp]: "working_on (xs @ ys) fid = working_on xs fid @ working_on ys fid"
  by (simp add: working_on_def)

lemma working_on_simps [simp]:
  "working_on [] fid = []"
  "working_on (d # act) fid = (if fst d = fid then snd d # working_on act fid else working_on act fid)"
  by (simp_all add: working_on_def)

lemma working_on_del_nth:
  assumes "k < length act"
  shows "working_on act fid =
    (if fst (act ! k) = fid then working_on (take k act) fid @ snd (act ! k) # working_on (drop (Suc k) act) fid
     else working_on (del_nth k act) fid)"
    "working_on (del_nth k act) fid = working_on (take k act) fid @ working_on (drop (Suc k) act) fid"
  using assms by (subst (1) del_nth_split [OF assms], auto simp: del_nth_def)

lemma jobs_simps [simp]:
  "jobs [] = []" "jobs (d # ds) = (dl_file d, dl_article d) # jobs ds" "jobs (xs @ ys) = jobs xs @ jobs ys"
  "length (jobs ds) = length ds" "jobs (take k ds) = take k (jobs ds)" "jobs (drop k ds) = drop k (jobs ds)"
  by (simp_all add: jobs_def take_map drop_map)

lemma jobs_stopped [simp]:
  "jobs (map (\<lambda>d. if P d then d\<lparr>dl_stopped := b\<rparr> else d) ds) = jobs ds"
  by (induction ds) auto

section \<open>The abstraction of the operations\<close>

lemma nzb_core_put_file:
  "nzb_core (nzb_put_file j fi nz) = (nz_activeDownloads nz, (map file_core (nz_fileList nz))[j := file_core fi])"
  by (simp add: nzb_core_def nzb_put_file_def map_update)
     (simp add: set_file_list_def)

lemma core_at:
  assumes "r \<in> refs q"
  shows "fst r < length (map nzb_core q)" "snd r < length (snd (map nzb_core q ! fst r))"
    "snd (map nzb_core q ! fst r) ! snd r = file_core (file_at q r)"
    "fst (map nzb_core q ! fst r) = nz_activeDownloads (nzb_at q r)"
    "snd (map nzb_core q ! fst r) = map file_core (nz_fileList (nzb_at q r))"
  using assms by (auto simp: mem_refs nzb_core_def file_at_def nzb_at_def)

lemma coord_inv_same:
  assumes "coord_inv act extra q" "i < length q \<Longrightarrow> nzb_core nz = nzb_core (q ! i)"
  shows "coord_inv act extra (q[i := nz])"
proof (cases "i < length q")
  case True
  then have "map nzb_core (q[i := nz]) = map nzb_core q"
    using assms(2) by (simp add: map_update) (metis list_update_id nth_map)
  then show ?thesis using assms(1) by (simp add: coord_inv_def)
next
  case False
  then show ?thesis using assms(1) by (simp add: not_less list_update_beyond)
qed

text \<open>One file of the queue and the jobs on it change.\<close>

lemma coord_inv_change:
  assumes inv: "coord_inv act extra q" and r: "r \<in> refs q"
    and old: "file_core (file_at q r) = (fid, a, n, sts)"
    and new: "nzb_core nz = (nz_activeDownloads (nzb_at q r) - a + a',
      (map file_core (nz_fileList (nzb_at q r)))[snd r := (fid, a', n', sts')])"
    and others: "\<And>x. x \<noteq> fid \<Longrightarrow> working_on act' x = working_on act x \<and> extra' x = extra x"
    and ok: "core_ok act' extra' (fid, a', n', sts')"
    and act': "\<And>d. d \<in> set act' \<Longrightarrow> fst d = fid \<or> fst d \<in> fst ` set act"
    and nonneg: "extra' fid \<ge> 0"
  shows "coord_inv act' extra' (q[fst r := nz])"
proof -
  from core_at [OF r] cores_ok_change [OF inv [unfolded coord_inv_def], of "fst r" "snd r" fid a n sts act' extra' a' n' sts']
    old others ok act' nonneg
  have "cores_ok act' extra' ((map nzb_core q)[fst r := (nz_activeDownloads (nzb_at q r) - a + a',
      (map file_core (nz_fileList (nzb_at q r)))[snd r := (fid, a', n', sts')])])"
    by simp
  then show ?thesis by (simp add: coord_inv_def map_update new)
qed

lemma coord_inv_core_ok:
  assumes "coord_inv act extra q" "r \<in> refs q"
  shows "core_ok act extra (file_core (file_at q r))"
  using assms by (auto simp: coord_inv_def cores_ok_def nzb_ok_def list_all_length mem_refs nzb_core_def file_at_def)

lemma nz_set_active_simps [simp]:
  "nz_activeDownloads (nz_set_active_downloads now n nz) = n"
  "nz_fileList (nz_set_active_downloads now n nz) = nz_fileList nz"
  by (simp_all add: nz_set_active_downloads_def Let_def)

lemma file_set_active_simps [simp]:
  "fi_id (file_set_active_downloads n fi) = fi_id fi"
  "fi_activeDownloads (file_set_active_downloads n fi) = n"
  "fi_completedArticles (file_set_active_downloads n fi) = fi_completedArticles fi"
  "fi_articles (file_set_active_downloads n fi) = fi_articles fi"
  by (simp_all add: file_set_active_downloads_def Let_def)

lemma set_article_status_core:
  "k < length (fi_articles fi) \<Longrightarrow> map ai_status (fi_articles (set_article_status k st fi)) =
     (map ai_status (fi_articles fi))[k := st]"
  by (simp add: set_article_status_def map_update)

lemma set_article_status_simps [simp]:
  "fi_id (set_article_status k st fi) = fi_id fi"
  "fi_activeDownloads (set_article_status k st fi) = fi_activeDownloads fi"
  "fi_completedArticles (set_article_status k st fi) = fi_completedArticles fi"
  "length (fi_articles (set_article_status k st fi)) = length (fi_articles fi)"
  by (simp_all add: set_article_status_def)

lemma start_keeps:
  assumes ok: "coord_ok s" and r: "r \<in> refs (qc_queue s)"
    and k: "k < length (fi_articles (file_at (qc_queue s) r))"
      "ai_status (fi_articles (file_at (qc_queue s) r) ! k) = aiUndefined"
  shows "coord_ok (start_article_download now r k s)"
proof -
  let ?fi = "file_at (qc_queue s) r"
  let ?sts = "map ai_status (fi_articles ?fi)"
  let ?act = "jobs (qc_active s)"
  note inv = ok [unfolded coord_ok_def]
  have old: "core_ok ?act (\<lambda>_. 0) (fi_id ?fi, fi_activeDownloads ?fi, fi_completedArticles ?fi, ?sts)"
    using coord_inv_core_ok [OF inv r] by (simp add: file_core_def)
  then have "k \<notin> set (working_on ?act (fi_id ?fi))" using k by (auto simp: core_ok_def)
  then have new: "core_ok (?act @ [(fi_id ?fi, k)]) (\<lambda>_. 0)
      (fi_id ?fi, fi_activeDownloads ?fi + 1, fi_completedArticles ?fi, ?sts[k := aiRunning])"
    using old k by (auto simp: core_ok_def done_count_update done_flag_def nth_list_update)
  have q: "qc_queue (start_article_download now r k s) = (qc_queue s)[fst r :=
      nzb_put_file (snd r) (file_set_active_downloads (fi_activeDownloads ?fi + 1) (set_article_status k aiRunning ?fi))
        (nz_set_active_downloads now (nz_activeDownloads (nzb_at (qc_queue s) r) + 1) (nzb_at (qc_queue s) r))]"
    and a: "jobs (qc_active (start_article_download now r k s)) = ?act @ [(fi_id ?fi, k)]"
    by (simp_all add: start_article_download_def put_nzb_def Let_def file_set_active_downloads_def)
  show ?thesis
    unfolding coord_ok_def q a
    by (rule coord_inv_change [OF inv r, of "fi_id ?fi" "fi_activeDownloads ?fi" "fi_completedArticles ?fi" ?sts
          _ "fi_activeDownloads ?fi + 1" "fi_completedArticles ?fi" "?sts[k := aiRunning]"])
       (use new k in \<open>auto simp: nzb_core_put_file set_article_status_core file_core_def\<close>)
qed

text \<open>The article of the job \<open>k\<close> is over: the job is taken off, its downloader still counts.\<close>

definition ended :: "int \<Rightarrow> int \<Rightarrow> int" where
  "ended fid x = (if x = fid then 1 else 0)"

lemma article_counted_core:
  assumes "article_counted st k stats fi nz = (fi', nz')" "k < length (fi_articles fi)"
    and "st = adFinished \<or> st = adFailed \<or> st = adRetry"
  shows "file_core fi' = (fi_id fi, fi_activeDownloads fi,
      (if st = adRetry then fi_completedArticles fi else fi_completedArticles fi + 1),
      (map ai_status (fi_articles fi))[k := (if st = adFinished then aiFinished
         else if st = adFailed then aiFailed else aiUndefined)])"
    "nz_activeDownloads nz' = nz_activeDownloads nz" "nz_fileList nz' = nz_fileList nz"
  using assms
  by (auto simp: article_counted_def Let_def file_core_def set_article_status_core split: if_splits)

lemma article_ended_core_ok:
  assumes ok: "core_ok act (\<lambda>_. 0) (fid, a, n, sts)" and j: "j < length act" "act ! j = (fid, k)"
    and st: "st = aiUndefined \<and> n' = n \<or> (st = aiFinished \<or> st = aiFailed) \<and> n' = n + 1"
  shows "core_ok (del_nth j act) (ended fid) (fid, a, n', sts[k := st])"
    "n' = n + 1 \<Longrightarrow> n' = int (length sts) \<Longrightarrow> working_on (del_nth j act) fid = []"
proof -
  let ?a = "working_on (take j act) fid" and ?b = "working_on (drop (Suc j) act) fid"
  have w: "working_on act fid = ?a @ k # ?b" "working_on (del_nth j act) fid = ?a @ ?b"
    using working_on_del_nth [OF j(1), of fid] j(2) by simp_all
  have k: "k < length sts" "sts ! k = aiRunning" "k \<notin> set (?a @ ?b)" using ok w by (auto simp: core_ok_def)
  then have ne: "sts \<noteq> []" by auto
  have n': "n' = done_count (sts[k := st])"
    using ok k st ne by (auto simp: core_ok_def done_count_update done_flag_def)
  have run: "m < length sts \<and> sts[k := st] ! m = aiRunning" if "m \<in> set (?a @ ?b)" for m
    using ok w that k(3) by (auto simp: core_ok_def nth_list_update)
  show "core_ok (del_nth j act) (ended fid) (fid, a, n', sts[k := st])"
    using ok w n' run by (auto simp: core_ok_def ended_def)
  show "working_on (del_nth j act) fid = []" if "n' = n + 1" "n' = int (length sts)"
  proof (rule ccontr)
    assume "\<not> ?thesis"
    then obtain m where m: "m \<in> set (?a @ ?b)" using w by (metis list.set_intros(1) neq_Nil_conv)
    have "done_flag (sts[k := st] ! m) = 1"
      by (rule done_count_all) (use that n' run [OF m] in auto)
    with run [OF m] show False by (simp add: done_flag_def)
  qed
qed

section \<open>Files leaving the queue\<close>

text \<open>What is relied on of the other components: they leave the abstraction alone.\<close>

definition env_ok :: "queue_env \<Rightarrow> bool" where
  "env_ok qe \<longleftrightarrow> (\<forall>k fi. file_core (qe_analyzed qe k fi) = file_core fi) \<and>
     (\<forall>fi. file_core (qe_completeParts qe fi) = file_core fi) \<and>
     (\<forall>nz. nzb_core (qe_renamed qe nz) = nzb_core nz)"

lemma nzb_core_length: "nzb_core nz = nzb_core nz' \<Longrightarrow> length (nz_fileList nz) = length (nz_fileList nz')"
  by (simp add: nzb_core_def) (metis length_map)

lemma nzb_core_nth:
  "nzb_core nz = nzb_core nz' \<Longrightarrow> j < length (nz_fileList nz) \<Longrightarrow>
   file_core (nz_fileList nz ! j) = file_core (nz_fileList nz' ! j)"
  by (simp add: nzb_core_def) (metis length_map nth_map)

lemma nzb_core_same_file:
  "file_core fi = file_core (nz_fileList nz ! j) \<Longrightarrow> nzb_core (nzb_put_file j fi nz) = nzb_core nz"
  by (simp add: nzb_core_put_file) (simp add: nzb_core_def flip: map_update)

lemma update_stats_core [simp]:
  "nzb_core (update_completed_stats fi nz) = nzb_core nz"
  "nzb_core (update_deleted_stats fi nz) = nzb_core nz"
  by (simp_all add: nzb_core_def) (simp_all add: update_completed_stats_def update_deleted_stats_def Let_def)

text \<open>\<open>DiscardDirectRename\<close> only touches files nobody works on.\<close>

lemma nzb_put_file_simps [simp]:
  "nz_activeDownloads (nzb_put_file j fi nz) = nz_activeDownloads nz"
  "nz_fileList (nzb_put_file j fi nz) = (nz_fileList nz)[j := fi]"
  "nz_id (nzb_put_file j fi nz) = nz_id nz"
  by (simp_all add: nzb_put_file_def) (simp_all add: set_file_list_def)

lemma discard_downloaded_simps [simp]:
  "nz_activeDownloads (discard_downloaded_articles sm j nz) = nz_activeDownloads nz"
  "nz_fileList (discard_downloaded_articles sm j nz) = (nz_fileList nz)[j := discard_file sm (nz_fileList nz ! j)]"
  by (simp_all add: discard_downloaded_articles_def Let_def)

definition idle_file :: "file_info \<Rightarrow> file_info \<Rightarrow> bool" where
  "idle_file fi fi' \<longleftrightarrow> file_core fi' = file_core fi \<or>
     fi_id fi' = fi_id fi \<and> fi_activeDownloads fi = 0 \<and> fi_activeDownloads fi' = 0 \<and>
     (length (fi_articles fi') \<le> length (fi_articles fi) \<or> int (length (fi_articles fi')) < 2 ^ 31) \<and>
     (fi_articles fi' \<noteq> [] \<longrightarrow> fi_completedArticles fi' = done_count (map ai_status (fi_articles fi')))"

lemma idle_file_trans: "idle_file a b \<Longrightarrow> idle_file b c \<Longrightarrow> idle_file a c"
  unfolding idle_file_def file_core_def by (auto dest: arg_cong [of _ _ length])

lemma discard_step_active [simp]:
  "nz_activeDownloads (discard_rename_step qo j nz) = nz_activeDownloads nz"
  by (simp add: discard_rename_step_def Let_def)

lemma discard_step_idle:
  assumes "j < length (nz_fileList nz)"
  shows "\<exists>fi. nz_fileList (discard_rename_step qo j nz) = (nz_fileList nz)[j := fi] \<and>
      idle_file (nz_fileList nz ! j) fi"
proof -
  let ?d = "discard_file (qo_serverMode qo) (nz_fileList nz ! j)"
  have zero: "done_count (map ai_status (map (\<lambda>a. discard_segment (a\<lparr>ai_status := aiUndefined, ai_resultFilename := []\<rparr>)) as)) = 0" for as
    by (induction as) (simp_all add: done_count_def done_flag_def discard_segment_def)
  have d: "idle_file (nz_fileList nz ! j) ?d" if "fi_activeDownloads (nz_fileList nz ! j) = 0"
    using that zero by (simp add: idle_file_def discard_file_def)
  have c: "idle_file fi ((save_partial_state (fi\<lparr>fi_partialChanged := True\<rparr>))\<lparr>fi_articles := []\<rparr>)"
    if "fi_activeDownloads fi = 0" for fi
    using that by (simp add: idle_file_def save_partial_state_def)
  have r: "idle_file fi fi" for fi by (simp add: idle_file_def)
  define nz1 where "nz1 = (if fi_parFile (nz_fileList nz ! j) \<and> fi_completedArticles (nz_fileList nz ! j) = 1 \<and>
      fi_activeDownloads (nz_fileList nz ! j) = 0 \<and> \<not> fi_flushLocked (nz_fileList nz ! j)
    then discard_downloaded_articles (qo_serverMode qo) j nz else nz)"
  define fi1 where "fi1 = nz_fileList nz1 ! j"
  have 1: "nz_fileList nz1 = (nz_fileList nz)[j := fi1]" "idle_file (nz_fileList nz ! j) fi1"
    using assms d r by (auto simp: nz1_def fi1_def)
  have step: "discard_rename_step qo j nz =
      (if qo_serverMode qo \<and> fi_articles fi1 \<noteq> [] \<and> qo_continuePartial qo \<and> fi_activeDownloads fi1 = 0 \<and>
          fi_cachedArticles fi1 = 0
       then nzb_put_file j ((save_partial_state (fi1\<lparr>fi_partialChanged := True\<rparr>))\<lparr>fi_articles := []\<rparr>) nz1
       else nz1)"
    by (simp only: discard_rename_step_def Let_def nz1_def fi1_def)
  show "\<exists>fi. nz_fileList (discard_rename_step qo j nz) = (nz_fileList nz)[j := fi] \<and> idle_file (nz_fileList nz ! j) fi"
  proof (cases "qo_serverMode qo \<and> fi_articles fi1 \<noteq> [] \<and> qo_continuePartial qo \<and> fi_activeDownloads fi1 = 0 \<and>
          fi_cachedArticles fi1 = 0")
    case True
    then have "discard_rename_step qo j nz =
        nzb_put_file j ((save_partial_state (fi1\<lparr>fi_partialChanged := True\<rparr>))\<lparr>fi_articles := []\<rparr>) nz1"
      unfolding step by (rule if_P)
    moreover have "fi_activeDownloads fi1 = 0" using True by blast
    ultimately show ?thesis using 1 idle_file_trans [OF 1(2) c] by auto
  next
    case False
    then have "discard_rename_step qo j nz = nz1" unfolding step by (rule if_not_P)
    then show ?thesis using 1 by metis
  qed
qed

definition idle_nzb :: "nzb_info \<Rightarrow> nzb_info \<Rightarrow> bool" where
  "idle_nzb nz nz' \<longleftrightarrow> nz_activeDownloads nz' = nz_activeDownloads nz \<and>
     list_all2 idle_file (nz_fileList nz) (nz_fileList nz')"

lemma idle_file_refl [simp]: "idle_file fi fi"
  by (simp add: idle_file_def)

lemma idle_nzb_trans:
  assumes "idle_nzb a b" "idle_nzb b c"
  shows "idle_nzb a c"
proof -
  have "idle_file (nz_fileList a ! i) (nz_fileList c ! i)" if "i < length (nz_fileList a)" for i
    by (rule idle_file_trans [of _ "nz_fileList b ! i"])
       (use assms that in \<open>simp_all add: idle_nzb_def list_all2_conv_all_nth\<close>)
  then show ?thesis using assms by (simp add: idle_nzb_def list_all2_conv_all_nth)
qed

lemma discard_step_idle_nzb:
  assumes "j < length (nz_fileList nz)"
  shows "idle_nzb nz (discard_rename_step qo j nz)"
proof -
  obtain fi where "nz_fileList (discard_rename_step qo j nz) = (nz_fileList nz)[j := fi]"
    "idle_file (nz_fileList nz ! j) fi"
    using discard_step_idle [OF assms] by blast
  then show ?thesis using assms by (simp add: idle_nzb_def list_all2_conv_all_nth nth_list_update)
qed

lemma discard_direct_rename_idle: "idle_nzb nz (discard_direct_rename qo nz)"
proof -
  have "set js \<subseteq> {..<length (nz_fileList nz)} \<Longrightarrow>
      idle_nzb nz (foldl (\<lambda>nz j. discard_rename_step qo j nz) nz js)" for js
  proof (induction js arbitrary: nz)
    case Nil
    then show ?case by (simp add: idle_nzb_def list_all2_refl)
  next
    case (Cons j js)
    then have "idle_nzb nz (discard_rename_step qo j nz)" by (simp add: discard_step_idle_nzb)
    moreover from this have "length (nz_fileList (discard_rename_step qo j nz)) = length (nz_fileList nz)"
      by (auto simp: idle_nzb_def dest: list_all2_lengthD)
    ultimately show ?case using Cons idle_nzb_trans by simp
  qed
  from this [OF set_upt_less] show ?thesis by (simp add: discard_direct_rename_def)
qed

lemma idle_core_ok:
  assumes "core_ok act extra (file_core fi)" "idle_file fi fi'" "\<forall>x. extra x \<ge> 0"
  shows "core_ok act extra (file_core fi')"
proof (cases "file_core fi' = file_core fi")
  case False
  then have i: "fi_id fi' = fi_id fi" "fi_activeDownloads fi = 0" "fi_activeDownloads fi' = 0"
    "length (fi_articles fi') \<le> length (fi_articles fi) \<or> int (length (fi_articles fi')) < 2 ^ 31"
    "fi_articles fi' \<noteq> [] \<longrightarrow> fi_completedArticles fi' = done_count (map ai_status (fi_articles fi'))"
    using assms(2) by (auto simp: idle_file_def)
  moreover have "extra (fi_id fi) \<ge> 0" using assms(3) by blast
  moreover have "int (length (working_on act (fi_id fi))) + extra (fi_id fi) = 0"
    using assms(1) i(2) by (simp add: core_ok_def file_core_def)
  moreover from calculation have "length (working_on act (fi_id fi)) = 0" "extra (fi_id fi) = 0"
    by linarith+
  ultimately show ?thesis using assms(1) by (auto simp: core_ok_def file_core_def)
qed (use assms in simp)

lemma idle_sums:
  "list_all2 idle_file fs fs' \<Longrightarrow> map fi_id fs' = map fi_id fs \<and>
     map fi_activeDownloads fs' = map fi_activeDownloads fs"
  by (induction rule: list_all2_induct) (auto simp: idle_file_def file_core_def)

lemma coord_inv_idle:
  assumes inv: "coord_inv act extra q" and idle: "i < length q \<Longrightarrow> idle_nzb (q ! i) nz"
  shows "coord_inv act extra (q[i := nz])"
proof (cases "i < length q")
  case True
  note fs = idle [OF True, unfolded idle_nzb_def]
  have ids: "map fst (snd (nzb_core nz)) = map fst (snd (nzb_core (q ! i)))"
    and act: "map (\<lambda>c. fst (snd c)) (snd (nzb_core nz)) = map (\<lambda>c. fst (snd c)) (snd (nzb_core (q ! i)))"
    using idle_sums [of "nz_fileList (q ! i)" "nz_fileList nz"] fs by (simp_all add: nzb_core_def file_core_def comp_def)
  have nn: "\<forall>x. extra x \<ge> 0" using inv by (simp add: coord_inv_def cores_ok_def)
  have old: "nzb_ok act extra (nzb_core (q ! i))" using inv True by (simp add: coord_inv_def cores_ok_def list_all_length)
  have "list_all (core_ok act extra) (map file_core (nz_fileList nz))"
    using fs old idle_core_ok [OF _ _ nn] by (auto simp: nzb_ok_def nzb_core_def list_all_length list_all2_conv_all_nth)
  then have "nzb_ok act extra (nzb_core nz)"
    using old act fs unfolding nzb_ok_def by (simp add: nzb_core_def)
  moreover have "core_ids (map nzb_core (q[i := nz])) = core_ids (map nzb_core q)"
    unfolding map_update by (rule core_ids_update) (use True ids in simp_all)
  ultimately show ?thesis
    using inv True unfolding coord_inv_def cores_ok_def
    by (auto simp: list_all_length nth_list_update)
next
  case False
  then show ?thesis using inv by (simp add: not_less list_update_beyond)
qed

lemma nzb_core_fields:
  "nzb_core (nz\<lparr>nz_completedFiles := x\<rparr>) = nzb_core nz"
  "nzb_core (nz\<lparr>nz_changed := b\<rparr>) = nzb_core nz"
  "nzb_core (nz\<lparr>nz_downloadedSize := n\<rparr>) = nzb_core nz"
  "nzb_core (nz\<lparr>nz_deleteStatus := ds\<rparr>) = nzb_core nz"
  "nzb_core (nz\<lparr>nz_healthPaused := b\<rparr>) = nzb_core nz"
  "nzb_core (mark_deleting qo park nz) = nzb_core nz"
  by (simp_all add: nzb_core_def mark_deleting_def)

lemma file_core_deleted [simp]: "file_core (fi\<lparr>fi_deleted := b\<rparr>) = file_core fi"
  by (simp add: file_core_def)

lemma idle_nzb_core: "nzb_core nz' = nzb_core nz \<Longrightarrow> idle_nzb nz nz'"
  using nzb_core_length [of nz nz'] nzb_core_nth [of nz nz']
  by (simp add: idle_nzb_def idle_file_def list_all2_conv_all_nth) (simp add: nzb_core_def)

text \<open>The download just before the file is taken from its list.\<close>

definition before_removal ::
    "queue_env \<Rightarrow> queue_options \<Rightarrow> file_ref \<Rightarrow> bool \<Rightarrow> queue \<Rightarrow> nzb_info" where
  "before_removal qe qo r completed q =
     (let fi = (file_at q r)\<lparr>fi_deleted := True\<rparr>;
          nz = nzb_put_file (snd r) fi (nzb_at q r);
          nz = (if completed \<or> nz_deleting nz then update_completed_stats fi nz else update_deleted_stats fi nz);
          nz = (if completed \<or> nz_parking nz
                then nz\<lparr>nz_completedFiles := nz_completedFiles nz @ [completed_file_of completed fi]\<rparr> else nz);
          nz = (if qo_directRename qo then qe_renamed qe nz else nz)
      in if nz_directRenameStatus nz = tsRunning \<and> \<not> nz_deleting nz \<and> is_download_completed True nz
         then discard_direct_rename qo nz else nz)"

lemma delete_file_info_queue:
  "qc_queue (delete_file_info qe qo r completed s) =
     (qc_queue s)[fst r := set_file_list (take (snd r) (nz_fileList (before_removal qe qo r completed (qc_queue s))) @
        drop (Suc (snd r)) (nz_fileList (before_removal qe qo r completed (qc_queue s))))
        (before_removal qe qo r completed (qc_queue s))]"
  "qc_active (delete_file_info qe qo r completed s) = qc_active s"
  by (simp_all add: delete_file_info_def before_removal_def put_nzb_def Let_def cong: if_cong)

lemma before_removal_idle:
  assumes "env_ok qe"
  shows "idle_nzb (nzb_at q r) (before_removal qe qo r completed q)"
proof -
  let ?fi = "(file_at q r)\<lparr>fi_deleted := True\<rparr>"
  define n1 where "n1 = nzb_put_file (snd r) ?fi (nzb_at q r)"
  define n2 where "n2 = (if completed \<or> nz_deleting n1 then update_completed_stats ?fi n1 else update_deleted_stats ?fi n1)"
  define n3 where "n3 = (if completed \<or> nz_parking n2
    then n2\<lparr>nz_completedFiles := nz_completedFiles n2 @ [completed_file_of completed ?fi]\<rparr> else n2)"
  define n4 where "n4 = (if qo_directRename qo then qe_renamed qe n3 else n3)"
  have 1: "nzb_core n1 = nzb_core (nzb_at q r)"
    unfolding n1_def by (rule nzb_core_same_file) (simp add: file_at_def nzb_at_def)
  have 2: "nzb_core n2 = nzb_core n1" by (simp add: n2_def)
  have 3: "nzb_core n3 = nzb_core n2" by (simp add: n3_def nzb_core_fields)
  have 4: "nzb_core n4 = nzb_core n3" using assms by (simp add: n4_def env_ok_def)
  have "before_removal qe qo r completed q =
      (if nz_directRenameStatus n4 = tsRunning \<and> \<not> nz_deleting n4 \<and> is_download_completed True n4
       then discard_direct_rename qo n4 else n4)"
    by (simp only: before_removal_def Let_def n1_def n2_def n3_def n4_def)
  moreover have "idle_nzb (nzb_at q r) n4" using 1 2 3 4 by (simp add: idle_nzb_core)
  ultimately show ?thesis using discard_direct_rename_idle [of n4 qo] idle_nzb_trans by simp
qed

lemma delete_file_info_keeps:
  assumes env: "env_ok qe" and inv: "coord_inv act extra (qc_queue s)" and r: "r \<in> refs (qc_queue s)"
    and idle: "working_on act (fi_id (file_at (qc_queue s) r)) = []" "extra (fi_id (file_at (qc_queue s) r)) = 0"
  shows "coord_inv act extra (qc_queue (delete_file_info qe qo r completed s))"
    "fi_id (file_at (qc_queue s) r) \<notin> set (core_ids (map nzb_core (qc_queue (delete_file_info qe qo r completed s))))"
proof -
  let ?q = "qc_queue s" and ?j = "snd r"
  define nz where "nz = before_removal qe qo r completed ?q"
  have i: "idle_nzb (nzb_at ?q r) nz" unfolding nz_def by (rule before_removal_idle [OF env])
  then have "coord_inv act extra (?q[fst r := nz])" using coord_inv_idle [OF inv, of "fst r" nz] by (simp add: nzb_at_def)
  then have c: "cores_ok act extra ((map nzb_core ?q)[fst r := nzb_core nz])" by (simp add: coord_inv_def map_update)
  have len: "fst r < length ?q" "?j < length (nz_fileList nz)"
    and fid: "fi_id (nz_fileList nz ! ?j) = fi_id (file_at ?q r)"
    using r i by (auto simp: mem_refs idle_nzb_def list_all2_conv_all_nth idle_file_def file_core_def nzb_at_def file_at_def)
  obtain a n sts where old: "file_core (nz_fileList nz ! ?j) = (fi_id (file_at ?q r), a, n, sts)"
    using fid by (simp add: file_core_def)
  let ?cq = "(map nzb_core ?q)[fst r := nzb_core nz, fst r :=
      (fst ((map nzb_core ?q)[fst r := nzb_core nz] ! fst r),
       take ?j (snd ((map nzb_core ?q)[fst r := nzb_core nz] ! fst r)) @
       drop (Suc ?j) (snd ((map nzb_core ?q)[fst r := nzb_core nz] ! fst r)))]"
  have "cores_ok act extra ?cq \<and> fi_id (file_at ?q r) \<notin> set (core_ids ?cq)"
    by (rule cores_ok_remove [OF c _ _ _ idle]) (use len old in \<open>auto simp: nzb_core_def\<close>)
  then have new: "cores_ok act extra ((map nzb_core ?q)[fst r := (nz_activeDownloads nz,
      map file_core (take ?j (nz_fileList nz) @ drop (Suc ?j) (nz_fileList nz)))])"
    "fi_id (file_at ?q r) \<notin> set (core_ids ((map nzb_core ?q)[fst r := (nz_activeDownloads nz,
      map file_core (take ?j (nz_fileList nz) @ drop (Suc ?j) (nz_fileList nz)))]))"
    using len by (simp_all add: nzb_core_def take_map drop_map)
  have core: "nzb_core (set_file_list fs nz) = (nz_activeDownloads nz, map file_core fs)" for fs
    by (simp add: nzb_core_def) (simp add: set_file_list_def)
  show "coord_inv act extra (qc_queue (delete_file_info qe qo r completed s))"
    using new(1) core by (simp add: delete_file_info_queue coord_inv_def map_update flip: nz_def)
  show "fi_id (file_at ?q r) \<notin> set (core_ids (map nzb_core (qc_queue (delete_file_info qe qo r completed s))))"
    using new(2) core by (simp add: delete_file_info_queue map_update flip: nz_def)
qed

lemma set_file_refs: "set (file_refs q) = refs q"
  by (auto simp: file_refs_def refs_def)

lemma locate_Some: "locate fid q = Some r \<Longrightarrow> r \<in> refs q \<and> fi_id (file_at q r) = fid"
  unfolding locate_def set_file_refs [symmetric] find_Some_iff by (metis nth_mem)

lemma locate_ids:
  assumes "fid \<in> set (core_ids (map nzb_core q))"
  shows "\<exists>r. locate fid q = Some r"
proof (rule ccontr)
  assume "\<not> ?thesis"
  then have n: "locate fid q = None" by (cases "locate fid q") blast+
  from assms obtain i j where "i < length q" "j < length (nz_fileList (q ! i))" "fi_id (nz_fileList (q ! i) ! j) = fid"
    by (auto simp: core_ids_def nzb_core_def file_core_def in_set_conv_nth)
  then have "(i, j) \<in> refs q" "fi_id (file_at q (i, j)) = fid" by (simp_all add: mem_refs file_at_def)
  then show False using n unfolding locate_def find_None_iff set_file_refs by blast
qed

lemma locate_job: "coord_inv act extra q \<Longrightarrow> d \<in> set act \<Longrightarrow> \<exists>r. locate (fst d) q = Some r"
  by (rule locate_ids) (auto simp: coord_inv_def cores_ok_def)

lemma working_on_Nil: "\<not> list_ex (\<lambda>d. dl_file d = fid) ds \<Longrightarrow> working_on (jobs ds) fid = []"
  by (induction ds) auto

text \<open>\<open>act\<close> and \<open>extra\<close> cover the downloaders: a file without downloader has no job and no extra count.\<close>

definition covers :: "coordinator \<Rightarrow> job list \<Rightarrow> (int \<Rightarrow> int) \<Rightarrow> bool" where
  "covers s act extra \<longleftrightarrow>
     (\<forall>fid. \<not> list_ex (\<lambda>d. dl_file d = fid) (qc_active s) \<longrightarrow> working_on act fid = [] \<and> extra fid = 0)"

lemma list_ex_stopped:
  "list_ex (\<lambda>d. dl_file d = fid) (map (\<lambda>d. if P d then d\<lparr>dl_stopped := True\<rparr> else d) ds) =
     list_ex (\<lambda>d. dl_file d = fid) ds"
  by (induction ds) auto

lemma put_file_core:
  assumes "coord_inv act extra q" "file_core fi = file_core (file_at q r)"
  shows "coord_inv act extra (put_file q r fi)"
proof -
  have "nzb_core ((q ! fst r)\<lparr>nz_fileList := (nz_fileList (q ! fst r))[snd r := fi]\<rparr>) = nzb_core (q ! fst r)"
    using nzb_core_same_file [of fi "q ! fst r" "snd r"] assms(2)
    by (simp add: nzb_put_file_def set_file_list_def file_at_def)
  then show ?thesis unfolding put_file_def by (rule coord_inv_same [OF assms(1)])
qed

lemma delete_queue_entry_keeps:
  assumes env: "env_ok qe" and inv: "coord_inv act extra (qc_queue s)" and r: "r \<in> refs (qc_queue s)"
    and cov: "covers s act extra" and del: "delete_queue_entry qe qo r s = (s', b)"
  shows "coord_inv act extra (qc_queue s')" "jobs (qc_active s') = jobs (qc_active s)" "covers s' act extra"
proof -
  let ?q = "put_file (qc_queue s) r ((file_at (qc_queue s) r)\<lparr>fi_deleted := True\<rparr>)"
  let ?ds = "map (\<lambda>d. if dl_file d = fi_id (file_at (qc_queue s) r) then d\<lparr>dl_stopped := True\<rparr> else d) (qc_active s)"
  let ?s = "s\<lparr>qc_queue := ?q, qc_active := ?ds\<rparr>"
  have q: "coord_inv act extra ?q" by (rule put_file_core [OF inv]) simp
  have s': "s' = (if list_ex (\<lambda>d. dl_file d = fi_id (file_at (qc_queue s) r)) (qc_active s) then ?s
                  else delete_file_info qe qo r False ?s)"
    using del by (auto simp: delete_queue_entry_def Let_def)
  have act: "qc_active s' = ?ds" by (simp add: s' delete_file_info_queue)
  show "jobs (qc_active s') = jobs (qc_active s)" by (simp add: act)
  show "covers s' act extra" using cov by (simp add: covers_def act list_ex_stopped)
  show "coord_inv act extra (qc_queue s')"
  proof (cases "list_ex (\<lambda>d. dl_file d = fi_id (file_at (qc_queue s) r)) (qc_active s)")
    case False
    moreover have "fi_id (file_at ?q r) = fi_id (file_at (qc_queue s) r)" by (simp add: file_at_put_file r)
    ultimately have "coord_inv act extra (qc_queue (delete_file_info qe qo r False ?s))"
      using cov q r by (intro delete_file_info_keeps [OF env]) (simp_all add: covers_def)
    then show ?thesis using False by (simp add: s')
  qed (use q in \<open>simp add: s'\<close>)
qed

section \<open>The health check\<close>

lemma file_set_paused_core: "nzb_core (nz_file_set_paused b j nz) = nzb_core nz"
proof -
  have "nzb_core (set_file_list ((nz_fileList nz)[j := (nz_fileList nz ! j)\<lparr>fi_paused := b\<rparr>])
      (snd (file_set_paused b (nz_fileList nz ! j) nz))) =
    (nz_activeDownloads nz, (map file_core (nz_fileList nz))[j := file_core (nz_fileList nz ! j)])"
    by (simp add: nzb_core_def) (simp add: set_file_list_def file_set_paused_def map_update file_core_def)
  then show ?thesis
    by (simp add: nz_file_set_paused_def file_set_paused_def split del: if_split)
       (simp add: nzb_core_def flip: map_update)
qed

lemma group_pause_core: "nzb_core (group_pause nz) = nzb_core nz"
proof -
  have "nzb_core (foldl (\<lambda>nz j. nz_file_set_paused True j nz) nz js) = nzb_core nz" for js
    by (induction js arbitrary: nz) (simp_all add: file_set_paused_core)
  then show ?thesis by (simp add: group_pause_def)
qed

lemma delete_entry_keeps:
  assumes "env_ok qe" "coord_inv act extra (qc_queue s)" "covers s act extra"
  shows "coord_inv act extra (qc_queue (delete_entry qe qo fid s)) \<and>
    jobs (qc_active (delete_entry qe qo fid s)) = jobs (qc_active s) \<and> covers (delete_entry qe qo fid s) act extra"
proof (cases "locate fid (qc_queue s)")
  case (Some r)
  then have "r \<in> refs (qc_queue s)" using locate_Some by blast
  from delete_queue_entry_keeps [OF assms(1,2) this assms(3), of qo] Some assms show ?thesis
    by (cases "delete_queue_entry qe qo r s") (simp add: delete_entry_def)
qed (use assms in \<open>simp add: delete_entry_def\<close>)

lemma covers_queue [simp]: "covers (s\<lparr>qc_queue := q\<rparr>) act extra = covers s act extra"
  "covers (s\<lparr>qc_events := ev\<rparr>) act extra = covers s act extra"
  by (simp_all add: covers_def)

lemma group_delete_keeps:
  assumes env: "env_ok qe" and inv: "coord_inv act extra (qc_queue s)" and cov: "covers s act extra"
  shows "coord_inv act extra (qc_queue (group_delete qe qo park i s)) \<and>
    jobs (qc_active (group_delete qe qo park i s)) = jobs (qc_active s) \<and> covers (group_delete qe qo park i s) act extra"
proof -
  define s1 where "s1 = s\<lparr>qc_queue := put_nzb (qc_queue s) i (mark_deleting qo park (qc_queue s ! i))\<rparr>"
  have 1: "coord_inv act extra (qc_queue s1)" "covers s1 act extra" "qc_active s1 = qc_active s"
    using cov coord_inv_same [OF inv] by (simp_all add: s1_def put_nzb_def nzb_core_fields)
  have "coord_inv act extra (qc_queue (foldl (\<lambda>s fid. delete_entry qe qo fid s) s1 ids)) \<and>
    jobs (qc_active (foldl (\<lambda>s fid. delete_entry qe qo fid s) s1 ids)) = jobs (qc_active s) \<and>
    covers (foldl (\<lambda>s fid. delete_entry qe qo fid s) s1 ids) act extra" for ids
    using 1
  proof (induction ids rule: rev_induct)
    case (snoc fid ids)
    then show ?case
      using delete_entry_keeps [OF env, of act extra "foldl (\<lambda>s fid. delete_entry qe qo fid s) s1 ids" qo fid]
      by simp
  qed simp
  then show ?thesis unfolding group_delete_def Let_def s1_def [symmetric] by simp
qed

lemma check_health_keeps:
  assumes env: "env_ok qe" and inv: "coord_inv act extra (qc_queue s)" and cov: "covers s act extra"
  shows "coord_inv act extra (qc_queue (check_health qe qo i s)) \<and>
    jobs (qc_active (check_health qe qo i s)) = jobs (qc_active s) \<and> covers (check_health qe qo i s) act extra"
proof -
  let ?nz = "qc_queue s ! i"
  have p: "coord_inv act extra ((qc_queue s)[i := group_pause (?nz\<lparr>nz_healthPaused := True\<rparr>)])"
    by (rule coord_inv_same [OF inv]) (simp add: group_pause_core nzb_core_fields)
  have d: "coord_inv act extra ((qc_queue s)[i := ?nz\<lparr>nz_deleteStatus := dsHealth\<rparr>])"
    by (rule coord_inv_same [OF inv]) (simp add: nzb_core_fields)
  show ?thesis
    using inv cov p group_delete_keeps [OF env, of act extra "s\<lparr>qc_queue := (qc_queue s)[i := ?nz\<lparr>nz_deleteStatus := dsHealth\<rparr>]\<rparr>"] d
    by (simp add: check_health_def put_nzb_def Let_def)
qed

section \<open>The end of an article\<close>

lemma delete_downloader_keeps:
  assumes env: "env_ok qe" and k: "k < length (qc_active s)"
    and inv: "coord_inv (del_nth k (jobs (qc_active s))) (ended fid) (qc_queue s)"
    and r: "r \<in> refs (qc_queue s)" "fi_id (file_at (qc_queue s) r) = fid"
    and completed: "completed \<Longrightarrow> working_on (del_nth k (jobs (qc_active s))) fid = []"
  shows "coord_ok (delete_downloader qe qo k completed r s)"
    "completed \<Longrightarrow> fid \<notin> set (core_ids (map nzb_core (qc_queue (delete_downloader qe qo k completed r s))))"
proof -
  let ?act = "del_nth k (jobs (qc_active s))" and ?q = "qc_queue s"
  let ?fi = "file_at ?q r" and ?nz = "nzb_at ?q r"
  let ?sts = "map ai_status (fi_articles ?fi)"
  define s1 where "s1 = s\<lparr>qc_active := take k (qc_active s) @ drop (Suc k) (qc_active s),
     qc_queue := put_nzb ?q (fst r) (nzb_put_file (snd r) (file_set_active_downloads (fi_activeDownloads ?fi - 1) ?fi)
       (nz_set_active_downloads (qo_now qo) (nz_activeDownloads ?nz - 1) ?nz))\<rparr>"
  have a: "jobs (qc_active s1) = ?act" by (simp add: s1_def del_nth_def)
  have old: "core_ok ?act (ended fid) (fid, fi_activeDownloads ?fi, fi_completedArticles ?fi, ?sts)"
    using coord_inv_core_ok [OF inv r(1)] r(2) by (simp add: file_core_def)
  then have count: "fi_activeDownloads ?fi = int (length (working_on ?act fid)) + 1"
    by (simp add: core_ok_def ended_def)
  have inv1: "coord_inv ?act (\<lambda>_. 0) (qc_queue s1)"
    unfolding s1_def put_nzb_def
    by (simp, rule coord_inv_change [OF inv r(1), of fid "fi_activeDownloads ?fi" "fi_completedArticles ?fi" ?sts
          _ "fi_activeDownloads ?fi - 1" "fi_completedArticles ?fi" ?sts])
       (use old r in \<open>auto simp: nzb_core_put_file file_core_def core_ok_def ended_def\<close>)
  have r1: "r \<in> refs (qc_queue s1)" "fi_id (file_at (qc_queue s1) r) = fid"
    using r by (auto simp: s1_def mem_refs put_nzb_def file_at_def nzb_at_def nth_upd)
  let ?del = "completed \<or> (fi_deleted ?fi \<and> \<not> fi_activeDownloads ?fi > 1)"
  have "coord_ok (delete_downloader qe qo k completed r s) \<and> (completed \<longrightarrow>
      fid \<notin> set (core_ids (map nzb_core (qc_queue (delete_downloader qe qo k completed r s)))))"
  proof (cases ?del)
    case False
    then have "delete_downloader qe qo k completed r s = s1"
      unfolding delete_downloader_def Let_def s1_def by (rule if_not_P)
    moreover have "\<not> completed" using False by blast
    ultimately show ?thesis using inv1 a by (simp add: coord_ok_def)
  next
    case True
    then have "working_on ?act fid = []" using completed count by auto
    then have d: "coord_inv ?act (\<lambda>_. 0) (qc_queue (delete_file_info qe qo r completed s1))"
      "fid \<notin> set (core_ids (map nzb_core (qc_queue (delete_file_info qe qo r completed s1))))"
      using delete_file_info_keeps [OF env inv1 r1(1)] r1(2) by simp_all
    define s2 where "s2 = delete_file_info qe qo r completed s1"
    have eq: "delete_downloader qe qo k completed r s =
        s2\<lparr>qc_queue := put_nzb (qc_queue s2) (fst r) ((qc_queue s2 ! fst r)\<lparr>nz_changed := True\<rparr>)\<rparr>"
      using True by (simp add: delete_downloader_def Let_def s2_def flip: s1_def)
    moreover have "jobs (qc_active s2) = ?act" using a by (simp add: s2_def delete_file_info_queue)
    moreover have "map nzb_core (put_nzb q i ((q ! i)\<lparr>nz_changed := True\<rparr>)) = map nzb_core q" for q i
      by (simp add: put_nzb_def map_update nzb_core_fields) (metis list_update_beyond list_update_id map_update not_less)
    ultimately show ?thesis
      using d unfolding s2_def [symmetric] eq by (simp add: coord_ok_def coord_inv_def)
  qed
  then show "coord_ok (delete_downloader qe qo k completed r s)"
    "completed \<Longrightarrow> fid \<notin> set (core_ids (map nzb_core (qc_queue (delete_downloader qe qo k completed r s))))"
    by blast+
qed

lemma article_arrived_keeps:
  assumes env: "env_ok qe" and ok: "coord_ok s" and k: "k < length (qc_active s)"
    and r: "r \<in> refs (qc_queue s)" "fi_id (file_at (qc_queue s) r) = dl_file (qc_active s ! k)"
    and st: "dl_status (qc_active s ! k) \<in> {adFinished, adFailed, adRetry}"
    and run: "article_arrived qe qo (qc_active s ! k) r s = (s', fc)"
  shows "coord_inv (del_nth k (jobs (qc_active s))) (ended (dl_file (qc_active s ! k))) (qc_queue s')"
    "jobs (qc_active s') = jobs (qc_active s)"
    "covers s' (del_nth k (jobs (qc_active s))) (ended (dl_file (qc_active s ! k)))"
    "fc \<Longrightarrow> working_on (del_nth k (jobs (qc_active s))) (dl_file (qc_active s ! k)) = []"
proof -
  let ?q = "qc_queue s" and ?dl = "qc_active s ! k" and ?act = "jobs (qc_active s)"
  let ?fi = "file_at ?q r" and ?fid = "dl_file (qc_active s ! k)" and ?j = "dl_article (qc_active s ! k)"
  let ?sts = "map ai_status (fi_articles ?fi)"
  note inv = ok [unfolded coord_ok_def]
  obtain fi1 nz1 where c: "article_counted (dl_status ?dl) ?j (dl_serverStats ?dl) ?fi (nzb_at ?q r) = (fi1, nz1)"
    by fastforce
  have old: "core_ok ?act (\<lambda>_. 0) (?fid, fi_activeDownloads ?fi, fi_completedArticles ?fi, ?sts)"
    using coord_inv_core_ok [OF inv r(1)] r(2) by (simp add: file_core_def)
  have job: "k < length ?act" "?act ! k = (?fid, ?j)" using k by (simp_all add: jobs_def)
  have "?j \<in> set (working_on ?act ?fid)" using working_on_del_nth(1) [OF job(1), of ?fid] job(2) by simp
  then have j: "?j < length (fi_articles ?fi)" using old by (simp add: core_ok_def)
  define st' where "st' = (if dl_status ?dl = adFinished then aiFinished
     else if dl_status ?dl = adFailed then aiFailed else aiUndefined)"
  define n' where "n' = (if dl_status ?dl = adRetry then fi_completedArticles ?fi else fi_completedArticles ?fi + 1)"
  note counted = article_counted_core [OF c j] st
  have core1: "file_core fi1 = (?fid, fi_activeDownloads ?fi, n', ?sts[?j := st'])"
    and nz1: "nz_activeDownloads nz1 = nz_activeDownloads (nzb_at ?q r)" "nz_fileList nz1 = nz_fileList (nzb_at ?q r)"
    using counted r(2) by (auto simp: n'_def st'_def)
  have step: "st' = aiUndefined \<and> n' = fi_completedArticles ?fi \<or>
      (st' = aiFinished \<or> st' = aiFailed) \<and> n' = fi_completedArticles ?fi + 1"
    using st by (auto simp: st'_def n'_def)
  note new = article_ended_core_ok [OF old job step]
  define conf where "conf = (case dl_articleFilename ?dl of
       Some name \<Rightarrow> if \<not> fi_filenameConfirmed fi1 \<and> dl_status ?dl = adFinished
                     then confirm_filename qe qo nz1 name fi1 else (fi1, False)
     | None \<Rightarrow> (fi1, False))"
  obtain fi2 dupe where f2: "conf = (fi2, dupe)" by fastforce
  have core2: "file_core fi2 = file_core fi1"
    using f2 by (auto simp: conf_def confirm_filename_def Let_def file_core_def split: option.splits if_splits)
  define fi3 where "fi3 = (if dupe then fi2\<lparr>fi_dupeDeleted := True, fi_deleted := True\<rparr> else fi2)"
  define fi4 where "fi4 = (if dl_status ?dl = adFinished then qe_analyzed qe ?j fi3 else fi3)"
  have core4: "file_core fi4 = file_core fi1"
    using env core2 by (simp add: fi4_def fi3_def env_ok_def) (simp add: file_core_def)
  define s2 where "s2 = (if dupe
    then s\<lparr>qc_active := map (\<lambda>d. if dl_file d = fi_id fi3 then d\<lparr>dl_stopped := True\<rparr> else d) (qc_active s)\<rparr> else s)"
  have "article_arrived qe qo ?dl r s =
      (s2\<lparr>qc_queue := put_nzb ?q (fst r) (nzb_put_file (snd r) fi4
        (nz1\<lparr>nz_downloadedSize := nz_downloadedSize nz1 + dl_downloadedSize ?dl\<rparr>))\<rparr>,
       (dl_status ?dl \<noteq> adRetry \<and> all_articles_done fi1) \<and> \<not> dupe)"
    unfolding article_arrived_def Let_def c prod.case
    unfolding conf_def [symmetric] f2 prod.case
    unfolding fi3_def [symmetric] fi4_def [symmetric] s2_def [symmetric] by (rule refl)
  then have res: "s' = s2\<lparr>qc_queue := put_nzb ?q (fst r) (nzb_put_file (snd r) fi4
        (nz1\<lparr>nz_downloadedSize := nz_downloadedSize nz1 + dl_downloadedSize ?dl\<rparr>))\<rparr>"
    and fc: "fc = (dl_status ?dl \<noteq> adRetry \<and> all_articles_done fi1 \<and> \<not> dupe)"
    using run by simp_all
  have act: "jobs (qc_active s2) = ?act" by (simp add: s2_def)
  show "jobs (qc_active s') = jobs (qc_active s)" using act by (simp add: res)
  have "coord_inv (del_nth k ?act) (ended ?fid) (?q[fst r := nzb_put_file (snd r) fi4
        (nz1\<lparr>nz_downloadedSize := nz_downloadedSize nz1 + dl_downloadedSize ?dl\<rparr>)])"
  proof (rule coord_inv_change [OF inv r(1)])
    show "file_core ?fi = (?fid, fi_activeDownloads ?fi, fi_completedArticles ?fi, ?sts)"
      using r(2) by (simp add: file_core_def)
    show "core_ok (del_nth k ?act) (ended ?fid) (?fid, fi_activeDownloads ?fi, n', ?sts[?j := st'])"
      by (rule new(1))
    show "working_on (del_nth k ?act) x = working_on ?act x \<and> ended ?fid x = 0" if "x \<noteq> ?fid" for x
      using working_on_del_nth(1) [OF job(1), of x] job(2) that by (simp add: ended_def)
    show "fst d = ?fid \<or> fst d \<in> fst ` set ?act" if "d \<in> set (del_nth k ?act)" for d
      using that set_del_nth by force
  qed (use core4 core1 nz1 in \<open>simp_all add: nzb_core_put_file ended_def\<close>)
  then show "coord_inv (del_nth k ?act) (ended ?fid) (qc_queue s')" by (simp add: res put_nzb_def)
  have "list_ex (\<lambda>d. dl_file d = x) (qc_active s2) = list_ex (\<lambda>d. dl_file d = x) (qc_active s)" for x
    by (simp add: s2_def list_ex_stopped)
  moreover have "working_on (del_nth k ?act) x = [] \<and> ended ?fid x = 0"
    if "\<not> list_ex (\<lambda>d. dl_file d = x) (qc_active s)" for x
  proof -
    have "x \<noteq> ?fid" using that k by (auto simp: list_ex_iff)
    then show ?thesis using working_on_Nil [OF that] working_on_del_nth(1) [OF job(1), of x] job(2)
      by (simp add: ended_def)
  qed
  ultimately show "covers s' (del_nth k ?act) (ended ?fid)" by (simp add: covers_def res)
  show "working_on (del_nth k ?act) ?fid = []" if "fc"
  proof (rule new(2))
    have "length (fi_articles fi1) = length ?sts" "n' = fi_completedArticles fi1"
      using core1 by (auto simp: file_core_def dest: arg_cong [of _ _ length])
    moreover have "int32 (int (length ?sts)) = int (length ?sts)"
      using old by (intro int32_id) (simp_all add: core_ok_def)
    ultimately show "n' = int (length ?sts)" using that by (simp add: fc all_articles_done_def)
    show "n' = fi_completedArticles ?fi + 1" using that by (simp add: fc n'_def)
  qed
qed

lemma article_completed_keeps:
  assumes env: "env_ok qe" and ok: "coord_ok s" and k: "k < length (qc_active s)"
    and st: "dl_status (qc_active s ! k) \<in> {adFinished, adFailed, adRetry}"
  shows "coord_ok (article_completed qe qo k s)"
proof -
  let ?dl = "qc_active s ! k" and ?fid = "dl_file (qc_active s ! k)" and ?act = "del_nth k (jobs (qc_active s))"
  have "(?fid, dl_article ?dl) \<in> set (jobs (qc_active s))" using k by (auto simp: jobs_def)
  then obtain r where r: "locate ?fid (qc_queue s) = Some r"
    using locate_job [OF ok [unfolded coord_ok_def]] by fastforce
  obtain s1 fc where a: "article_arrived qe qo ?dl r s = (s1, fc)" by fastforce
  note arrived = article_arrived_keeps [OF env ok k _ _ st a, OF conjunct1 conjunct2, OF locate_Some locate_Some, OF r r]
  define s2 where "s2 = check_health qe qo (fst r) s1"
  have 2: "coord_inv ?act (ended ?fid) (qc_queue s2)" "jobs (qc_active s2) = jobs (qc_active s)"
    using check_health_keeps [OF env arrived(1,3), of qo "fst r"] arrived(2) by (simp_all add: s2_def)
  have len: "length (qc_active s2) = length (qc_active s)" using 2(2) by (metis jobs_simps(4))
  have "ended ?fid ?fid > 0" by (simp add: ended_def)
  then obtain r2 where Some: "locate ?fid (qc_queue s2) = Some r2"
    using locate_ids [of ?fid "qc_queue s2"] 2(1) by (auto simp: coord_inv_def cores_ok_def)
  let ?nz = "nzb_at (qc_queue s2) r2" and ?fi = "file_at (qc_queue s2) r2"
  note r2 = locate_Some [OF Some]
  define fin where "fin \<longleftrightarrow> fc \<or> (nz_parking ?nz \<and> fi_activeDownloads ?fi = 1 \<and> \<not> fi_dupeDeleted ?fi)"
  have "core_ok ?act (ended ?fid) (file_core ?fi)" using coord_inv_core_ok [OF 2(1)] r2 by blast
  then have "fi_activeDownloads ?fi = int (length (working_on ?act ?fid)) + 1"
    using r2 by (simp add: core_ok_def file_core_def ended_def)
  then have empty: "working_on ?act ?fid = []" if "fin" using that arrived(4) by (auto simp: fin_def)
  have run: "article_completed qe qo k s =
      (if fin \<and> (\<not> fi_deleted ?fi \<or> nz_parking ?nz)
       then delete_downloader qe qo k True r2 (s2\<lparr>qc_queue := put_file (qc_queue s2) r2
              ((qe_completeParts qe ?fi)\<lparr>fi_partialChanged := False\<rparr>)\<rparr>)
       else delete_downloader qe qo k False r2 s2)"
    by (simp add: article_completed_def Let_def r a fin_def Some flip: s2_def)
  have parts: "file_core ((qe_completeParts qe ?fi)\<lparr>fi_partialChanged := False\<rparr>) = file_core ?fi"
    using env by (simp add: env_ok_def) (simp add: file_core_def)
  have "coord_ok (delete_downloader qe qo k True r2 (s2\<lparr>qc_queue := put_file (qc_queue s2) r2
      ((qe_completeParts qe ?fi)\<lparr>fi_partialChanged := False\<rparr>)\<rparr>))" if "fin"
    by (rule delete_downloader_keeps [OF env, where fid = ?fid])
       (use k len 2 r2 put_file_core [OF 2(1) parts] parts empty [OF that] in
         \<open>simp_all add: file_at_put_file, simp add: file_core_def\<close>)
  moreover have "coord_ok (delete_downloader qe qo k False r2 s2)"
    by (rule delete_downloader_keeps [OF env, where fid = ?fid]) (use k len 2 r2 in simp_all)
  ultimately show ?thesis using run by simp
qed

end
