(* ===== verification/QueueRun.thy ===== *)
theory QueueRun
  imports QueueInv
begin

text \<open>
  The queue coordinator as a state machine: the search of the main loop with the start of an
  article, the reports and ends of the article downloaders, and the edit actions, in any order.
  What every reachable state satisfies is the invariant of theory \<open>QueueInv\<close>.
\<close>

section \<open>The search keeps the invariant\<close>

definition loader_core_ok :: "article_loader \<Rightarrow> bool" where
  "loader_core_ok load \<longleftrightarrow> (\<forall>fi. fi_articles fi = [] \<longrightarrow>
     fi_id (load fi) = fi_id fi \<and> fi_activeDownloads (load fi) = fi_activeDownloads fi \<and>
     int (length (fi_articles (load fi))) < 2 ^ 31 \<and>
     (fi_articles (load fi) \<noteq> [] \<longrightarrow> fi_completedArticles (load fi) = done_count (map ai_status (fi_articles (load fi)))))"

lemma loaded_idle:
  assumes "loader_core_ok load" "core_ok act (\<lambda>_. 0) (file_core fi)"
  shows "idle_file fi (ensure_loaded load so fi)"
proof (cases "fi_articles fi = [] \<and> so_serverMode so")
  case True
  then have "working_on act (fi_id fi) = []"
    using assms(2) by (auto simp: core_ok_def file_core_def intro: ccontr)
  then have "fi_activeDownloads fi = 0" using assms(2) by (simp add: core_ok_def file_core_def)
  then show ?thesis using assms(1) True by (simp add: ensure_loaded_def idle_file_def loader_core_ok_def)
qed (auto simp: ensure_loaded_def)

lemma put_loaded_keeps:
  assumes "loader_core_ok load" "coord_inv act (\<lambda>_. 0) q" "r \<in> refs q"
  shows "coord_inv act (\<lambda>_. 0) (put_file q r (ensure_loaded load so (file_at q r)))"
  unfolding put_file_def
proof (rule coord_inv_idle [OF assms(2)])
  have "idle_file (file_at q r) (ensure_loaded load so (file_at q r))"
    by (rule loaded_idle [OF assms(1)]) (rule coord_inv_core_ok [OF assms(2,3)])
  then show "idle_nzb (q ! fst r) ((q ! fst r)\<lparr>nz_fileList := (nz_fileList (q ! fst r))[snd r :=
      ensure_loaded load so (file_at q r)]\<rparr>)"
    by (simp add: idle_nzb_def list_all2_conv_all_nth nth_upd file_at_def)
qed

lemma first_scan_keeps:
  assumes "loader_core_ok load" "coord_inv act (\<lambda>_. 0) q" "i < length q" "set js \<subseteq> {..<length (nz_fileList (q ! i))}"
  shows "coord_inv act (\<lambda>_. 0) (fst (first_scan load so i js q))"
  using assms(2-4)
proof (induction js arbitrary: q)
  case Nil
  then show ?case by (simp add: coord_inv_same nzb_core_def)
next
  case (Cons j js)
  let ?q = "put_file q (i, j) (ensure_loaded load so (file_at q (i, j)))"
  have r: "(i, j) \<in> refs q" using Cons.prems by (simp add: mem_refs)
  have "coord_inv act (\<lambda>_. 0) ?q" by (rule put_loaded_keeps [OF assms(1) Cons.prems(1) r])
  moreover have "i < length ?q" "set js \<subseteq> {..<length (nz_fileList (?q ! i))}"
    using Cons.prems by (simp_all add: put_file_def)
  moreover from calculation have "coord_inv act (\<lambda>_. 0) (?q[i := (?q ! i)\<lparr>nz_directRenameStatus := tsRunning\<rparr>])"
    by (intro coord_inv_same) (simp_all add: nzb_core_def)
  ultimately show ?case using Cons by (simp add: Let_def)
qed

lemma search_keeps:
  assumes "loader_core_ok load" "coord_inv act (\<lambda>_. 0) q"
  shows "coord_inv act (\<lambda>_. 0) (fst (get_next_article load so checked q))"
  using assms
proof (induction load so checked q rule: get_next_article.induct)
  case (1 load so checked q)
  show ?case
  proof (cases "find_file so q checked")
    case None
    then show ?thesis using 1 by (simp add: get_next_article.simps [of _ _ _ q])
  next
    case (Some r)
    have r: "r \<in> refs q" using find_file_Some [OF Some] by simp
    define first where "first = (if wants_first so (nzb_at q r) then get_next_first load so (fst r) q else (q, None))"
    obtain q1 hit where f: "first = (q1, hit)" by fastforce
    have q1: "coord_inv act (\<lambda>_. 0) q1" and r1: "r \<in> refs q1"
      using first_scan_keeps [OF 1(2,3), of "fst r" "[0..<length (nz_fileList (q ! fst r))]" so]
        refs_first_scan [of load so "fst r" "[0..<length (nz_fileList (q ! fst r))]" q] f r 1(3) set_upt_less
      by (auto simp: first_def get_next_first_def mem_refs split: if_splits)
    define q2 where "q2 = put_file q1 r (ensure_loaded load so (file_at q1 r))"
    have q2: "coord_inv act (\<lambda>_. 0) q2" unfolding q2_def by (rule put_loaded_keeps [OF 1(2) q1 r1])
    have step: "get_next_article load so checked q =
        (case hit of Some r1 \<Rightarrow> (q1, Some (r1, 0))
         | None \<Rightarrow> (case next_undefined (fi_articles (ensure_loaded load so (file_at q1 r))) of
              Some k \<Rightarrow> (q2, Some (r, k)) | None \<Rightarrow> get_next_article load so (checked @ [r]) q2))"
      using Some f unfolding q2_def by (simp add: get_next_article.simps [of _ _ _ q] first_def Let_def)
    show ?thesis
    proof (cases hit)
      case None
      then show ?thesis
        using step q2 1(1) [OF Some _ None refl q2_def _ 1(2) q2] f by (auto simp: first_def split: option.splits)
    qed (use step q1 in simp)
  qed
qed

section \<open>The state machine\<close>

definition report :: "nat \<Rightarrow> downloader \<Rightarrow> coordinator \<Rightarrow> coordinator" where
  "report k d s = s\<lparr>qc_active := (qc_active s)[k := d\<lparr>dl_file := dl_file (qc_active s ! k),
     dl_article := dl_article (qc_active s ! k)\<rparr>]\<rparr>"

definition fresh_nzb :: "queue \<Rightarrow> nzb_info \<Rightarrow> bool" where
  "fresh_nzb q nz \<longleftrightarrow> nz_activeDownloads nz = 0 \<and> distinct (map fi_id (nz_fileList nz)) \<and>
     (\<forall>fi\<in>set (nz_fileList nz). fi_activeDownloads fi = 0 \<and> int (length (fi_articles fi)) < 2 ^ 31 \<and>
        fi_completedArticles fi = done_count (map ai_status (fi_articles fi)) \<and>
        fi_id fi \<notin> set (core_ids (map nzb_core q)))"

inductive coordinator_step :: "queue_env \<Rightarrow> article_loader \<Rightarrow> coordinator \<Rightarrow> coordinator \<Rightarrow> bool"
  for qe load where
  search: "get_next_article load so [] (qc_queue s) = (q', res) \<Longrightarrow>
     coordinator_step qe load s (s\<lparr>qc_queue := q'\<rparr>)"
| start: "get_next_article load so [] (qc_queue s) = (q', Some (r, k)) \<Longrightarrow>
     coordinator_step qe load s (start_article_download (so_now so) r k (s\<lparr>qc_queue := q'\<rparr>))"
| progress: "k < length (qc_active s) \<Longrightarrow> coordinator_step qe load s (report k d s)"
| completed: "k < length (qc_active s) \<Longrightarrow> dl_status (qc_active s ! k) \<in> {adFinished, adFailed, adRetry} \<Longrightarrow>
     coordinator_step qe load s (article_completed qe qo k s)"
| delete_file: "delete_entry qe qo fid s = s' \<Longrightarrow> coordinator_step qe load s s'"
| delete_group: "i < length (qc_queue s) \<Longrightarrow> coordinator_step qe load s (group_delete qe qo park i s)"
| pause_file: "i < length (qc_queue s) \<Longrightarrow>
     coordinator_step qe load s (s\<lparr>qc_queue := (qc_queue s)[i := nz_file_set_paused b j (qc_queue s ! i)]\<rparr>)"
| add_nzb: "fresh_nzb (qc_queue s) nz \<Longrightarrow> coordinator_step qe load s (s\<lparr>qc_queue := qc_queue s @ [nz]\<rparr>)"
| remove_nzb: "qc_queue s = q1 @ nz # q2 \<Longrightarrow> nz_fileList nz = [] \<Longrightarrow>
     coordinator_step qe load s (s\<lparr>qc_queue := q1 @ q2\<rparr>)"
| hanging: "coordinator_step qe load s (reset_hanging qo s)"

lemma core_ids_append [simp]: "core_ids (xs @ ys) = core_ids xs @ core_ids ys"
  "core_ids [nc] = map fst (snd nc)" "core_ids (nc # xs) = map fst (snd nc) @ core_ids xs" "core_ids [] = []"
  by (simp_all add: core_ids_def)

lemma fresh_ok:
  assumes inv: "coord_inv act (\<lambda>_. 0) q" and fresh: "fresh_nzb q nz"
  shows "coord_inv act (\<lambda>_. 0) (q @ [nz])"
proof -
  let ?ids = "core_ids (map nzb_core q)"
  have act: "fst d \<in> set ?ids" if "d \<in> set act" for d using inv that by (simp add: coord_inv_def cores_ok_def)
  have none: "working_on act fid = []" if "fid \<notin> set ?ids" for fid
    using act that by (auto simp: working_on_def filter_empty_conv)
  have "list_all (core_ok act (\<lambda>_. 0)) (map file_core (nz_fileList nz))"
    using fresh none by (auto simp: fresh_nzb_def list_all_iff core_ok_def file_core_def)
  moreover have "sum_list (map (\<lambda>c. fst (snd c)) (map file_core (nz_fileList nz))) = 0"
  proof -
    have "\<forall>x\<in>set (map (\<lambda>c. fst (snd c)) (map file_core (nz_fileList nz))). x = 0"
      using fresh by (auto simp: fresh_nzb_def file_core_def)
    then show ?thesis by (subst sum_list_nonneg_eq_0_iff) auto
  qed
  ultimately have "nzb_ok act (\<lambda>_. 0) (nzb_core nz)"
    using fresh by (simp add: nzb_ok_def nzb_core_def fresh_nzb_def)
  moreover have "map fst (map file_core (nz_fileList nz)) = map fi_id (nz_fileList nz)" by (simp add: file_core_def)
  moreover have "distinct (map fi_id (nz_fileList nz))" "fi_id ` set (nz_fileList nz) \<inter> set ?ids = {}"
    using fresh by (auto simp: fresh_nzb_def)
  ultimately have "distinct (?ids @ map fst (snd (nzb_core nz)))" "nzb_ok act (\<lambda>_. 0) (nzb_core nz)"
    using inv by (auto simp: coord_inv_def cores_ok_def nzb_core_def simp del: map_map)
  then show ?thesis using inv by (auto simp: coord_inv_def cores_ok_def)
qed

lemma remove_empty_ok:
  assumes "coord_inv act (\<lambda>_. 0) (q1 @ nz # q2)" "nz_fileList nz = []"
  shows "coord_inv act (\<lambda>_. 0) (q1 @ q2)"
  using assms by (auto simp: coord_inv_def cores_ok_def nzb_core_def)

lemma jobs_report:
  "k < length (qc_active s) \<Longrightarrow> jobs (qc_active (report k d s)) = jobs (qc_active s)"
  by (rule nth_equalityI) (auto simp: report_def jobs_def nth_list_update)

lemma coordinator_step_ok:
  assumes env: "env_ok qe" and load: "loader_ok load" "loader_core_ok load"
    and step: "coordinator_step qe load s s'" and ok: "coord_ok s"
  shows "coord_ok s'"
  using step
proof cases
  case (search so q' res)
  then show ?thesis using search_keeps [OF load(2) ok [unfolded coord_ok_def], of so "[]"] by (simp add: coord_ok_def)
next
  case (start so q' r k)
  have "coord_ok (s\<lparr>qc_queue := q'\<rparr>)"
    using search_keeps [OF load(2) ok [unfolded coord_ok_def], of so "[]"] start(2) by (simp add: coord_ok_def)
  moreover have "same_view (qc_queue s) q' \<and> answer_ok so (qc_queue s) q' r k"
    using get_next_spec [OF load(1) _ start(2)] by simp
  ultimately show ?thesis
    unfolding start(1) by (intro start_keeps) (simp_all add: answer_ok_def same_view_def)
next
  case (progress k d)
  then show ?thesis using ok jobs_report by (simp add: coord_ok_def) (simp add: report_def)
next
  case (completed k qo)
  then show ?thesis using article_completed_keeps [OF env ok] by blast
next
  case (delete_file qo fid)
  then show ?thesis
    using delete_entry_keeps [OF env ok [unfolded coord_ok_def], of qo fid]
    by (auto simp: coord_ok_def covers_def working_on_Nil)
next
  case (delete_group i qo park)
  then show ?thesis
    using group_delete_keeps [OF env ok [unfolded coord_ok_def], of qo park i]
    by (auto simp: coord_ok_def covers_def working_on_Nil)
next
  case (pause_file i b j)
  then show ?thesis using ok by (simp add: coord_ok_def coord_inv_same file_set_paused_core)
next
  case (add_nzb nz)
  then show ?thesis using ok fresh_ok by (simp add: coord_ok_def)
next
  case (remove_nzb q1 nz q2)
  then show ?thesis using ok remove_empty_ok by (simp add: coord_ok_def)
next
  case (hanging qo)
  then show ?thesis using ok by (simp add: coord_ok_def reset_hanging_def)
qed

lemma reachable_ok:
  assumes "env_ok qe" "loader_ok load" "loader_core_ok load"
    and "(coordinator_step qe load)\<^sup>*\<^sup>* s0 s" "coord_ok s0"
  shows "coord_ok s"
  using assms(4,5) by (induction rule: rtranclp_induct) (auto intro: coordinator_step_ok [OF assms(1-3)])

section \<open>What holds in every reachable state\<close>

lemma working_on_mem: "(fid, k) \<in> set act \<longleftrightarrow> k \<in> set (working_on act fid)"
  by (force simp: working_on_def)

lemma coord_okD:
  assumes ok: "coord_ok s"
  shows "\<And>d. d \<in> set (qc_active s) \<Longrightarrow> \<exists>r\<in>refs (qc_queue s). fi_id (file_at (qc_queue s) r) = dl_file d \<and>
      dl_article d < length (fi_articles (file_at (qc_queue s) r)) \<and>
      ai_status (fi_articles (file_at (qc_queue s) r) ! dl_article d) = aiRunning"
    and "\<And>r. r \<in> refs (qc_queue s) \<Longrightarrow> fi_activeDownloads (file_at (qc_queue s) r) =
      int (length (filter (\<lambda>d. dl_file d = fi_id (file_at (qc_queue s) r)) (qc_active s)))"
    and "\<And>nz. nz \<in> set (qc_queue s) \<Longrightarrow> nz_activeDownloads nz = sum_list (map fi_activeDownloads (nz_fileList nz))"
proof -
  note inv = ok [unfolded coord_ok_def]
  show "\<exists>r\<in>refs (qc_queue s). fi_id (file_at (qc_queue s) r) = dl_file d \<and>
      dl_article d < length (fi_articles (file_at (qc_queue s) r)) \<and>
      ai_status (fi_articles (file_at (qc_queue s) r) ! dl_article d) = aiRunning" if "d \<in> set (qc_active s)" for d
  proof -
    have job: "(dl_file d, dl_article d) \<in> set (jobs (qc_active s))" using that by (auto simp: jobs_def)
    from locate_job [OF inv this] obtain r where "locate (dl_file d) (qc_queue s) = Some r" by fastforce
    then have r: "r \<in> refs (qc_queue s)" "fi_id (file_at (qc_queue s) r) = dl_file d" using locate_Some by blast+
    moreover have "dl_article d \<in> set (working_on (jobs (qc_active s)) (dl_file d))" using job working_on_mem by blast
    ultimately show ?thesis
      using coord_inv_core_ok [OF inv r(1)] by (intro bexI [of _ r]) (auto simp: core_ok_def file_core_def)
  qed
  show "fi_activeDownloads (file_at (qc_queue s) r) =
      int (length (filter (\<lambda>d. dl_file d = fi_id (file_at (qc_queue s) r)) (qc_active s)))"
    if "r \<in> refs (qc_queue s)" for r
  proof -
    have "length (working_on (jobs ds) fid) = length (filter (\<lambda>d. dl_file d = fid) ds)" for ds fid
      by (induction ds) auto
    then show ?thesis using coord_inv_core_ok [OF inv that] by (simp add: core_ok_def file_core_def)
  qed
  show "nz_activeDownloads nz = sum_list (map fi_activeDownloads (nz_fileList nz))" if "nz \<in> set (qc_queue s)" for nz
    using inv that by (auto simp: coord_inv_def cores_ok_def nzb_ok_def nzb_core_def list_all_iff file_core_def comp_def)
qed


lemma nz_id_discard [simp]: "nz_id (discard_direct_rename qo nz) = nz_id nz"
proof -
  have "nz_id (discard_rename_step qo j nz) = nz_id nz" for j nz
    by (simp add: discard_rename_step_def discard_downloaded_articles_def Let_def)
  then have "nz_id (foldl (\<lambda>nz j. discard_rename_step qo j nz) nz js) = nz_id nz" for js
    by (induction js arbitrary: nz) simp_all
  then show ?thesis by (simp add: discard_direct_rename_def)
qed

lemma nz_id_stats [simp]:
  "nz_id (update_completed_stats fi nz) = nz_id nz" "nz_id (update_deleted_stats fi nz) = nz_id nz"
  "nz_id (set_file_list fs nz) = nz_id nz"
  by (simp_all add: update_completed_stats_def update_deleted_stats_def set_file_list_def Let_def)

lemma delete_file_info_events:
  assumes "\<not> qo_directRename qo"
  shows "qc_events (delete_file_info qe qo r completed s) = qc_events s @
    [(if completed \<and> \<not> fi_deleted (file_at (qc_queue s) r) then eaFileCompleted else eaFileDeleted)
       (nz_id (nzb_at (qc_queue s) r)) (fi_id (file_at (qc_queue s) r))]"
proof -
  let ?fi = "(file_at (qc_queue s) r)\<lparr>fi_deleted := True\<rparr>"
  define n1 where "n1 = nzb_put_file (snd r) ?fi (nzb_at (qc_queue s) r)"
  define n2 where "n2 = (if completed \<or> nz_deleting n1 then update_completed_stats ?fi n1 else update_deleted_stats ?fi n1)"
  define n3 where "n3 = (if completed \<or> nz_parking n2
    then n2\<lparr>nz_completedFiles := nz_completedFiles n2 @ [completed_file_of completed ?fi]\<rparr> else n2)"
  define n4 where "n4 = (if nz_directRenameStatus n3 = tsRunning \<and> \<not> nz_deleting n3 \<and> is_download_completed True n3
    then discard_direct_rename qo n3 else n3)"
  have "nz_id n4 = nz_id (nzb_at (qc_queue s) r)" by (simp add: n4_def n3_def n2_def n1_def)
  moreover have "qc_events (delete_file_info qe qo r completed s) = qc_events s @
    [(if completed \<and> \<not> fi_deleted (file_at (qc_queue s) r) then eaFileCompleted else eaFileDeleted)
       (nz_id (set_file_list (take (snd r) (nz_fileList n4) @ drop (Suc (snd r)) (nz_fileList n4)) n4)) (fi_id ?fi)]"
    unfolding delete_file_info_def Let_def n1_def [symmetric] n2_def [symmetric]
    using assms by (simp add: n3_def n4_def cong: if_cong)
  ultimately show ?thesis by simp
qed

lemma done_count_full:
  "\<forall>st\<in>set sts. done_flag st = 1 \<Longrightarrow> done_count sts = int (length sts)"
  by (induction sts) (simp_all add: done_count_def)

lemma article_arrived_plain:
  assumes "fi_filenameConfirmed (file_at (qc_queue s) r)" "dl_status dl = adFinished \<or> dl_status dl = adFailed"
    and "article_counted (dl_status dl) (dl_article dl) (dl_serverStats dl) (file_at (qc_queue s) r) (nzb_at (qc_queue s) r)
      = (fi1, nz1)"
  shows "article_arrived qe qo dl r s =
    (s\<lparr>qc_queue := put_nzb (qc_queue s) (fst r) (nzb_put_file (snd r)
         (if dl_status dl = adFinished then qe_analyzed qe (dl_article dl) fi1 else fi1)
         (nz1\<lparr>nz_downloadedSize := nz_downloadedSize nz1 + dl_downloadedSize dl\<rparr>))\<rparr>, all_articles_done fi1)"
proof -
  have "fi_filenameConfirmed fi1"
    using assms by (auto simp: article_counted_def set_article_status_def Let_def split: if_splits)
  then have "(case dl_articleFilename dl of
       Some name \<Rightarrow> if \<not> fi_filenameConfirmed fi1 \<and> dl_status dl = adFinished
                     then confirm_filename qe qo nz1 name fi1 else (fi1, False)
     | None \<Rightarrow> (fi1, False)) = (fi1, False)" by (simp split: option.split)
  then show ?thesis using assms(2)
    unfolding article_arrived_def Let_def assms(3) prod.case by auto
qed

lemma locate_cong:
  assumes "\<And>r. r \<in> refs q \<Longrightarrow> fi_id (file_at q' r) = fi_id (file_at q r)" "length q' = length q"
    and "\<And>i. i < length q \<Longrightarrow> length (nz_fileList (q' ! i)) = length (nz_fileList (q ! i))"
  shows "locate fid q' = locate fid q"
proof -
  have "file_refs q' = file_refs q"
    unfolding file_refs_def assms(2) by (rule arg_cong [of _ _ concat], rule map_cong) (simp_all add: assms(3))
  then show ?thesis unfolding locate_def using assms(1) by (intro find_cong) (simp_all add: set_file_refs)
qed

lemma delete_downloader_events:
  assumes "\<not> qo_directRename qo" "\<not> fi_deleted (file_at (qc_queue s) r)" "r \<in> refs (qc_queue s)"
  shows "qc_events (delete_downloader qe qo k True r s) =
    qc_events s @ [eaFileCompleted (nz_id (nzb_at (qc_queue s) r)) (fi_id (file_at (qc_queue s) r))]"
proof -
  let ?fi = "file_set_active_downloads (fi_activeDownloads (file_at (qc_queue s) r) - 1) (file_at (qc_queue s) r)"
  let ?nz = "nz_set_active_downloads (qo_now qo) (nz_activeDownloads (nzb_at (qc_queue s) r) - 1) (nzb_at (qc_queue s) r)"
  define q1 where "q1 = put_nzb (qc_queue s) (fst r) (nzb_put_file (snd r) ?fi ?nz)"
  define ds where "ds = take k (qc_active s) @ drop (Suc k) (qc_active s)"
  have n: "nz_id (nz_set_active_downloads now m nz) = nz_id nz" for now m nz
    by (simp add: nz_set_active_downloads_def Let_def)
  have f: "fi_deleted (file_set_active_downloads m fi) = fi_deleted fi" for m fi
    by (simp add: file_set_active_downloads_def Let_def)
  have "nz_id (nzb_at q1 r) = nz_id (nzb_at (qc_queue s) r)" "file_at q1 r = ?fi"
    using assms(3) by (simp_all add: q1_def nzb_at_def file_at_def put_nzb_def mem_refs n)
  then show ?thesis
    using delete_file_info_events [OF assms(1), of qe r True "s\<lparr>qc_active := ds, qc_queue := q1\<rparr>"] assms(2)
    by (simp add: delete_downloader_def Let_def f flip: q1_def ds_def)
qed

lemma locate_None: "fid \<notin> set (core_ids (map nzb_core q)) \<Longrightarrow> locate fid q = None"
  unfolding locate_def find_None_iff set_file_refs
  by (auto simp: core_ids_def nzb_core_def file_core_def file_at_def mem_refs) (metis imageI nth_mem)

lemma article_counted_all_done:
  assumes ok: "core_ok act extra (file_core fi)" and j: "j < length (fi_articles fi)" "ai_status (fi_articles fi ! j) = aiRunning"
    and c: "article_counted st j stats fi nz = (fi1, nz1)" and st: "st = adFinished \<or> st = adFailed"
    and others: "\<forall>i<length (fi_articles fi). i \<noteq> j \<longrightarrow> ai_status (fi_articles fi ! i) \<in> {aiFinished, aiFailed}"
  shows "all_articles_done fi1"
proof -
  let ?sts = "map ai_status (fi_articles fi)"
  define new where "new = (if st = adFinished then aiFinished else aiFailed)"
  have new: "done_flag new = 1" by (simp add: new_def done_flag_def)
  have ne: "?sts \<noteq> []" using j by auto
  have core: "file_core fi1 = (fi_id fi, fi_activeDownloads fi, fi_completedArticles fi + 1, ?sts[j := new])"
    using article_counted_core(1) [OF c j(1)] st by (auto simp: new_def)
  have "done_count (?sts[j := new]) = fi_completedArticles fi + 1"
    using ok j ne new by (simp add: core_ok_def file_core_def done_count_update done_flag_def)
  moreover have "done_count (?sts[j := new]) = int (length ?sts)"
  proof -
    have "done_flag (?sts[j := new] ! i) = 1" if "i < length ?sts" for i
      using that new others by (cases "i = j") (auto simp: done_flag_def)
    then have "\<forall>x\<in>set (?sts[j := new]). done_flag x = 1" by (simp add: all_set_conv_all_nth)
    then show ?thesis using done_count_full by fastforce
  qed
  moreover have "int32 (int (length ?sts)) = int (length ?sts)"
    using ok by (intro int32_id) (simp_all add: core_ok_def file_core_def)
  moreover have "length (fi_articles fi1) = length ?sts" "fi_completedArticles fi1 = fi_completedArticles fi + 1"
    using core by (auto simp: file_core_def dest: arg_cong [of _ _ length])
  ultimately show ?thesis by (simp add: all_articles_done_def)
qed

text \<open>C2: The end of the last outstanding article completes the file: when a downloader reports its article
  finished or failed and every other article of the file is finished or failed, the file leaves the
  queue and the completion event is sent. The file is not deleted, its name is known, and health
  check and direct rename, which may act on the file themselves, are off.\<close>

theorem last_article_completes_file:
  assumes env: "env_ok qe" and ok: "coord_ok s" and k: "k < length (qc_active s)"
    and dl: "dl = qc_active s ! k" "dl_status dl = adFinished \<or> dl_status dl = adFailed"
    and r: "locate (dl_file dl) (qc_queue s) = Some r" and fi: "fi = file_at (qc_queue s) r"
    and others: "\<forall>j<length (fi_articles fi). j \<noteq> dl_article dl \<longrightarrow> ai_status (fi_articles fi ! j) \<in> {aiFinished, aiFailed}"
    and plain: "fi_filenameConfirmed fi" "\<not> fi_deleted fi" "qo_healthCheck qo = hcNone" "\<not> qo_directRename qo"
    and env_del: "\<forall>k fi. fi_deleted (qe_analyzed qe k fi) = fi_deleted fi"
      "\<forall>fi. fi_deleted (qe_completeParts qe fi) = fi_deleted fi"
  shows "locate (dl_file dl) (qc_queue (article_completed qe qo k s)) = None \<and>
    qc_events (article_completed qe qo k s) =
       qc_events s @ [eaFileCompleted (nz_id (nzb_at (qc_queue s) r)) (dl_file dl)]"
proof -
  let ?q = "qc_queue s" and ?fid = "dl_file dl" and ?j = "dl_article dl"
  let ?act = "del_nth k (jobs (qc_active s))"
  note inv = ok [unfolded coord_ok_def]
  note r1 = locate_Some [OF r, folded fi]
  have core: "core_ok (jobs (qc_active s)) (\<lambda>_. 0) (file_core fi)"
    using coord_inv_core_ok [OF inv, of r] r1 fi by simp
  have j: "?j < length (fi_articles fi) \<and> ai_status (fi_articles fi ! ?j) = aiRunning"
  proof -
    have "(?fid, ?j) \<in> set (jobs (qc_active s))" using k dl by (auto simp: jobs_def)
    then show ?thesis using core r1 working_on_mem by (auto simp: core_ok_def file_core_def)
  qed
  obtain fi1 nz1 where c: "article_counted (dl_status dl) ?j (dl_serverStats dl) fi (nzb_at ?q r) = (fi1, nz1)"
    by fastforce
  define fi2 where "fi2 = (if dl_status dl = adFinished then qe_analyzed qe ?j fi1 else fi1)"
  define nz2 where "nz2 = nz1\<lparr>nz_downloadedSize := nz_downloadedSize nz1 + dl_downloadedSize dl\<rparr>"
  define s1 where "s1 = s\<lparr>qc_queue := put_nzb ?q (fst r) (nzb_put_file (snd r) fi2 nz2)\<rparr>"
  have arrived: "article_arrived qe qo dl r s = (s1, True)"
    using article_arrived_plain [OF plain(1) [unfolded fi] dl(2) c [unfolded fi], of qe qo]
      article_counted_all_done [OF core conjunct1 conjunct2 c dl(2) others, OF j j]
    by (simp add: s1_def fi2_def nz2_def)
  have id1: "fi_id fi1 = fi_id fi" "fi_deleted fi1 = fi_deleted fi" "nz_fileList nz1 = nz_fileList (nzb_at ?q r)"
    "nz_id nz1 = nz_id (nzb_at ?q r)"
    using c dl(2) by (auto simp: article_counted_def set_article_status_def Let_def split: if_splits)
  have id2: "fi_id fi2 = fi_id fi" "\<not> fi_deleted fi2"
    using env env_del(1) id1 plain(2) by (simp_all add: fi2_def env_ok_def file_core_def)
  have upd: "file_at (qc_queue s1) r' = (if r' = r then fi2 else file_at ?q r')" if "r' \<in> refs ?q" for r'
    using that r1 id1 by (auto simp: s1_def put_nzb_def file_at_def mem_refs nz2_def nzb_at_def nth_upd prod_eq_iff)
  have loc: "locate ?fid (qc_queue s1) = Some r"
    unfolding r [symmetric] using upd r1 id1 id2 fi
    by (intro locate_cong) (auto simp: s1_def put_nzb_def nz2_def nzb_at_def nth_upd)
  have at: "file_at (qc_queue s1) r = fi2" using upd r1 by simp
  define s2 where "s2 = s1\<lparr>qc_queue := put_file (qc_queue s1) r ((qe_completeParts qe fi2)\<lparr>fi_partialChanged := False\<rparr>)\<rparr>"
  have run: "article_completed qe qo k s = delete_downloader qe qo k True r s2"
    using arrived loc at id2(2) plain(3) r dl(1)
    by (simp add: article_completed_def Let_def check_health_def health_fine_def s2_def)
  note arr = article_arrived_keeps [OF env ok k, of r, folded dl(1), OF _ _ _ arrived]
  have 1: "coord_inv ?act (ended ?fid) (qc_queue s1)" "jobs (qc_active s1) = jobs (qc_active s)"
    "working_on ?act ?fid = []"
    using arr r1 fi dl(2) by auto
  have r2: "r \<in> refs (qc_queue s1)" using locate_Some [OF loc] by blast
  have id3: "fi_id (qe_completeParts qe fi2) = ?fid" "file_core ((qe_completeParts qe fi2)\<lparr>fi_partialChanged := False\<rparr>) = file_core fi2"
    using env id2 r1 by (simp_all add: env_ok_def file_core_def)
  have inv2: "coord_inv (del_nth k (jobs (qc_active s2))) (ended ?fid) (qc_queue s2)"
    using put_file_core [OF 1(1), of "(qe_completeParts qe fi2)\<lparr>fi_partialChanged := False\<rparr>" r] id3 at 1(2) by (simp add: s2_def)
  have at2: "file_at (qc_queue s2) r = (qe_completeParts qe fi2)\<lparr>fi_partialChanged := False\<rparr>" "r \<in> refs (qc_queue s2)"
    using r2 by (simp_all add: s2_def file_at_put_file)
  have "?fid \<notin> set (core_ids (map nzb_core (qc_queue (delete_downloader qe qo k True r s2))))"
    by (rule delete_downloader_keeps(2) [OF env _ inv2]) (use k 1 at2 id3 in \<open>simp_all add: s1_def s2_def\<close>)
  moreover have "nz_id (nzb_at (qc_queue s2) r) = nz_id (nzb_at ?q r)"
    using r1 id1 by (simp add: s2_def s1_def nzb_at_def put_nzb_def put_file_def mem_refs nz2_def)
  ultimately show ?thesis
    using delete_downloader_events [of qo s2 r qe k] plain(4) at2 id3 id2 env_del(2) run locate_None
    by (simp add: s2_def s1_def)
qed

section \<open>The counters of the download\<close>

lemma stat_total_stat_op:
  "stat_total (stat_op srv n f soAdd xs) k =
     (fst (stat_total xs k) + (if srv = k then n else 0), snd (stat_total xs k) + (if srv = k then f else 0))"
  by (induction xs) (auto simp: stat_total_def stat_apply_def)

lemma stat_total_list_add:
  "stat_total (list_op src soAdd xs) k =
     (fst (stat_total xs k) + fst (stat_total src k), snd (stat_total xs k) + snd (stat_total src k))"
proof -
  have "stat_total (foldl (\<lambda>xs x. stat_op (ss_server x) (ss_success x) (ss_failed x) soAdd xs) xs src) k =
     (fst (stat_total xs k) + fst (stat_total src k), snd (stat_total xs k) + snd (stat_total src k))"
    by (induction src arbitrary: xs) (auto simp: stat_total_stat_op, simp_all add: stat_total_def)
  then show ?thesis by (simp add: list_op_def)
qed

lemma share_article_status [simp]: "share c (set_article_status k st fi) = share c fi"
  by (cases c) (simp_all add: set_article_status_def)

lemma article_counted_diff:
  assumes "article_counted st k stats fi nz = (fi', nz')"
  shows "current nz' c - settled nz' c = current nz c - settled nz c - share c fi + share c fi'"
  using assms
  by (cases c) (auto simp: article_counted_def Let_def set_article_status_def stat_of_list_op stat_total_list_add
      split: if_splits)

lemma totals_put_file:
  assumes "totals_ok nz" "j < length (nz_fileList nz)" "nz_fileList nz' = nz_fileList nz"
    and "\<forall>c. current nz' c - settled nz' c = current nz c - settled nz c - share c (nz_fileList nz ! j) + share c fi"
  shows "totals_ok (nzb_put_file j fi nz')"
  using nzb.replaced [OF assms(1) [unfolded totals_ok_def] assms(2), of nz' fi] assms(3,4)
  unfolding totals_ok_def nzb_put_file_def by simp

text \<open>The counters a download keeps beside its file list stay the sums over the files when an article
  arrives, whatever its status and also when the file turns out to be a duplicate.\<close>

theorem article_arrival_keeps_totals:
  assumes "\<forall>nz\<in>set (qc_queue s). totals_ok nz" "r \<in> refs (qc_queue s)"
    and "\<forall>k fi c. share c (qe_analyzed qe k fi) = share c fi"
  shows "\<forall>nz\<in>set (qc_queue (fst (article_arrived qe qo dl r s))). totals_ok nz"
proof -
  let ?q = "qc_queue s"
  obtain fi1 nz1 where c: "article_counted (dl_status dl) (dl_article dl) (dl_serverStats dl) (file_at ?q r) (nzb_at ?q r)
      = (fi1, nz1)" by fastforce
  define conf where "conf = (case dl_articleFilename dl of
       Some name \<Rightarrow> if \<not> fi_filenameConfirmed fi1 \<and> dl_status dl = adFinished
                     then confirm_filename qe qo nz1 name fi1 else (fi1, False)
     | None \<Rightarrow> (fi1, False))"
  obtain fi2 dupe where f2: "conf = (fi2, dupe)" by fastforce
  have s2: "share c fi2 = share c fi1" for c
    using f2 by (cases c) (auto simp: conf_def confirm_filename_def Let_def split: option.splits if_splits)
  define fi3 where "fi3 = (if dupe then fi2\<lparr>fi_dupeDeleted := True, fi_deleted := True\<rparr> else fi2)"
  define fi4 where "fi4 = (if dl_status dl = adFinished then qe_analyzed qe (dl_article dl) fi3 else fi3)"
  define nz2 where "nz2 = nz1\<lparr>nz_downloadedSize := nz_downloadedSize nz1 + dl_downloadedSize dl\<rparr>"
  have s4: "share c fi4 = share c fi1" for c
  proof -
    have "share c (fi\<lparr>fi_dupeDeleted := b, fi_deleted := b'\<rparr>) = share c fi" for fi b b' by (cases c) simp_all
    then have "share c fi3 = share c fi1" by (simp add: fi3_def s2)
    then show ?thesis using assms(3) by (simp add: fi4_def)
  qed
  have "qc_queue (fst (article_arrived qe qo dl r s)) = ?q[fst r := nzb_put_file (snd r) fi4 nz2]"
    unfolding article_arrived_def Let_def c prod.case
    unfolding conf_def [symmetric] f2 prod.case
    unfolding fi3_def [symmetric] fi4_def [symmetric] nz2_def [symmetric] by (simp add: put_nzb_def)
  moreover have "totals_ok (nzb_put_file (snd r) fi4 nz2)"
  proof (rule totals_put_file)
    show "totals_ok (nzb_at ?q r)" "snd r < length (nz_fileList (nzb_at ?q r))"
      using assms(1,2) by (auto simp: mem_refs nzb_at_def)
    show "nz_fileList nz2 = nz_fileList (nzb_at ?q r)"
      using c by (auto simp: article_counted_def Let_def nz2_def split: if_splits)
    have "current nz2 c - settled nz2 c = current nz1 c - settled nz1 c" for c
      by (cases c) (simp_all add: nz2_def)
    then show "\<forall>c. current nz2 c - settled nz2 c = current (nzb_at ?q r) c - settled (nzb_at ?q r) c -
        share c (nz_fileList (nzb_at ?q r) ! snd r) + share c fi4"
      using article_counted_diff [OF c] s4 by (simp add: file_at_def nzb_at_def)
  qed
  ultimately show ?thesis using assms(1) by (auto dest: set_update_subset_insert [THEN subsetD])
qed

section \<open>Examples\<close>

definition idle_env :: queue_env where
  "idle_env = \<lparr>qe_obfuscated = (\<lambda>_. False), qe_validName = id, qe_fileExists = (\<lambda>_. False),
     qe_analyzed = (\<lambda>_ fi. fi), qe_renamed = id, qe_completeParts = id\<rparr>"

definition plain_options :: queue_options where
  "plain_options = \<lparr>qo_now = 1000, qo_serverMode = False, qo_continuePartial = False, qo_directRename = False,
     qo_fileNaming = nfAuto, qo_dupeCheck = False, qo_healthCheck = hcNone, qo_parScanDupe = False,
     qo_keepHistory = 0, qo_articleTimeout = 0\<rparr>"

definition idle_coordinator :: "queue \<Rightarrow> coordinator" where
  "idle_coordinator q = \<lparr>qc_queue = q, qc_active = [], qc_events = []\<rparr>"

lemma idle_env_ok: "env_ok idle_env"
  by (simp add: env_ok_def idle_env_def)

lemma example_coord_ok: "coord_ok (idle_coordinator [plain_nzb 0 0 0 [one_file False False]])"
  by (simp add: coord_ok_def idle_coordinator_def coord_inv_def cores_ok_def nzb_core_def plain_nzb_def
      one_file_def nzb_init_def file_init_def nzb_ok_def core_ok_def file_core_def example_article_def
      done_count_def done_flag_def)


text \<open>A coordinator that downloads the only article of a file.\<close>

definition busy_coordinator :: coordinator where
  "busy_coordinator =
     \<lparr>qc_queue = [plain_nzb 0 0 0 [file_init\<lparr>fi_id := 5, fi_articles := [example_article\<lparr>ai_status := aiRunning\<rparr>],
        fi_activeDownloads := 1, fi_filenameConfirmed := True\<rparr>]\<lparr>nz_id := 7, nz_activeDownloads := 1\<rparr>],
      qc_active = [\<lparr>dl_file = 5, dl_article = 0, dl_status = adFinished, dl_serverStats = [],
        dl_downloadedSize = 100, dl_articleFilename = None, dl_lastUpdate = 0, dl_stopped = False\<rparr>],
      qc_events = []\<rparr>"

theorem last_article_completes_file_witness:
  "qc_events (article_completed idle_env plain_options 0 busy_coordinator) = [eaFileCompleted 7 5]"
proof -
  let ?s = busy_coordinator
  have loc: "locate 5 (qc_queue ?s) = Some (0, 0)"
    by (simp add: locate_def file_refs_def busy_coordinator_def plain_nzb_def upt_rec file_at_def)
  have fi: "file_at (qc_queue ?s) (0, 0) = file_init\<lparr>fi_id := 5, fi_articles := [example_article\<lparr>ai_status := aiRunning\<rparr>],
        fi_activeDownloads := 1, fi_filenameConfirmed := True\<rparr>"
    by (simp add: busy_coordinator_def file_at_def plain_nzb_def)
  have "coord_ok ?s"
    by (simp add: coord_ok_def busy_coordinator_def coord_inv_def cores_ok_def nzb_core_def plain_nzb_def jobs_def
        nzb_init_def file_init_def nzb_ok_def core_ok_def file_core_def example_article_def done_count_def done_flag_def)
  note run = last_article_completes_file [OF idle_env_ok this, of 0 "qc_active ?s ! 0" "(0, 0)" _ plain_options]
  have dl: "dl_file (qc_active ?s ! 0) = 5" "dl_article (qc_active ?s ! 0) = 0" "dl_status (qc_active ?s ! 0) = adFinished"
    "qc_active ?s \<noteq> []" "qc_events ?s = []" "nz_id (nzb_at (qc_queue ?s) (0, 0)) = 7"
    by (simp_all add: busy_coordinator_def nzb_at_def)
  have "qc_events (article_completed idle_env plain_options 0 ?s) =
      qc_events ?s @ [eaFileCompleted (nz_id (nzb_at (qc_queue ?s) (0, 0))) (dl_file (qc_active ?s ! 0))]"
    by (rule run [THEN conjunct2]) (simp_all add: dl loc fi, simp_all add: plain_options_def idle_env_def file_init_def)
  then show ?thesis by (simp add: dl)
qed

theorem article_arrival_keeps_totals_witness:
  "list_all totals_ok (qc_queue (fst (article_arrived idle_env plain_options (qc_active busy_coordinator ! 0) (0, 0)
      (busy_coordinator\<lparr>qc_queue := [update_current_stats (qc_queue busy_coordinator ! 0)]\<rparr>))))"
  unfolding list_all_iff
proof (rule article_arrival_keeps_totals)
  have "current (update_current_stats (qc_queue busy_coordinator ! 0)) c =
     settled (update_current_stats (qc_queue busy_coordinator ! 0)) c +
     sum_list (map (share c) (nz_fileList (update_current_stats (qc_queue busy_coordinator ! 0))))" for c
    by (cases c) (simp_all add: busy_coordinator_def plain_nzb_def nzb_init_def file_init_def update_current_stats_def
        Let_def add_current_file_def list_op_def stat_total_def)
  then show "\<forall>nz\<in>set (qc_queue (busy_coordinator\<lparr>qc_queue := [update_current_stats (qc_queue busy_coordinator ! 0)]\<rparr>)).
      totals_ok nz" by (simp add: totals_ok_def)
qed (simp_all add: idle_env_def mem_refs busy_coordinator_def plain_nzb_def update_current_stats_def Let_def
    foldl_add_current_file)

end
