(* ===== verification/QueueMoves.thy ===== *)
theory QueueMoves
  imports QueueSteps "HOL-Library.Multiset"
begin

text \<open>
  The edit actions that change the order of downloads and of the files of a download
  (\<open>daemon/queue/QueueEditor.cpp\<close>): moving by an offset, to the top, to the bottom, before and
  after another download, gathering the selected downloads, and setting the order of files.

  The actions on files and on downloads run the same code on two lists, so they are modelled on
  lists with a key: \<open>nz_id\<close> for the downloads and \<open>fi_id\<close> for the files.
\<close>

section \<open>Moving one entry\<close>

definition position :: "('a \<Rightarrow> int) \<Rightarrow> int \<Rightarrow> 'a list \<Rightarrow> nat" where
  "position key i xs = length (takeWhile (\<lambda>x. key x \<noteq> i) xs)"

text \<open>\<open>MoveEntry\<close> and \<open>MoveGroup\<close>, for the entry at a position of the list.\<close>

definition move_item :: "nat \<Rightarrow> int \<Rightarrow> 'a list \<Rightarrow> 'a list" where
  "move_item entry offset xs =
     (let newEntry = int entry + offset; size = int (length xs);
          newEntry = (if newEntry < 0 then 0 else newEntry);
          newEntry = (if newEntry > size - 1 then size - 1 else newEntry)
      in if newEntry \<ge> 0 \<and> newEntry \<le> size - 1
         then insert_at (nat newEntry) (xs ! entry) (del_nth entry xs) else xs)"

section \<open>Moving the selected entries\<close>

text \<open>The offset \<open>PrepareList\<close> gives to the entry at \<open>index\<close>: it keeps the entries in the list and
  does not let an entry overtake the one before it, which goes to \<open>lastDest\<close>.\<close>

definition plan_offset :: "int \<Rightarrow> int \<Rightarrow> int \<Rightarrow> int \<Rightarrow> int" where
  "plan_offset nr lastDest offset index =
     (let destPos = index + offset
      in if lastDest = -1
         then (if destPos < 0 then - index else if destPos > nr - 1 then nr - 1 - index else offset)
         else if offset < 0 \<and> destPos \<le> lastDest then lastDest - index + 1
         else if offset > 0 \<and> destPos \<ge> lastDest then lastDest - index - 1
         else offset)"

definition plan_step ::
    "('a \<Rightarrow> int) \<Rightarrow> int list \<Rightarrow> int \<Rightarrow> 'a list \<Rightarrow> int \<times> (int \<times> int) list \<Rightarrow> nat \<Rightarrow> int \<times> (int \<times> int) list" where
  "plan_step key ids offset xs acc i =
     (case acc of (lastDest, items) \<Rightarrow>
        if key (xs ! i) \<in> set ids
        then (let w = plan_offset (int (length xs)) lastDest offset (int i)
              in (int i + w, items @ [(key (xs ! i), w)]))
        else (lastDest, items))"

definition plan_moves :: "('a \<Rightarrow> int) \<Rightarrow> int list \<Rightarrow> bool \<Rightarrow> int \<Rightarrow> 'a list \<Rightarrow> (int \<times> int) list" where
  "plan_moves key ids up offset xs =
     snd (foldl (plan_step key ids offset xs) (-1, []) (if up then [0..<length xs] else rev [0..<length xs]))"

definition run_moves :: "('a \<Rightarrow> int) \<Rightarrow> (int \<times> int) list \<Rightarrow> 'a list \<Rightarrow> 'a list" where
  "run_moves key items xs = foldl (\<lambda>xs (i, w). move_item (position key i xs) w xs) xs items"

text \<open>Moving the entries with the given ids by an offset.\<close>

definition move_entries :: "('a \<Rightarrow> int) \<Rightarrow> int list \<Rightarrow> int \<Rightarrow> 'a list \<Rightarrow> 'a list" where
  "move_entries key ids offset xs = run_moves key (plan_moves key ids (offset < 0) offset xs) xs"

section \<open>Facts about moving\<close>

lemma position_nth:
  assumes "distinct (map key xs)" "i < length xs"
  shows "position key (key (xs ! i)) xs = i"
proof -
  have xs: "xs = take i xs @ xs ! i # drop (Suc i) xs" using assms(2) by (rule id_take_nth_drop)
  have "key x \<noteq> key (xs ! i)" if "x \<in> set (take i xs)" for x
    using assms that by (auto simp: in_set_conv_nth distinct_conv_nth)
  then have "takeWhile (\<lambda>x. key x \<noteq> key (xs ! i)) (take i xs @ xs ! i # drop (Suc i) xs) = take i xs"
    by (subst takeWhile_append2) auto
  then show ?thesis using assms(2) xs by (simp add: position_def)
qed

lemma move_item_up:
  assumes "m < length ys" "0 \<le> int m + w" "w \<le> 0"
  shows "move_item m w ys = take (nat (int m + w)) ys @ ys ! m #
    drop (nat (int m + w)) (take m ys) @ drop (Suc m) ys"
proof -
  have "nat (int m + w) \<le> m" using assms by linarith
  then have "take (nat (int m + w)) (del_nth m ys) = take (nat (int m + w)) ys"
    "drop (nat (int m + w)) (del_nth m ys) = drop (nat (int m + w)) (take m ys) @ drop (Suc m) ys"
    using assms(1) by (simp_all add: del_nth_def min_def)
  then show ?thesis using assms by (simp add: move_item_def insert_at_def Let_def)
qed

lemma nth_move_item_up:
  assumes "m < length ys" "0 \<le> int m + w" "w \<le> 0"
  shows "i < nat (int m + w) \<Longrightarrow> move_item m w ys ! i = ys ! i"
    "move_item m w ys ! nat (int m + w) = ys ! m"
    "m < i \<Longrightarrow> i < length ys \<Longrightarrow> move_item m w ys ! i = ys ! i"
    "length (move_item m w ys) = length ys"
    "mset (move_item m w ys) = mset ys"
    "\<not> P (ys ! m) \<Longrightarrow> filter P (move_item m w ys) = filter P ys"
proof -
  let ?d = "nat (int m + w)"
  have d: "?d \<le> m" using assms by linarith
  note up = move_item_up [OF assms]
  have ys: "ys = take ?d ys @ drop ?d (take m ys) @ ys ! m # drop (Suc m) ys"
    using assms(1) d id_take_nth_drop [OF assms(1)]
    by (metis append.assoc append_take_drop_id min.absorb1 take_take)
  show "i < ?d \<Longrightarrow> move_item m w ys ! i = ys ! i" using assms(1) d by (simp add: up nth_append)
  show "move_item m w ys ! ?d = ys ! m" using assms(1) d by (simp add: up nth_append)
  show "move_item m w ys ! i = ys ! i" if "m < i" "i < length ys"
  proof -
    from less_imp_Suc_add [OF that(1)] obtain k where k: "i = Suc (m + k)" by blast
    have "i - length (take ?d ys) = Suc (m - ?d + k)" using d assms(1) k by simp
    then show ?thesis using d assms(1) that k by (auto simp: up nth_append)
  qed
  show "length (move_item m w ys) = length ys" using assms(1) d by (simp add: up)
  have "mset (take ?d ys @ ys ! m # drop ?d (take m ys) @ drop (Suc m) ys) =
      mset (take ?d ys @ drop ?d (take m ys) @ ys ! m # drop (Suc m) ys)" by simp
  then show "mset (move_item m w ys) = mset ys" using ys up by metis
  show "filter P (move_item m w ys) = filter P ys" if "\<not> P (ys ! m)"
  proof -
    have "filter P ys = filter P (take ?d ys @ drop ?d (take m ys) @ ys ! m # drop (Suc m) ys)"
      using ys by simp
    then show ?thesis using that by (simp add: up)
  qed
qed

lemma run_moves_snoc: "run_moves key (items @ [(i, w)]) xs =
    (let ys = run_moves key items xs in move_item (position key i ys) w ys)"
  by (simp add: run_moves_def Let_def)

text \<open>The places of the selected entries.\<close>

definition chosen :: "('a \<Rightarrow> int) \<Rightarrow> int list \<Rightarrow> 'a list \<Rightarrow> nat \<Rightarrow> nat list" where
  "chosen key ids xs m = filter (\<lambda>i. key (xs ! i) \<in> set ids) [0..<m]"

lemma chosen_bounds:
  "i \<in> set (chosen key ids xs m) \<Longrightarrow> i < m"
  "length (chosen key ids xs m) \<le> m"
  by (auto simp: chosen_def) (metis diff_zero length_filter_le length_upt)

lemma chosen_sorted: "k < l \<Longrightarrow> l < length (chosen key ids xs m) \<Longrightarrow> chosen key ids xs m ! k < chosen key ids xs m ! l"
proof -
  have "sorted_wrt (<) (chosen key ids xs m)"
    unfolding chosen_def by (rule sorted_wrt_filter) (rule sorted_wrt_upt)
  then show "k < l \<Longrightarrow> l < length (chosen key ids xs m) \<Longrightarrow> chosen key ids xs m ! k < chosen key ids xs m ! l"
    by (rule sorted_wrt_nth_less)
qed

definition dest_up :: "int \<Rightarrow> nat \<Rightarrow> nat \<Rightarrow> int" where
  "dest_up offset k i = max (int k) (int i + offset)"

lemma plan_offset_up:
  assumes "offset < 0" "m < n" "js = chosen key ids xs m"
    and "prev = (if js = [] then -1 else dest_up offset (length js - 1) (js ! (length js - 1)))"
  shows "int m + plan_offset (int n) prev offset (int m) = dest_up offset (length js) m"
proof (cases "js = []")
  case True
  then show ?thesis using assms by (simp add: plan_offset_def dest_up_def Let_def)
next
  case False
  then have l: "js ! (length js - 1) < m"
    using chosen_bounds(1) [of "js ! (length js - 1)" key ids xs m] assms(3) by (metis diff_less length_greater_0_conv nth_mem zero_less_one)
  have "length js > 0" using False by simp
  then obtain k where "length js = Suc k" by (metis gr0_conv_Suc)
  then show ?thesis using assms l False by (auto simp: plan_offset_def dest_up_def Let_def)
qed

lemma moves_up_invariant:
  assumes dist: "distinct (map key xs)" and off: "offset < 0" and m: "m \<le> length xs"
    and plan: "foldl (plan_step key ids offset xs) (-1, []) [0..<m] = (prev, items)"
    and js: "js = chosen key ids xs m" and ys: "ys = run_moves key items xs"
  shows "prev = (if js = [] then -1 else dest_up offset (length js - 1) (js ! (length js - 1))) \<and>
    mset ys = mset xs \<and> length ys = length xs \<and> (\<forall>i. m \<le> i \<longrightarrow> i < length xs \<longrightarrow> ys ! i = xs ! i) \<and>
    (\<forall>k<length js. ys ! nat (dest_up offset k (js ! k)) = xs ! (js ! k)) \<and>
    filter (\<lambda>x. key x \<notin> set ids) ys = filter (\<lambda>x. key x \<notin> set ids) xs"
  using m plan js ys
proof (induction m arbitrary: prev items js ys)
  case 0
  then show ?case by (simp add: chosen_def run_moves_def)
next
  case (Suc m)
  obtain prev0 items0 where p0: "foldl (plan_step key ids offset xs) (-1, []) [0..<m] = (prev0, items0)" by fastforce
  define js0 where "js0 = chosen key ids xs m"
  define ys0 where "ys0 = run_moves key items0 xs"
  from Suc.IH [OF _ p0 js0_def ys0_def] Suc.prems(1)
  have IH: "prev0 = (if js0 = [] then -1 else dest_up offset (length js0 - 1) (js0 ! (length js0 - 1)))"
    "mset ys0 = mset xs" "length ys0 = length xs" "\<And>i. m \<le> i \<Longrightarrow> i < length xs \<Longrightarrow> ys0 ! i = xs ! i"
    "\<And>k. k < length js0 \<Longrightarrow> ys0 ! nat (dest_up offset k (js0 ! k)) = xs ! (js0 ! k)"
    "filter (\<lambda>x. key x \<notin> set ids) ys0 = filter (\<lambda>x. key x \<notin> set ids) xs"
    by auto
  have step: "plan_step key ids offset xs (prev0, items0) m = (prev, items)" using Suc.prems(2) p0 by simp
  show ?case
  proof (cases "key (xs ! m) \<in> set ids")
    case False
    then have "prev = prev0" "items = items0" "js = js0"
      using step Suc.prems(3) by (simp_all add: plan_step_def chosen_def js0_def)
    then show ?thesis using IH Suc.prems(4) ys0_def by auto
  next
    case True
    define w where "w = plan_offset (int (length xs)) prev0 offset (int m)"
    have js: "js = js0 @ [m]" using True Suc.prems(3) by (simp add: chosen_def js0_def)
    have li: "prev = int m + w" "items = items0 @ [(key (xs ! m), w)]"
      using step True by (simp_all add: plan_step_def w_def Let_def)
    have dest: "int m + w = dest_up offset (length js0) m"
      unfolding w_def by (rule plan_offset_up [OF off _ js0_def IH(1)]) (use Suc.prems in simp)
    have len: "length js0 \<le> m" unfolding js0_def by (rule chosen_bounds)
    then have w: "0 \<le> int m + w" "w \<le> 0" using dest off by (auto simp: dest_up_def)
    have ml: "m < length ys0" using Suc.prems(1) IH(3) by simp
    have "distinct (map key ys0)" using dist IH(2) by (metis distinct_map mset_eq_imp_distinct_iff mset_eq_setD)
    then have "position key (key (xs ! m)) ys0 = m"
      using position_nth [of key ys0 m] ml IH(4) [of m] IH(3) by simp
    then have ys: "ys = move_item m w ys0"
      using Suc.prems(4) li(2) ys0_def by (simp add: run_moves_snoc Let_def)
    note up = nth_move_item_up [OF ml w]
    have low: "nat (dest_up offset k (js0 ! k)) < nat (int m + w)" if "k < length js0" for k
    proof -
      have "js0 ! k < m" using chosen_bounds(1) that nth_mem unfolding js0_def by fastforce
      then show ?thesis using that dest off by (auto simp: dest_up_def)
    qed
    have "ys ! nat (dest_up offset k (js ! k)) = xs ! (js ! k)" if "k < length js" for k
    proof (cases "k < length js0")
      case True
      then show ?thesis using up(1) [OF low [OF True]] IH(5) js by (simp add: ys nth_append)
    next
      case False
      then have "k = length js0" using that js by simp
      then show ?thesis using up(2) dest IH(4) [of m] ml IH(3) js by (simp add: ys)
    qed
    moreover have "ys ! i = xs ! i" if "Suc m \<le> i" "i < length xs" for i
      using up(3) [of i] that IH(3) IH(4) [of i] by (simp add: ys)
    moreover have "filter (\<lambda>x. key x \<notin> set ids) ys = filter (\<lambda>x. key x \<notin> set ids) xs"
      using up(6) [of "\<lambda>x. key x \<notin> set ids"] IH(4) [of m] ml IH(3,6) True by (simp add: ys)
    ultimately show ?thesis
      using li(1) dest js up(4,5) IH(2,3) by (simp add: ys)
  qed
qed

text \<open>Moving towards the top.\<close>

lemma move_entries_up:
  assumes "distinct (map key xs)" "offset < 0"
  shows "mset (move_entries key ids offset xs) = mset xs"
    "length (move_entries key ids offset xs) = length xs"
    "filter (\<lambda>x. key x \<notin> set ids) (move_entries key ids offset xs) = filter (\<lambda>x. key x \<notin> set ids) xs"
    "k < length (chosen key ids xs (length xs)) \<Longrightarrow>
     move_entries key ids offset xs ! nat (dest_up offset k (chosen key ids xs (length xs) ! k)) =
       xs ! (chosen key ids xs (length xs) ! k)"
proof -
  obtain prev items where p: "foldl (plan_step key ids offset xs) (-1, []) [0..<length xs] = (prev, items)" by fastforce
  then have m: "move_entries key ids offset xs = run_moves key items xs"
    using assms(2) by (simp add: move_entries_def plan_moves_def)
  from moves_up_invariant [OF assms le_refl p refl m]
  show "mset (move_entries key ids offset xs) = mset xs"
    "length (move_entries key ids offset xs) = length xs"
    "filter (\<lambda>x. key x \<notin> set ids) (move_entries key ids offset xs) = filter (\<lambda>x. key x \<notin> set ids) xs"
    "k < length (chosen key ids xs (length xs)) \<Longrightarrow>
     move_entries key ids offset xs ! nat (dest_up offset k (chosen key ids xs (length xs) ! k)) =
       xs ! (chosen key ids xs (length xs) ! k)"
    by auto
qed

section \<open>Moving towards the bottom is the mirror image\<close>

lemma del_nth_rev: "i < length xs \<Longrightarrow> del_nth (length xs - Suc i) (rev xs) = rev (del_nth i xs)"
  by (simp add: del_nth_def take_rev drop_rev Suc_diff_Suc)

lemma insert_at_rev: "n \<le> length xs \<Longrightarrow> insert_at (length xs - n) x (rev xs) = rev (insert_at n x xs)"
  by (simp add: insert_at_def take_rev drop_rev)

lemma move_item_rev:
  assumes "m < length xs" "0 \<le> int m + w" "int m + w < int (length xs)"
  shows "move_item (length xs - Suc m) (- w) (rev xs) = rev (move_item m w xs)"
proof -
  let ?d = "nat (int m + w)"
  have d: "?d \<le> length (del_nth m xs)" "nat (int (length xs - Suc m) - w) = length (del_nth m xs) - ?d"
    using assms by (auto simp: del_nth_def)
  have "insert_at (length (del_nth m xs) - ?d) (xs ! m) (rev (del_nth m xs)) = rev (insert_at ?d (xs ! m) (del_nth m xs))"
    by (rule insert_at_rev [OF d(1)])
  moreover have "move_item m w xs = insert_at ?d (xs ! m) (del_nth m xs)"
    using assms by (simp add: move_item_def Let_def)
  moreover have "move_item (length xs - Suc m) (- w) (rev xs) =
      insert_at (nat (int (length xs - Suc m) - w)) (rev xs ! (length xs - Suc m)) (del_nth (length xs - Suc m) (rev xs))"
    using assms by (auto simp: move_item_def Let_def)
  ultimately show ?thesis using assms(1) d(2) by (simp add: del_nth_rev rev_nth)
qed

lemma plan_offset_rev:
  assumes "0 < offset" "i < n" "prev = -1 \<or> 0 \<le> prev \<and> prev < int n"
  shows "plan_offset (int n) (if prev = -1 then -1 else int n - 1 - prev) (- offset) (int n - 1 - int i) =
    - plan_offset (int n) prev offset (int i)"
  using assms by (auto simp: plan_offset_def Let_def)

lemma position_rev:
  assumes "distinct (map key xs)" "i < length xs"
  shows "position key (key (xs ! i)) (rev xs) = length xs - Suc i"
  using position_nth [of key "rev xs" "length xs - Suc i"] assms by (simp add: rev_nth rev_map [symmetric])

lemma distinct_keys_mset: "mset ys = mset xs \<Longrightarrow> distinct (map key ys) = distinct (map key xs)"
  by (metis mset_eq_imp_distinct_iff mset_map)

lemma moves_down_mirror:
  assumes dist: "distinct (map key xs)" and off: "0 < offset" and t: "t \<le> length xs"
    and up: "foldl (plan_step key ids (- offset) (rev xs)) (-1, []) [0..<t] = (prev, items)"
  shows "foldl (plan_step key ids offset xs) (-1, []) (take t (rev [0..<length xs])) =
      (if prev = -1 then -1 else int (length xs) - 1 - prev, map (\<lambda>(i, w). (i, - w)) items) \<and>
    run_moves key (map (\<lambda>(i, w). (i, - w)) items) xs = rev (run_moves key items (rev xs))"
  using t up
proof (induction t arbitrary: prev items)
  case 0
  then show ?case by (simp add: run_moves_def)
next
  case (Suc t)
  let ?n = "length xs" and ?neg = "map (\<lambda>(i :: int, w :: int). (i, - w))"
  obtain prev0 items0 where p0: "foldl (plan_step key ids (- offset) (rev xs)) (-1, []) [0..<t] = (prev0, items0)" by fastforce
  define ys0 where "ys0 = run_moves key items0 (rev xs)"
  have IH: "foldl (plan_step key ids offset xs) (-1, []) (take t (rev [0..<?n])) =
      (if prev0 = -1 then -1 else int ?n - 1 - prev0, ?neg items0)"
    "run_moves key (?neg items0) xs = rev ys0"
    using Suc.IH [OF _ p0] Suc.prems(1) by (simp_all add: ys0_def)
  have dist': "distinct (map key (rev xs))" using dist by (simp add: rev_map [symmetric])
  have U: "prev0 = (if chosen key ids (rev xs) t = [] then -1 else dest_up (- offset)
        (length (chosen key ids (rev xs) t) - 1) (chosen key ids (rev xs) t ! (length (chosen key ids (rev xs) t) - 1)))"
    "mset ys0 = mset (rev xs)" "length ys0 = ?n" "ys0 ! t = rev xs ! t"
    using moves_up_invariant [OF dist' _ _ p0 refl ys0_def] off Suc.prems(1) by auto
  let ?i = "?n - Suc t"
  have i: "?i < ?n" "int ?i = int ?n - 1 - int t" "rev xs ! t = xs ! ?i" using Suc.prems(1) by (auto simp: rev_nth)
  have snoc: "take (Suc t) (rev [0..<?n]) = take t (rev [0..<?n]) @ [?i]"
    using Suc.prems(1) by (simp add: take_Suc_conv_app_nth rev_nth)
  have step: "plan_step key ids (- offset) (rev xs) (prev0, items0) t = (prev, items)" using Suc.prems(2) p0 by simp
  show ?case
  proof (cases "key (xs ! ?i) \<in> set ids")
    case False
    then have skip: "plan_step key ids offset xs acc ?i = acc" "plan_step key ids (- offset) (rev xs) acc t = acc" for acc
      using i(3) by (simp_all add: plan_step_def split: prod.split)
    then show ?thesis using step IH by (simp add: snoc ys0_def)
  next
    case True
    define w where "w = plan_offset (int ?n) prev0 (- offset) (int t)"
    have li: "prev = int t + w" "items = items0 @ [(key (xs ! ?i), w)]"
      using step True i(3) by (simp_all add: plan_step_def w_def Let_def)
    have dest: "int t + w = dest_up (- offset) (length (chosen key ids (rev xs) t)) t"
      unfolding w_def by (rule plan_offset_up [OF _ _ refl U(1)]) (use off Suc.prems(1) in simp_all)
    have len: "length (chosen key ids (rev xs) t) \<le> t" by (rule chosen_bounds)
    then have w: "0 \<le> int t + w" "w \<le> 0" using dest off by (auto simp: dest_up_def)
    have prev0: "prev0 = -1 \<or> 0 \<le> prev0 \<and> prev0 < int ?n"
    proof (cases "chosen key ids (rev xs) t = []")
      case False
      then have "chosen key ids (rev xs) t ! (length (chosen key ids (rev xs) t) - 1) < t"
        using chosen_bounds(1) by (metis diff_less length_greater_0_conv nth_mem zero_less_one)
      then show ?thesis using U(1) False len Suc.prems(1) off by (simp add: dest_up_def max_def) arith
    qed (use U(1) in simp)
    have "plan_offset (int ?n) (if prev0 = -1 then -1 else int ?n - 1 - prev0) offset (int ?i) = - w"
      using plan_offset_rev [of offset ?i ?n "if prev0 = -1 then -1 else int ?n - 1 - prev0"] off i prev0
      by (auto simp: w_def split: if_splits)
    then have 1: "foldl (plan_step key ids offset xs) (-1, []) (take (Suc t) (rev [0..<?n])) =
        (if prev = -1 then -1 else int ?n - 1 - prev, ?neg items)"
      using IH(1) True i li w by (simp add: snoc plan_step_def Let_def)
    have "distinct (map key ys0)" using distinct_keys_mset [OF U(2), of key] dist' by blast
    then have pos: "position key (key (xs ! ?i)) ys0 = t" "position key (key (xs ! ?i)) (rev ys0) = ?i"
      using position_nth [of key ys0 t] position_rev [of key ys0 t] U(3,4) i(3) Suc.prems(1) by simp_all
    have "move_item (length ys0 - Suc t) (- w) (rev ys0) = rev (move_item t w ys0)"
      by (rule move_item_rev) (use Suc.prems(1) U(3) w in auto)
    then have "run_moves key (?neg items) xs = rev (run_moves key items (rev xs))"
      using IH(2) pos U(3) li(2) by (simp add: run_moves_snoc Let_def ys0_def [symmetric])
    with 1 show ?thesis by simp
  qed
qed

lemma move_entries_down:
  assumes "distinct (map key xs)" "0 < offset"
  shows "move_entries key ids offset xs = rev (move_entries key ids (- offset) (rev xs))"
proof -
  obtain prev items where p: "foldl (plan_step key ids (- offset) (rev xs)) (-1, []) [0..<length xs] = (prev, items)" by fastforce
  from moves_down_mirror [OF assms le_refl p] assms(2) p show ?thesis
    by (simp add: move_entries_def plan_moves_def)
qed

section \<open>Moving a block\<close>

lemma chosen_block:
  assumes "xs = A @ S @ B" "\<forall>x\<in>set (A @ B). key x \<notin> set ids" "\<forall>x\<in>set S. key x \<in> set ids"
  shows "chosen key ids xs (length xs) = [length A..<length A + length S]"
proof -
  have "filter (\<lambda>i. key (xs ! i) \<in> set ids) [0..<length A] = []"
    "filter (\<lambda>i. key (xs ! i) \<in> set ids) [length A..<length A + length S] = [length A..<length A + length S]"
    "filter (\<lambda>i. key (xs ! i) \<in> set ids) [length A + length S..<length xs] = []"
    using assms by (auto simp: filter_empty_conv filter_id_conv nth_append)
  moreover have "[0..<length xs] = [0..<length A] @ [length A..<length A + length S] @ [length A + length S..<length xs]"
    using assms(1) upt_add_eq_append [of 0 "length A" "length S + length B"]
      upt_add_eq_append [of "length A" "length A + length S" "length B"] by (simp add: add.assoc)
  ultimately show ?thesis by (simp add: chosen_def)
qed

lemma block_moved_up:
  assumes dist: "distinct (map key xs)" and xs: "xs = A @ S @ B"
    and sel: "\<forall>x\<in>set (A @ B). key x \<notin> set ids" "\<forall>x\<in>set S. key x \<in> set ids"
    and off: "offset < 0"
  shows "move_entries key ids offset xs =
    take (nat (int (length A) + offset)) A @ S @ drop (nat (int (length A) + offset)) A @ B"
proof -
  let ?ys = "move_entries key ids offset xs" and ?p = "nat (int (length A) + offset)"
  note up = move_entries_up [OF dist off, where ids = ids]
  have ch: "chosen key ids xs (length xs) = [length A..<length A + length S]" by (rule chosen_block [OF xs sel])
  have "?ys ! (?p + k) = S ! k" if "k < length S" for k
  proof -
    have "nat (dest_up offset k (length A + k)) = ?p + k" by (simp add: dest_up_def)
    then show ?thesis using up(4) [of k] that ch xs by (simp add: nth_append)
  qed
  moreover have len: "length ?ys = length A + length S + length B" using up(2) xs by simp
  ultimately have mid: "take (length S) (drop ?p ?ys) = S"
    using off by (intro nth_equalityI) auto
  define X where "X = take ?p ?ys"
  define Y where "Y = drop (?p + length S) ?ys"
  have split: "?ys = X @ S @ Y"
    unfolding X_def Y_def using mid by (metis add.commute append_take_drop_id drop_drop)
  have "filter (\<lambda>x. key x \<in> set ids) xs = S" "filter (\<lambda>x. key x \<notin> set ids) xs = A @ B"
    using xs sel by simp_all
  then have all: "mset (filter (\<lambda>x. key x \<in> set ids) ?ys) = mset S" "filter (\<lambda>x. key x \<notin> set ids) ?ys = A @ B"
    using up(1,3) by (metis mset_filter, simp)
  then have "mset (filter (\<lambda>x. key x \<in> set ids) X) + mset (filter (\<lambda>x. key x \<in> set ids) Y) = {#}"
    unfolding split using sel(2) by simp
  then have "filter (\<lambda>x. key x \<in> set ids) X = []" "filter (\<lambda>x. key x \<in> set ids) Y = []" by simp_all
  then have "filter (\<lambda>x. key x \<notin> set ids) X = X" "filter (\<lambda>x. key x \<notin> set ids) Y = Y"
    by (auto simp: filter_empty_conv filter_id_conv)
  then have "X @ Y = A @ B" using all(2) sel(2) unfolding split by simp
  moreover have "length X = ?p" "?p \<le> length A" using len off by (auto simp: X_def)
  ultimately have "X = take ?p A" "Y = drop ?p A @ B"
    by (simp_all add: append_eq_conv_conj)
  with split show ?thesis by simp
qed

lemma block_moved:
  assumes dist: "distinct (map key xs)" and xs: "xs = A @ S @ B"
    and sel: "\<forall>x\<in>set (A @ B). key x \<notin> set ids" "\<forall>x\<in>set S. key x \<in> set ids"
  shows "offset < 0 \<Longrightarrow> move_entries key ids offset xs =
      take (nat (int (length A) + offset)) A @ S @ drop (nat (int (length A) + offset)) A @ B"
    "0 < offset \<Longrightarrow> move_entries key ids offset xs = A @ take (nat offset) B @ S @ drop (nat offset) B"
proof -
  assume pos: "0 < offset"
  have "distinct (map key (rev xs))" using dist by (simp add: rev_map [symmetric])
  moreover have "nat (int (length B) - offset) = length B - nat offset" using pos by simp
  moreover have "\<forall>x\<in>set (rev B @ rev A). key x \<notin> set ids" "\<forall>x\<in>set (rev S). key x \<in> set ids" using sel by auto
  ultimately have "move_entries key ids (- offset) (rev xs) =
      take (length B - nat offset) (rev B) @ rev S @ drop (length B - nat offset) (rev B) @ rev A"
    using block_moved_up [of key "rev xs" "rev B" "rev S" "rev A" ids "- offset"] xs pos by simp
  moreover have "take (length B - nat offset) (rev B) = rev (drop (nat offset) B)"
    "drop (length B - nat offset) (rev B) = rev (take (nat offset) B)"
    by (cases "nat offset \<le> length B"; simp add: take_rev drop_rev)+
  ultimately show "move_entries key ids offset xs = A @ take (nat offset) B @ S @ drop (nat offset) B"
    using move_entries_down [OF dist pos] by simp
qed (use block_moved_up [OF assms] in simp)

section \<open>Gathering the selected downloads\<close>

text \<open>\<open>AlignGroups\<close>: \<open>started\<close> tells that a selected download was seen, at the place \<open>lastNum\<close>.\<close>

function align_loop :: "('a \<Rightarrow> bool) \<Rightarrow> nat \<Rightarrow> nat \<Rightarrow> bool \<Rightarrow> 'a list \<Rightarrow> 'a list" where
  "align_loop sel num lastNum started xs =
     (if num < length xs
      then if sel (xs ! num)
           then if started \<and> num - lastNum > 1
                then align_loop sel (num + 1) (lastNum + 1) True (insert_at (lastNum + 1) (xs ! num) (del_nth num xs))
                else align_loop sel (num + 1) num True xs
           else align_loop sel (num + 1) lastNum started xs
      else xs)"
  by pat_completeness auto
termination
  by (relation "measure (\<lambda>(_, num, _, _, xs). length xs - num)") (auto simp: insert_at_def del_nth_def)

declare align_loop.simps [simp del]

definition align_groups :: "('a \<Rightarrow> bool) \<Rightarrow> 'a list \<Rightarrow> 'a list" where
  "align_groups sel xs = align_loop sel 0 0 False xs"

lemma align_loop_started:
  assumes "S \<noteq> []" "\<forall>x\<in>set S. sel x"
  shows "align_loop sel (length U + length S + length V) (length U + length S - 1) True (U @ S @ V @ R) =
    U @ S @ filter sel R @ V @ filter (\<lambda>x. \<not> sel x) R"
  using assms
proof (induction R arbitrary: S V)
  case Nil
  then show ?case by (subst align_loop.simps) simp
next
  case (Cons r R)
  let ?xs = "U @ S @ V @ r # R" and ?n = "length U + length S + length V"
  have at: "?xs ! ?n = r" "?n < length ?xs" by (simp_all add: nth_append)
  have pos: "length U + length S - 1 + 1 = length U + length S" using Cons.prems(1) by (cases S) simp_all
  show ?case
  proof (cases "sel r")
    case False
    then have "align_loop sel ?n (length U + length S - 1) True ?xs =
        align_loop sel (length U + length S + length (V @ [r])) (length U + length S - 1) True (U @ S @ (V @ [r]) @ R)"
      using at by (subst align_loop.simps) simp
    then show ?thesis using Cons.IH [OF Cons.prems, of "V @ [r]"] False by simp
  next
    case True
    show ?thesis
    proof (cases "V = []")
      case empty: True
      have "align_loop sel ?n (length U + length S - 1) True ?xs =
          align_loop sel (length U + length (S @ [r]) + length V) (length U + length (S @ [r]) - 1) True (U @ (S @ [r]) @ V @ R)"
        using at True empty pos by (subst align_loop.simps) simp
      then show ?thesis using Cons.IH [of "S @ [r]" V] Cons.prems True empty by simp
    next
      case False
      have far: "?n - (length U + length S - 1) > 1" using False Cons.prems(1) by (cases V; cases S) simp_all
      have "insert_at (length U + length S) r (del_nth ?n ?xs) = U @ (S @ [r]) @ V @ R"
        by (simp add: insert_at_def del_nth_def)
      then have "align_loop sel ?n (length U + length S - 1) True ?xs =
          align_loop sel (length U + length (S @ [r]) + length V) (length U + length (S @ [r]) - 1) True (U @ (S @ [r]) @ V @ R)"
        using at True far pos by (subst align_loop.simps) simp
      then show ?thesis using Cons.IH [of "S @ [r]" V] Cons.prems True by simp
    qed
  qed
qed

lemma align_loop_before:
  assumes "\<forall>x\<in>set U. \<not> sel x"
  shows "align_loop sel (length U) n False (U @ R) =
    U @ takeWhile (\<lambda>x. \<not> sel x) R @ filter sel R @ filter (\<lambda>x. \<not> sel x) (dropWhile (\<lambda>x. \<not> sel x) R)"
  using assms
proof (induction R arbitrary: U)
  case Nil
  then show ?case by (subst align_loop.simps) simp
next
  case (Cons r R)
  show ?case
  proof (cases "sel r")
    case True
    then have "align_loop sel (length U) n False (U @ r # R) =
        align_loop sel (length U + length [r] + length []) (length U + length [r] - 1) True (U @ [r] @ [] @ R)"
      by (subst align_loop.simps) (simp add: nth_append)
    then show ?thesis using align_loop_started [of "[r]" sel U "[]" R] True by simp
  next
    case False
    then have "align_loop sel (length U) n False (U @ r # R) = align_loop sel (length (U @ [r])) n False ((U @ [r]) @ R)"
      by (subst align_loop.simps) (simp add: nth_append)
    then show ?thesis using Cons.IH [of "U @ [r]"] Cons.prems False by simp
  qed
qed

lemma align_groups_eq:
  "align_groups sel xs = takeWhile (\<lambda>x. \<not> sel x) xs @ filter sel xs @ filter (\<lambda>x. \<not> sel x) (dropWhile (\<lambda>x. \<not> sel x) xs)"
  using align_loop_before [of "[]" sel 0 xs] by (simp add: align_groups_def)

section \<open>Moving before or after another download\<close>

definition max_id :: int where
  "max_id = 1000000000"

text \<open>The ids of the list in the order of the command, as \<open>PrepareList\<close> collects them when the
  entries do not move.\<close>

definition id_order :: "('a \<Rightarrow> int) \<Rightarrow> int list \<Rightarrow> 'a list \<Rightarrow> int list" where
  "id_order key ids xs = filter (\<lambda>i. fold min (map key xs) max_id \<le> i \<and> i \<le> fold max (map key xs) 0 \<and>
     list_ex (\<lambda>x. key x = i) xs) ids"

definition prepare_moves :: "('a \<Rightarrow> int) \<Rightarrow> int list \<Rightarrow> int \<Rightarrow> 'a list \<Rightarrow> (int \<times> int) list" where
  "prepare_moves key ids offset xs =
     (if offset \<noteq> 0 then plan_moves key ids (offset < 0) offset xs
      else map (\<lambda>i. (i, 0)) (id_order key ids xs))"

text \<open>\<open>InternEditList\<close> for \<open>eaGroupMoveOffset\<close> and \<open>eaFileMoveOffset\<close>.\<close>

definition edit_move :: "('a \<Rightarrow> int) \<Rightarrow> int list \<Rightarrow> int \<Rightarrow> 'a list \<Rightarrow> 'a list \<times> bool" where
  "edit_move key ids offset xs =
     (let items = prepare_moves key ids offset xs in (run_moves key items xs, items \<noteq> []))"

text \<open>The target of \<open>MoveGroupsTo\<close>: a target that is itself moved is replaced by the next one that is
  not, and by the bottom of the queue (\<open>None\<close>) when there is none.\<close>

definition move_target :: "('a \<Rightarrow> int) \<Rightarrow> int list \<Rightarrow> bool \<Rightarrow> int \<Rightarrow> 'a list \<Rightarrow> (int \<times> bool) option" where
  "move_target key ids before target xs =
     (if list_ex (\<lambda>x. key x = target) (filter (\<lambda>x. key x \<in> set ids) xs)
      then (case find (\<lambda>x. key x \<notin> set ids) (tl (dropWhile (\<lambda>x. key x \<noteq> target) xs)) of
              Some x \<Rightarrow> Some (key x, True) | None \<Rightarrow> None)
      else Some (target, before))"

fun offset_scan ::
    "('a \<Rightarrow> int) \<Rightarrow> int \<Rightarrow> int \<Rightarrow> bool \<Rightarrow> int \<Rightarrow> (int \<times> int) option \<Rightarrow> 'a list \<Rightarrow> int" where
  "offset_scan key target move before nr st [] = (case st of None \<Rightarrow> 0 | Some (_, offset) \<Rightarrow> offset)"
| "offset_scan key target move before nr st (x # xs) =
     (if key x = target \<or> key x = move
      then (case st of
              None \<Rightarrow> (let step = (if key x = target then -1 else 1);
                           offset = (if before then 0 else 1) - (if step > 0 then nr else 0)
                       in offset_scan key target move before nr (Some (step, offset + step)) xs)
            | Some (_, offset) \<Rightarrow> offset)
      else offset_scan key target move before nr
             (map_option (\<lambda>(step, offset). (step, offset + step)) st) xs)"

definition move_groups_to ::
    "('a \<Rightarrow> int) \<Rightarrow> int list \<Rightarrow> bool \<Rightarrow> cstring \<Rightarrow> 'a list \<Rightarrow> 'a list \<times> bool" where
  "move_groups_to key ids before args xs =
     (let items = filter (\<lambda>x. key x \<in> set ids) xs
      in if items = [] \<or> args = [] then (xs, False)
         else let ys = align_groups (\<lambda>x. key x \<in> set ids) xs;
                  offset = (case move_target key ids before (atoi_c args) xs of
                      None \<Rightarrow> max_id
                    | Some (target, before) \<Rightarrow>
                        offset_scan key target (key (hd items)) before (int (length items)) None ys)
              in edit_move key ids offset ys)"

lemma offset_scan_skip:
  assumes "\<forall>x\<in>set A. key x \<noteq> t \<and> key x \<noteq> m"
  shows "offset_scan key t m b nr None (A @ B) = offset_scan key t m b nr None B"
    "offset_scan key t m b nr (Some (step, offset)) (A @ B) =
       offset_scan key t m b nr (Some (step, offset + step * int (length A))) B"
  using assms by (induction A arbitrary: offset) (auto simp: algebra_simps)

lemma run_moves_zero:
  assumes "distinct (map key xs)" "\<forall>(i, w)\<in>set items. w = 0 \<and> i \<in> key ` set xs"
  shows "run_moves key items xs = xs"
  using assms(2)
proof (induction items rule: rev_induct)
  case (snoc it items)
  obtain i where it: "it = (i, 0)" "i \<in> key ` set xs" using snoc.prems by (cases it) auto
  then obtain k where k: "k < length xs" "i = key (xs ! k)" by (auto simp: in_set_conv_nth)
  have "move_item k 0 xs = xs"
    using k id_take_nth_drop [of k xs] by (simp add: move_item_def insert_at_def del_nth_def Let_def)
  then show ?case using snoc k it position_nth [OF assms(1) k(1)] by (simp add: run_moves_snoc Let_def)
qed (simp add: run_moves_def)

lemma edit_move_eq:
  assumes "distinct (map key xs)"
  shows "fst (edit_move key ids offset xs) = (if offset = 0 then xs else move_entries key ids offset xs)"
proof (cases "offset = 0")
  case True
  have "run_moves key (map (\<lambda>i. (i, 0)) (id_order key ids xs)) xs = xs"
    by (rule run_moves_zero [OF assms]) (auto simp: id_order_def list_ex_iff)
  then show ?thesis using True by (simp add: edit_move_def prepare_moves_def)
qed (simp add: edit_move_def prepare_moves_def move_entries_def Let_def)

lemma keys_apart:
  "key t \<notin> key ` A \<Longrightarrow> key u \<notin> key ` A \<Longrightarrow> \<forall>x\<in>A. key x \<noteq> key t \<and> key x \<noteq> key u"
  by (metis imageI)

lemma move_to_aligned:
  assumes dist: "distinct (map key (U @ S @ V))"
    and sel: "\<forall>x\<in>set (U @ V). key x \<notin> set ids" "\<forall>x\<in>set S. key x \<in> set ids" "S \<noteq> []"
    and T: "U @ V = P @ T # Q"
    and off: "offset = offset_scan key (key T) (key (hd S)) before (int (length S)) None (U @ S @ V)"
  shows "fst (edit_move key ids offset (U @ S @ V)) = (if before then P @ S @ T # Q else P @ T # S @ Q)"
proof -
  obtain s S' where S: "S = s # S'" using sel(3) by (cases S) auto
  note move = block_moved [OF dist refl sel(1,2)]
  have "(\<exists>Q1. U = P @ T # Q1 \<and> Q = Q1 @ V) \<or> (\<exists>P1. V = P1 @ T # Q \<and> P = U @ P1)"
    using T by (auto simp: append_eq_append_conv2 append_eq_Cons_conv Cons_eq_append_conv)
  then show ?thesis
  proof (elim disjE exE conjE)
    fix Q1 assume U: "U = P @ T # Q1" and Q: "Q = Q1 @ V"
    have "\<forall>x\<in>set P. key x \<noteq> key T \<and> key x \<noteq> key s" "\<forall>x\<in>set Q1. key x \<noteq> key T \<and> key x \<noteq> key s"
      by (rule keys_apart; use dist S U in auto)+
    note skip = offset_scan_skip(1) [OF this(1)] offset_scan_skip(2) [OF this(2)]
    have o: "offset = (if before then 0 else 1) - 1 - int (length Q1)"
      unfolding off using S U by (simp add: skip)
    show ?thesis
    proof (cases "offset = 0")
      case True
      then have "\<not> before" "Q1 = []" using o by (auto split: if_splits)
      then show ?thesis unfolding edit_move_eq [OF dist] using True U Q by simp
    next
      case False
      then have neg: "offset < 0" using o by (auto split: if_splits)
      have at: "nat (int (length U) + offset) = (if before then length P else Suc (length P))" using U o by auto
      have "take (nat (int (length U) + offset)) U = (if before then P else P @ [T])"
        "drop (nat (int (length U) + offset)) U = (if before then T # Q1 else Q1)"
        unfolding at by (simp_all add: U)
      then show ?thesis unfolding edit_move_eq [OF dist] move(1) [OF neg] using False Q by simp
    qed
  next
    fix P1 assume V: "V = P1 @ T # Q" and P: "P = U @ P1"
    have A: "\<forall>x\<in>set U. key x \<noteq> key T \<and> key x \<noteq> key s" "\<forall>x\<in>set (S' @ P1). key x \<noteq> key T \<and> key x \<noteq> key s" "key s \<noteq> key T"
      by (rule keys_apart; use dist S V in auto)+ (use dist S V in auto)
    have o: "offset = (if before then 0 else 1) + int (length P1)"
      unfolding off using S V A(3) offset_scan_skip(1) [OF A(1)] offset_scan_skip(2) [OF A(2)] by simp
    show ?thesis
    proof (cases "offset = 0")
      case True
      then have "before" "P1 = []" using o by (auto split: if_splits)
      then show ?thesis unfolding edit_move_eq [OF dist] using True V P by simp
    next
      case False
      then have pos: "0 < offset" using o by (auto split: if_splits)
      have at: "nat offset = (if before then length P1 else Suc (length P1))" using o by auto
      have "take (nat offset) V = (if before then P1 else P1 @ [T])" "drop (nat offset) V = (if before then T # Q else Q)"
        unfolding at by (simp_all add: V)
      then show ?thesis unfolding edit_move_eq [OF dist] move(2) [OF pos] using False P by simp
    qed
  qed
qed

lemma aligned_split:
  assumes "distinct (map key xs)"
  shows "\<exists>U V. align_groups (\<lambda>x. key x \<in> set ids) xs = U @ filter (\<lambda>x. key x \<in> set ids) xs @ V \<and>
    U @ V = filter (\<lambda>x. key x \<notin> set ids) xs \<and> distinct (map key (U @ filter (\<lambda>x. key x \<in> set ids) xs @ V))"
proof -
  let ?n = "\<lambda>x. key x \<notin> set ids"
  let ?U = "takeWhile ?n xs" and ?V = "filter ?n (dropWhile ?n xs)"
  have "filter ?n (takeWhile ?n xs) = takeWhile ?n xs" by (auto simp: filter_id_conv dest: set_takeWhileD)
  then have UV: "?U @ ?V = filter ?n xs" by (metis filter_append takeWhile_dropWhile_id)
  have "mset (?U @ filter (\<lambda>x. key x \<in> set ids) xs @ ?V) = mset (filter (\<lambda>x. key x \<in> set ids) xs) + mset (?U @ ?V)" by simp
  also have "\<dots> = mset xs" unfolding UV by (induction xs) simp_all
  finally have "distinct (map key (?U @ filter (\<lambda>x. key x \<in> set ids) xs @ ?V))"
    using distinct_keys_mset [of _ xs key] assms by metis
  then show ?thesis using UV align_groups_eq [of "\<lambda>x. key x \<in> set ids" xs] by (intro exI [of _ ?U] exI [of _ ?V]) simp
qed

text \<open>The entries before and after the place the selected ones go to.\<close>

definition drop_place :: "('a \<Rightarrow> int) \<Rightarrow> int list \<Rightarrow> bool \<Rightarrow> int \<Rightarrow> 'a list \<Rightarrow> 'a list \<times> 'a list" where
  "drop_place key ids before target xs =
     (let P = takeWhile (\<lambda>x. key x \<noteq> target) xs; Q = dropWhile (\<lambda>x. key x \<noteq> target) xs;
          others = filter (\<lambda>x. key x \<notin> set ids)
      in if target \<in> set ids \<or> before then (others P, others Q)
         else (others P @ [hd Q], others (tl Q)))"

text \<open>C8: Moving the selected downloads before or after another one puts them together, in their order, at
  that place between the downloads that are not selected; a target that is itself selected stands for the
  next download that is not.\<close>

theorem move_groups_to_correct:
  assumes dist: "distinct (map key xs)" and small: "length xs \<le> 1000000000"
    and sel: "filter (\<lambda>x. key x \<in> set ids) xs \<noteq> []" and args: "args \<noteq> []" "atoi_c args \<in> key ` set xs"
    and place: "drop_place key ids before (atoi_c args) xs = (P, Q)"
  shows "fst (move_groups_to key ids before args xs) = P @ filter (\<lambda>x. key x \<in> set ids) xs @ Q"
proof -
  let ?s = "\<lambda>x. key x \<in> set ids" and ?n = "\<lambda>x. key x \<notin> set ids" and ?t = "atoi_c args"
  let ?S = "filter ?s xs"
  obtain U V where al: "align_groups ?s xs = U @ ?S @ V" and UV: "U @ V = filter ?n xs"
    and d: "distinct (map key (U @ ?S @ V))" using aligned_split [OF dist] by blast
  have n: "\<forall>x\<in>set (U @ V). key x \<notin> set ids" "\<forall>x\<in>set ?S. key x \<in> set ids" unfolding UV by simp_all
  note to = move_to_aligned [OF d n sel]
  obtain T where T: "T \<in> set xs" "key T = ?t" using args(2) by auto
  let ?A = "takeWhile (\<lambda>x. key x \<noteq> ?t) xs" and ?B = "dropWhile (\<lambda>x. key x \<noteq> ?t) xs"
  have "?B \<noteq> []" using T by (auto simp: dropWhile_eq_Nil_conv)
  then obtain B where B: "?B = T # B"
    using T dist hd_dropWhile [of "\<lambda>x. key x \<noteq> ?t" xs]
    by (metis (no_types, lifting) distinct_map inj_onD list.collapse set_dropWhileD list.set_intros(1))
  have xs: "xs = ?A @ T # B" using B by (metis takeWhile_dropWhile_id)
  have us: "filter ?n xs = filter ?n ?A @ filter ?n (T # B)" using xs by (metis filter_append)
  define offset where "offset = (case move_target key ids before ?t xs of None \<Rightarrow> max_id
      | Some (target, before) \<Rightarrow> offset_scan key target (key (hd ?S)) before (int (length ?S)) None (U @ ?S @ V))"
  have run: "fst (move_groups_to key ids before args xs) = fst (edit_move key ids offset (U @ ?S @ V))"
    using sel args(1) by (simp add: move_groups_to_def Let_def al offset_def)
  show ?thesis
  proof (cases "?t \<in> set ids")
    case False
    then have "\<not> list_ex (\<lambda>x. key x = ?t) ?S" by (auto simp: list_ex_iff)
    then have o: "offset = offset_scan key (key T) (key (hd ?S)) before (int (length ?S)) None (U @ ?S @ V)"
      unfolding offset_def move_target_def using T by simp
    have "U @ V = filter ?n ?A @ T # filter ?n B" using us UV False T by simp
    from to [OF this o] show ?thesis
      using place False T run B by (auto simp: drop_place_def Let_def)
  next
    case True
    then have m: "list_ex (\<lambda>x. key x = ?t) ?S" using T by (auto simp: list_ex_iff)
    have PQ: "P = filter ?n ?A" "Q = filter ?n B" using place True T B by (auto simp: drop_place_def Let_def)
    have uv: "U @ V = filter ?n ?A @ filter ?n B" using us UV True T by simp
    show ?thesis
    proof (cases "find ?n B")
      case None
      then have Q: "filter ?n B = []" by (auto simp: find_None_iff filter_empty_conv)
      have "offset = max_id" unfolding offset_def move_target_def using m B None by simp
      moreover have "length V \<le> length xs" using UV by (metis add_leE length_append length_filter_le)
      moreover have "V = [] \<or> 0 < max_id" by (simp add: max_id_def)
      ultimately have "fst (edit_move key ids offset (U @ ?S @ V)) = U @ V @ ?S"
        using block_moved(2) [OF d refl n, of offset] small by (simp add: edit_move_eq [OF d] max_id_def)
      then show ?thesis using run uv PQ Q by simp
    next
      case (Some X)
      then obtain Q1 where X: "filter ?n B = X # Q1" by (induction B) (auto split: if_splits)
      have "offset = offset_scan key (key X) (key (hd ?S)) True (int (length ?S)) None (U @ ?S @ V)"
        unfolding offset_def move_target_def using m B Some by simp
      from to [OF _ this] uv X PQ run show ?thesis by simp
    qed
  qed
qed

section \<open>Setting the order of files\<close>

text \<open>\<open>ReorderFiles\<close>: the files of the list come first, in the order of the list.\<close>

fun reorder_loop :: "('a \<Rightarrow> int) \<Rightarrow> nat \<Rightarrow> int list \<Rightarrow> 'a list \<Rightarrow> 'a list" where
  "reorder_loop key insertPos [] xs = xs"
| "reorder_loop key insertPos (i # ids) xs =
     (let p = position key i xs
      in if p < length xs
         then reorder_loop key (insertPos + 1) ids (insert_at insertPos (xs ! p) (del_nth p xs))
         else reorder_loop key insertPos ids xs)"

lemma reorder_loop_eq:
  assumes "distinct (map key (D @ R))" "distinct ids" "\<forall>x\<in>set D. key x \<notin> set ids"
  shows "reorder_loop key (length D) ids (D @ R) =
    D @ map (\<lambda>i. the (find (\<lambda>x. key x = i) R)) (filter (\<lambda>i. i \<in> key ` set R) ids) @ filter (\<lambda>x. key x \<notin> set ids) R"
  using assms
proof (induction ids arbitrary: D R)
  case Nil
  then show ?case by simp
next
  case (Cons i ids)
  show ?case
  proof (cases "i \<in> key ` set R")
    case False
    then have "i \<notin> key ` set (D @ R)" using Cons.prems(3) by auto
    then have "position key i (D @ R) = length (D @ R)"
      unfolding position_def by (subst takeWhile_eq_all_conv [THEN iffD2]) auto
    moreover have "filter (\<lambda>x. key x \<notin> insert i (set ids)) R = filter (\<lambda>x. key x \<notin> set ids) R"
      using False by (intro filter_cong) auto
    ultimately show ?thesis using Cons False by simp
  next
    case True
    then obtain A x B where R: "R = A @ x # B" "key x = i" by (auto dest!: split_list)
    have apart: "\<forall>y\<in>set (A @ B). key y \<noteq> i" "\<forall>y\<in>set D. key y \<noteq> i"
    proof -
      have "key x \<notin> key ` set (A @ B @ D)" using Cons.prems(1) R by auto
      from keys_apart [OF this this] R(2) show "\<forall>y\<in>set (A @ B). key y \<noteq> i" "\<forall>y\<in>set D. key y \<noteq> i" by auto
    qed
    have pos: "position key i (D @ R) = length (D @ A)"
      using R apart by (simp add: position_def takeWhile_append2)
    have find: "find (\<lambda>y. key y = i) R = Some x"
    proof -
      have "find (\<lambda>y. key y = i) A = None" using apart by (simp add: find_None_iff)
      then show ?thesis using R by (simp add: find_append)
    qed
    have same: "find (\<lambda>y. key y = j) R = find (\<lambda>y. key y = j) (A @ B)" if "j \<in> set ids" for j
      using R that Cons.prems(2) by (auto simp: find_append split: option.split)
    have "reorder_loop key (length D) (i # ids) (D @ R) = reorder_loop key (length (D @ [x])) ids ((D @ [x]) @ (A @ B))"
      using pos R by (simp add: Let_def insert_at_def del_nth_def nth_append)
    also have "\<dots> = (D @ [x]) @ map (\<lambda>j. the (find (\<lambda>y. key y = j) (A @ B))) (filter (\<lambda>j. j \<in> key ` set (A @ B)) ids) @
        filter (\<lambda>y. key y \<notin> set ids) (A @ B)"
      by (rule Cons.IH) (use Cons.prems R in auto)
    also have "filter (\<lambda>j. j \<in> key ` set (A @ B)) ids = filter (\<lambda>j. j \<in> key ` set R) ids"
      using R Cons.prems(2) by (intro filter_cong) auto
    also have "map (\<lambda>j. the (find (\<lambda>y. key y = j) (A @ B))) (filter (\<lambda>j. j \<in> key ` set R) ids) =
        map (\<lambda>j. the (find (\<lambda>y. key y = j) R)) (filter (\<lambda>j. j \<in> key ` set R) ids)"
      using same by (intro map_cong) auto
    also have "filter (\<lambda>y. key y \<notin> set ids) (A @ B) = filter (\<lambda>y. key y \<notin> set (i # ids)) R"
    proof -
      have "filter (\<lambda>y. key y \<notin> set (i # ids)) (A @ B) = filter (\<lambda>y. key y \<notin> set ids) (A @ B)"
        using apart by (intro filter_cong) auto
      then show ?thesis using R by simp
    qed
    finally show ?thesis using True find by simp
  qed
qed

text \<open>Setting the order of files puts the files of the list first, in its order, and keeps the
  others behind them in their order.\<close>

theorem reorder_files_correct:
  assumes "distinct (map key xs)" "distinct ids"
  shows "reorder_loop key 0 ids xs =
    map (\<lambda>i. the (find (\<lambda>x. key x = i) xs)) (filter (\<lambda>i. i \<in> key ` set xs) ids) @ filter (\<lambda>x. key x \<notin> set ids) xs"
  using reorder_loop_eq [of key "[]" xs ids] assms by simp

section \<open>The actions on the files of the queue\<close>

text \<open>\<open>PrepareList\<close> for the file actions collects the files of all downloads before the first one moves.\<close>

definition prepare_file_moves :: "int list \<Rightarrow> int \<Rightarrow> queue \<Rightarrow> (nat \<times> int \<times> int) list" where
  "prepare_file_moves ids offset q =
     concat (map (\<lambda>i. map (Pair i) (plan_moves fi_id ids (offset < 0) offset (nz_fileList (q ! i)))) [0..<length q])"

definition move_entry :: "queue \<Rightarrow> nat \<times> int \<times> int \<Rightarrow> queue" where
  "move_entry q item =
     (case item of (i, fid, w) \<Rightarrow>
        put_nzb q i (set_file_list (move_item (position fi_id fid (nz_fileList (q ! i))) w (nz_fileList (q ! i))) (q ! i)))"

definition edit_file_moves :: "int list \<Rightarrow> int \<Rightarrow> queue \<Rightarrow> queue" where
  "edit_file_moves ids offset q = foldl move_entry q (prepare_file_moves ids offset q)"

lemma set_file_list_twice [simp]: "set_file_list fs (set_file_list fs' nz) = set_file_list fs nz"
  "set_file_list (nz_fileList nz) nz = nz"
  by (simp_all add: set_file_list_def)

lemma move_entries_of_one:
  assumes "i < length q"
  shows "foldl move_entry q (map (Pair i) items) =
    q[i := set_file_list (run_moves fi_id items (nz_fileList (q ! i))) (q ! i)]"
proof (induction items rule: rev_induct)
  case Nil
  then show ?case by (simp add: run_moves_def)
next
  case (snoc it items)
  then show ?case using assms by (cases it) (simp add: move_entry_def put_nzb_def run_moves_snoc Let_def)
qed

lemma edit_file_moves_eq:
  assumes "offset \<noteq> 0"
  shows "edit_file_moves ids offset q =
    map (\<lambda>nz. set_file_list (move_entries fi_id ids offset (nz_fileList nz)) nz) q"
proof -
  let ?f = "\<lambda>nz. set_file_list (move_entries fi_id ids offset (nz_fileList nz)) nz"
  let ?items = "\<lambda>m. concat (map (\<lambda>i. map (Pair i) (plan_moves fi_id ids (offset < 0) offset (nz_fileList (q ! i)))) [0..<m])"
  have "foldl move_entry q (?items m) = map ?f (take m q) @ drop m q" if "m \<le> length q" for m
    using that
  proof (induction m)
    case (Suc m)
    then have "foldl move_entry q (?items (Suc m)) = foldl move_entry (map ?f (take m q) @ drop m q)
        (map (Pair m) (plan_moves fi_id ids (offset < 0) offset (nz_fileList (q ! m))))" by simp
    also have "\<dots> = (map ?f (take m q) @ drop m q)[m := ?f (q ! m)]"
      using Suc.prems by (subst move_entries_of_one) (simp_all add: nth_append move_entries_def)
    also have "\<dots> = map ?f (take (Suc m) q) @ drop (Suc m) q"
      using Suc.prems by (simp add: list_update_append take_Suc_conv_app_nth flip: Cons_nth_drop_Suc)
    finally show ?case .
  qed simp
  from this [OF le_refl] show ?thesis by (simp add: edit_file_moves_def prepare_file_moves_def)
qed

text \<open>C10: The action on the queue, which takes one file after the other out of a download and inserts it
  again, refines the move on file lists: the files of every download are moved as a list of their
  own, and nothing else of the downloads changes.\<close>

theorem file_moves_refine_list_moves:
  assumes "offset \<noteq> 0"
  shows "map nz_fileList (edit_file_moves ids offset q) = map (move_entries fi_id ids offset) (map nz_fileList q) \<and>
    map (set_file_list []) (edit_file_moves ids offset q) = map (set_file_list []) q"
  by (simp add: edit_file_moves_eq [OF assms] set_file_list_def comp_def)

text \<open>C9: Moving entries by an offset keeps all entries and the order of those that are not selected. Moved
  towards the top, the selected entry number \<open>k\<close> from the top goes up by the offset, or to the
  place \<open>k\<close> when it would be blocked by the entries before it; moving down is the mirror image.\<close>

theorem move_entries_correct:
  assumes "distinct (map key xs)"
  shows "(offset < 0 \<longrightarrow> mset (move_entries key ids offset xs) = mset xs \<and>
      filter (\<lambda>x. key x \<notin> set ids) (move_entries key ids offset xs) = filter (\<lambda>x. key x \<notin> set ids) xs \<and>
      (\<forall>k<length (chosen key ids xs (length xs)).
         move_entries key ids offset xs ! nat (max (int k) (int (chosen key ids xs (length xs) ! k) + offset)) =
           xs ! (chosen key ids xs (length xs) ! k))) \<and>
    (0 < offset \<longrightarrow> move_entries key ids offset xs = rev (move_entries key ids (- offset) (rev xs)))"
  using move_entries_up [OF assms, of offset, where ids = ids] move_entries_down [OF assms, of offset ids]
  by (auto simp: dest_up_def)

section \<open>Examples\<close>

lemmas move_evaluation = move_entries_def plan_moves_def run_moves_def plan_step_def plan_offset_def position_def
  move_item_def insert_at_def del_nth_def Let_def upt_rec chosen_def

theorem move_entries_correct_witness:
  "move_entries id [2, 4] (-1) [1, 2, 3, 4] = [2, 1, 4, 3 :: int] \<and>
   filter (\<lambda>x. x \<notin> {2, 4}) (move_entries id [2, 4] (-1) [1, 2, 3, 4]) = [1, 3 :: int]"
proof -
  have "move_entries id [2, 4] (-1) [1, 2, 3, 4] = [2, 1, 4, 3 :: int]" by (simp add: move_evaluation)
  moreover have "filter (\<lambda>x. id x \<notin> set [2, 4]) (move_entries id [2, 4] (-1) [1, 2, 3, 4]) = [1, 3 :: int]"
    using move_entries_correct [of id "[1, 2, 3, 4 :: int]" "-1" "[2, 4]"] by simp
  ultimately show ?thesis by simp
qed

theorem move_groups_to_correct_witness:
  "fst (move_groups_to id [2, 4] True ''5'' [1, 2, 3, 4, 5, 6]) = [1, 3, 2, 4, 5, 6 :: int]"
proof -
  have "atoi_c ''5'' = 5" by (simp add: atoi_c_def is_space_def is_digit_def byte_def digits_val_def digit_val_def)
  then show ?thesis
    using move_groups_to_correct [of id "[1, 2, 3, 4, 5, 6 :: int]" "[2, 4]" "''5''" True "[1, 3]" "[5, 6]"]
    by (simp add: drop_place_def Let_def)
qed

theorem file_moves_refine_list_moves_witness:
  "\<exists>a b. a \<noteq> b \<and> map nz_fileList (edit_file_moves [2] (-1) [nzb_init\<lparr>nz_fileList := [a, b]\<rparr>]) = [[b, a]]"
proof -
  let ?a = "file_init\<lparr>fi_id := 1\<rparr>" and ?b = "file_init\<lparr>fi_id := 2\<rparr>"
  have "move_entries fi_id [2] (-1) [?a, ?b] = [?b, ?a]" by (simp add: move_evaluation file_init_def)
  then have "map nz_fileList (edit_file_moves [2] (-1) [nzb_init\<lparr>nz_fileList := [?a, ?b]\<rparr>]) = [[?b, ?a]]"
    using file_moves_refine_list_moves [of "-1" "[2]" "[nzb_init\<lparr>nz_fileList := [?a, ?b]\<rparr>]"] by simp
  moreover have "?a \<noteq> ?b" by (simp add: file_init_def)
  ultimately show ?thesis by (intro exI [of _ ?a] exI [of _ ?b] conjI)
qed

theorem reorder_files_correct_witness: "reorder_loop id 0 [3, 9, 1] [1, 2, 3] = [3, 1, 2 :: int]"
  using reorder_files_correct [of id "[1, 2, 3 :: int]" "[3, 9, 1]"] by simp

end
