(* ===== verification/ParNames.thy ===== *)
theory ParNames
  imports Prelude
begin

text \<open>
  The names of par2 files (\<open>daemon/postprocess/ParParser.cpp\<close>): base name and number of recovery
  blocks, and whether two names belong to the same collection.
\<close>

section \<open>Parsing\<close>

text \<open>\<open>strncasecmp(s, t, n) == 0\<close>, and the copy of a name into a \<open>BString<1024>\<close> in lower case.\<close>

definition strncase_eq :: "cstring \<Rightarrow> cstring \<Rightarrow> nat \<Rightarrow> bool" where
  "strncase_eq s t n \<longleftrightarrow> map to_lower (take n s) = map to_lower (take n t)"

definition lower_copy :: "cstring \<Rightarrow> cstring" where
  "lower_copy s = map to_lower (take 1023 s)"

text \<open>The string up to the end of the last occurrence of the extension, empty without one.\<close>

function trim_par2 :: "cstring \<Rightarrow> cstring" where
  "trim_par2 s =
     (case strstr s ''.par2'' of
        None \<Rightarrow> []
      | Some p \<Rightarrow> take (length s - length p) s @ take 5 p @ trim_par2 (drop 5 p))"
  by pat_completeness auto
termination
proof (relation "measure length")
  show "wf (measure (length :: cstring \<Rightarrow> nat))" by simp
  fix s p assume "strstr s ''.par2'' = Some p"
  then obtain u where "s = u @ p" "starts_with ''.par2'' p" using strstr_SomeD by blast
  then have "length p \<ge> 5" by (auto simp: starts_with_def dest: arg_cong [of _ _ length])
  with \<open>s = u @ p\<close> show "(drop 5 p, s) \<in> measure length" by simp
qed

declare trim_par2.simps [simp del]

definition parse_par_filename :: "bool \<Rightarrow> cstring \<Rightarrow> (nat \<times> int) option" where
  "parse_par_filename confirmed parFilename =
     (let filename = lower_copy parFilename
      in if length filename < 6 then None
         else let filename = (if confirmed then filename else trim_par2 filename); len = length filename
              in if len < 6 \<or> \<not> strcase_eq (drop (len - 5) filename) ''.par2'' then None
                 else let filename = take (len - 5) filename
                      in case last_pos (CHR ''.'') filename of
                           None \<Rightarrow> Some (length filename, 0)
                         | Some k \<Rightarrow>
                             let p = drop k filename
                             in if strncase_eq p ''.vol'' 4
                                then (case (case strchr p (CHR ''+'') of Some b \<Rightarrow> Some b
                                            | None \<Rightarrow> strchr p (CHR ''-'')) of
                                        Some b \<Rightarrow> Some (k, atoi_c (tl b))
                                      | None \<Rightarrow> Some (length filename, 0))
                                else Some (length filename, 0))"

definition same_par_collection :: "cstring \<Rightarrow> cstring \<Rightarrow> bool \<Rightarrow> bool" where
  "same_par_collection filename1 filename2 confirmed =
     (case (parse_par_filename confirmed filename1, parse_par_filename confirmed filename2) of
        (Some (baseLen1, _), Some (baseLen2, _)) \<Rightarrow>
          baseLen1 = baseLen2 \<and> strncase_eq filename1 filename2 baseLen1
      | _ \<Rightarrow> False)"

text \<open>\<open>FindMainPars\<close>, for the names found in the directory.\<close>

definition add_main_par :: "cstring list \<Rightarrow> cstring \<Rightarrow> cstring list" where
  "add_main_par fileList filename =
     (if parse_par_filename True filename \<noteq> None \<and>
         \<not> list_ex (\<lambda>filename2. same_par_collection filename filename2 True) fileList
      then fileList @ [filename] else fileList)"

definition find_main_pars :: "cstring list \<Rightarrow> cstring list" where
  "find_main_pars dir = foldl add_main_par [] dir"

section \<open>What the parser reads\<close>

lemma last_pos_append:
  "c \<notin> set t \<Longrightarrow> last_pos c (s @ c # t) = Some (length s)"
proof -
  assume "c \<notin> set t"
  then have "dropWhile (\<lambda>d. d \<noteq> c) (rev t @ c # rev s) = c # rev s"
    by (subst dropWhile_append2) auto
  then show ?thesis by (simp add: last_pos_def)
qed

lemma strchr_append:
  "c \<notin> set s \<Longrightarrow> strchr (s @ c # t) c = Some (c # t)"
proof -
  assume "c \<notin> set s"
  then have "dropWhile (\<lambda>d. d \<noteq> c) (s @ c # t) = c # t" by (subst dropWhile_append2) auto
  then show ?thesis by (simp add: strchr_def)
qed

lemma to_lower_simps:
  "is_digit c \<Longrightarrow> to_lower c = c"
  by (auto simp: to_lower_def is_upper_def is_digit_def)

lemma to_dec_lower [simp]: "map to_lower (to_dec n) = to_dec n"
  by (rule map_idI) (metis to_dec_digits to_lower_simps)


lemma par_volume_read_back_eval: "parse_par_filename True ''abc.vol3+4.PAR2'' \<noteq> None"
  by code_simp


section \<open>Collections\<close>

lemma same_par_collection_iff:
  "same_par_collection a b c \<longleftrightarrow> (\<exists>l m n. parse_par_filename c a = Some (l, m) \<and> parse_par_filename c b = Some (l, n) \<and>
     strncase_eq a b l)"
  by (auto simp: same_par_collection_def split: option.splits)

lemma same_par_collection_refl: "parse_par_filename c a \<noteq> None \<Longrightarrow> same_par_collection a a c"
  by (auto simp: same_par_collection_iff strncase_eq_def)

lemma same_par_collection_sym: "same_par_collection a b c \<Longrightarrow> same_par_collection b a c"
  by (auto simp: same_par_collection_iff strncase_eq_def)

lemma same_par_collection_trans: "same_par_collection a b c \<Longrightarrow> same_par_collection b d c \<Longrightarrow> same_par_collection a d c"
  by (auto simp: same_par_collection_iff strncase_eq_def)

text \<open>The search for main par-files finds one name of each collection of the directory: every par2 name
  belongs to the collection of a name found, and two names found belong to different collections.\<close>

theorem main_pars_one_per_collection:
  "set (find_main_pars dir) \<subseteq> set dir \<and>
   (\<forall>a\<in>set dir. parse_par_filename True a \<noteq> None \<longrightarrow> (\<exists>b\<in>set (find_main_pars dir). same_par_collection a b True)) \<and>
   sorted_wrt (\<lambda>a b. \<not> same_par_collection a b True) (find_main_pars dir)"
proof -
  have step: "find_main_pars (dir @ [a]) = add_main_par (find_main_pars dir) a" for dir a
    by (simp add: find_main_pars_def)
  show ?thesis
  proof (induction dir rule: rev_induct)
    case Nil
    then show ?case by (simp add: find_main_pars_def)
  next
    case (snoc a dir)
    then show ?case
      using same_par_collection_refl [of True a] same_par_collection_sym
      by (auto simp: step add_main_par_def list_ex_iff sorted_wrt_append)
  qed
qed

theorem main_pars_one_per_collection_witness:
  "\<exists>b\<in>set (find_main_pars [''abc.vol3+4.PAR2'']). same_par_collection ''abc.vol3+4.PAR2'' b True"
  using main_pars_one_per_collection [of "[''abc.vol3+4.PAR2'']"] par_volume_read_back_eval by simp

end
