(* ===== verification/QueueEdit.thy ===== *)
theory QueueEdit
  imports QueueMoves ParNames
begin

text \<open>
  More edit actions of the queue (\<open>daemon/queue/QueueEditor.cpp\<close>): pausing the par-files that are
  only needed for repair, the orders downloads and files are sorted by, and the settings of a
  download.
\<close>

section \<open>Pausing par-files\<close>

definition is_vol :: "file_info \<Rightarrow> bool" where
  "is_vol fi \<longleftrightarrow> strstr (lower_copy (fi_filename fi)) ''.vol'' \<noteq> None"

text \<open>The loop over the volumes when there is no plain par-file: all but the smallest are paused.\<close>

definition smallest_step :: "nzb_info \<times> nat option \<Rightarrow> nat \<Rightarrow> nzb_info \<times> nat option" where
  "smallest_step acc j =
     (case acc of
        (nz, None) \<Rightarrow> (nz, Some j)
      | (nz, Some k) \<Rightarrow>
          if fi_size (nz_fileList nz ! k) > fi_size (nz_fileList nz ! j)
          then (nz_file_set_paused True k nz, Some j)
          else (nz_file_set_paused True j nz, Some k))"

definition pause_all :: "nat list \<Rightarrow> nzb_info \<Rightarrow> nzb_info" where
  "pause_all js nz = foldl (\<lambda>nz j. nz_file_set_paused True j nz) nz js"

definition pause_pars :: "bool \<Rightarrow> nat list \<Rightarrow> nzb_info \<Rightarrow> nzb_info" where
  "pause_pars extraParsOnly js nz =
     (let par = (\<lambda>j. fi_parFile (nz_fileList nz ! j)); vol = (\<lambda>j. is_vol (nz_fileList nz ! j));
          pars = filter (\<lambda>j. par j \<and> \<not> vol j) js; vols = filter (\<lambda>j. par j \<and> vol j) js
      in if \<not> extraParsOnly then pause_all (filter par js) nz
         else if pars \<noteq> [] then pause_all vols nz
         else fst (foldl smallest_step (nz, None) vols))"

text \<open>\<open>PauseParsInGroups\<close>: the selected files, download by download.\<close>

function pause_pars_in_groups :: "bool \<Rightarrow> file_ref list \<Rightarrow> queue \<Rightarrow> queue" where
  "pause_pars_in_groups extraParsOnly [] q = q"
| "pause_pars_in_groups extraParsOnly (r # rs) q =
     pause_pars_in_groups extraParsOnly (filter (\<lambda>r1. fst r1 \<noteq> fst r) rs)
       (put_nzb q (fst r) (pause_pars extraParsOnly
          (map snd (filter (\<lambda>r1. fst r1 = fst r) (r # rs))) (nzb_at q r)))"
  by pat_completeness auto
termination
  by (relation "measure (\<lambda>(_, rs, _). length rs)") (auto simp: less_Suc_eq_le)

definition paused_flags :: "nzb_info \<Rightarrow> bool list" where
  "paused_flags nz = map fi_paused (nz_fileList nz)"

lemma file_set_paused_files:
  assumes "j < length (nz_fileList nz)"
  shows "nz_fileList (nz_file_set_paused b j nz) = (nz_fileList nz)[j := (nz_fileList nz ! j)\<lparr>fi_paused := b\<rparr>]"
  using assms by (auto simp: nz_file_set_paused_def file_set_paused_def list_update_same_conv split: if_splits)

lemma pause_flags:
  assumes "j < length (nz_fileList nz)"
  shows "paused_flags (nz_file_set_paused True j nz) = (paused_flags nz)[j := True]"
    "map fi_size (nz_fileList (nz_file_set_paused True j nz)) = map fi_size (nz_fileList nz)"
    "length (nz_fileList (nz_file_set_paused True j nz)) = length (nz_fileList nz)"
proof -
  show "map fi_size (nz_fileList (nz_file_set_paused True j nz)) = map fi_size (nz_fileList nz)"
    using assms by (simp add: file_set_paused_files map_update) (metis list_update_id nth_map)
qed (simp_all add: file_set_paused_files assms paused_flags_def map_update)

lemma pause_all_flags:
  assumes "set js \<subseteq> {..<length (nz_fileList nz)}" "i < length (nz_fileList nz)"
  shows "paused_flags (pause_all js nz) ! i = (paused_flags nz ! i \<or> i \<in> set js)"
    "length (nz_fileList (pause_all js nz)) = length (nz_fileList nz)"
proof -
  have "paused_flags (pause_all js nz) ! i = (paused_flags nz ! i \<or> i \<in> set js) \<and>
     length (nz_fileList (pause_all js nz)) = length (nz_fileList nz)"
    using assms
  proof (induction js arbitrary: nz)
    case (Cons j js)
    have j: "j < length (nz_fileList nz)" using Cons.prems by simp
    have "length (paused_flags nz) = length (nz_fileList nz)" by (simp add: paused_flags_def)
    then show ?case
      using Cons.IH [of "nz_file_set_paused True j nz"] Cons.prems pause_flags [OF j]
      by (auto simp: pause_all_def nth_list_update)
  qed (simp add: pause_all_def)
  then show "paused_flags (pause_all js nz) ! i = (paused_flags nz ! i \<or> i \<in> set js)"
    "length (nz_fileList (pause_all js nz)) = length (nz_fileList nz)" by simp_all
qed

lemma smallest_loop:
  assumes "set (k # js) \<subseteq> {..<length (nz_fileList nz)}" "distinct (k # js)"
    and "foldl smallest_step (nz, Some k) js = (nz', res)"
  shows "\<exists>m\<in>set (k # js). res = Some m \<and> length (nz_fileList nz') = length (nz_fileList nz) \<and>
    map fi_size (nz_fileList nz') = map fi_size (nz_fileList nz) \<and>
    (\<forall>j\<in>set (k # js). fi_size (nz_fileList nz ! m) \<le> fi_size (nz_fileList nz ! j)) \<and>
    (\<forall>i<length (nz_fileList nz). paused_flags nz' ! i = (paused_flags nz ! i \<or> i \<in> set (k # js) \<and> i \<noteq> m))"
  using assms
proof (induction js arbitrary: k nz)
  case Nil
  then show ?case by auto
next
  case (Cons j js)
  define p where "p = (if fi_size (nz_fileList nz ! k) > fi_size (nz_fileList nz ! j) then k else j)"
  define l where "l = (if fi_size (nz_fileList nz ! k) > fi_size (nz_fileList nz ! j) then j else k)"
  let ?nz = "nz_file_set_paused True p nz"
  have p: "p < length (nz_fileList nz)" "l < length (nz_fileList nz)" "{p, l} = {k, j}" "p \<noteq> l"
    using Cons.prems by (auto simp: p_def l_def)
  have step: "smallest_step (nz, Some k) j = (?nz, Some l)" by (simp add: smallest_step_def p_def l_def)
  note flags = pause_flags [OF p(1)]
  have size: "fi_size (nz_fileList ?nz ! i) = fi_size (nz_fileList nz ! i)" if "i < length (nz_fileList nz)" for i
    using flags(2,3) that by (metis nth_map)
  have "set (l # js) \<subseteq> {..<length (nz_fileList ?nz)}" "distinct (l # js)" "foldl smallest_step (?nz, Some l) js = (nz', res)"
    using Cons.prems p flags(3) step by (auto simp: l_def)
  from Cons.IH [OF this] obtain m where m: "m \<in> set (l # js)" "res = Some m"
    "length (nz_fileList nz') = length (nz_fileList nz)" "map fi_size (nz_fileList nz') = map fi_size (nz_fileList nz)"
    "\<And>i. i \<in> set (l # js) \<Longrightarrow> fi_size (nz_fileList ?nz ! m) \<le> fi_size (nz_fileList ?nz ! i)"
    "\<And>i. i < length (nz_fileList nz) \<Longrightarrow> paused_flags nz' ! i = (paused_flags ?nz ! i \<or> i \<in> set (l # js) \<and> i \<noteq> m)"
    using flags(2,3) by auto
  have in_range: "i < length (nz_fileList nz)" if "i \<in> set (k # j # js)" for i using Cons.prems(1) that by auto
  have mem: "set (k # j # js) = insert p (set (l # js))" using p(3) by auto
  have "fi_size (nz_fileList nz ! l) \<le> fi_size (nz_fileList nz ! p)" by (auto simp: p_def l_def)
  then have le: "fi_size (nz_fileList nz ! m) \<le> fi_size (nz_fileList nz ! i)" if "i \<in> set (k # j # js)" for i
    using m(5) [of l] m(5) [of i] size in_range that m(1) mem p by (metis insert_iff order_trans list.set_intros(1))
  have "p \<notin> set (l # js)" using Cons.prems(2) p by (auto simp: p_def l_def split: if_splits)
  then have fl: "paused_flags nz' ! i = (paused_flags nz ! i \<or> i \<in> set (k # j # js) \<and> i \<noteq> m)"
    if "i < length (nz_fileList nz)" for i
    using m(1) m(6) [OF that] flags(1) p(1) that mem by (auto simp: paused_flags_def nth_list_update)
  show ?case using m(1-4) le fl mem by (intro bexI [of _ m]) auto
qed

text \<open>C12: Pausing the extra par-files: without a plain par-file among the files, all volumes are paused but
  one of the smallest, whose state stays; the other files are not touched.\<close>

theorem extra_pars_paused_but_smallest:
  assumes "set js \<subseteq> {..<length (nz_fileList nz)}" "distinct js"
    and "\<forall>j\<in>set js. fi_parFile (nz_fileList nz ! j) \<longrightarrow> is_vol (nz_fileList nz ! j)"
    and "v \<in> set js" "fi_parFile (nz_fileList nz ! v)"
  shows "\<exists>m\<in>set js. fi_parFile (nz_fileList nz ! m) \<and>
    (\<forall>j\<in>set js. fi_parFile (nz_fileList nz ! j) \<longrightarrow> fi_size (nz_fileList nz ! m) \<le> fi_size (nz_fileList nz ! j)) \<and>
    (\<forall>i<length (nz_fileList nz). paused_flags (pause_pars True js nz) ! i =
       (paused_flags nz ! i \<or> i \<in> set js \<and> fi_parFile (nz_fileList nz ! i) \<and> i \<noteq> m))"
proof -
  let ?vols = "filter (\<lambda>j. fi_parFile (nz_fileList nz ! j) \<and> is_vol (nz_fileList nz ! j)) js"
  have vols: "set ?vols = {j \<in> set js. fi_parFile (nz_fileList nz ! j)}" using assms(3) by auto
  obtain k ks where ks: "?vols = k # ks" using assms(3-5) by (cases ?vols) (auto simp: filter_empty_conv)
  obtain nz' res where r: "foldl smallest_step (nz, Some k) ks = (nz', res)" by fastforce
  have "filter (\<lambda>j. fi_parFile (nz_fileList nz ! j) \<and> \<not> is_vol (nz_fileList nz ! j)) js = []"
    using assms(3) by (auto simp: filter_empty_conv)
  then have run: "pause_pars True js nz = nz'" using ks r by (simp add: pause_pars_def Let_def smallest_step_def)
  have "set (k # ks) \<subseteq> {..<length (nz_fileList nz)}" "distinct (k # ks)"
    using assms(1,2) unfolding ks [symmetric] by auto
  from smallest_loop [OF this r] obtain m where m: "m \<in> set ?vols"
    "\<forall>j\<in>set ?vols. fi_size (nz_fileList nz ! m) \<le> fi_size (nz_fileList nz ! j)"
    "\<forall>i<length (nz_fileList nz). paused_flags nz' ! i = (paused_flags nz ! i \<or> i \<in> set ?vols \<and> i \<noteq> m)"
    unfolding ks [symmetric] by blast
  show ?thesis using m unfolding vols run by (intro bexI [of _ m]) auto
qed

section \<open>Orders\<close>

fun strcmp_less :: "cstring \<Rightarrow> cstring \<Rightarrow> bool" where
  "strcmp_less s [] = False"
| "strcmp_less [] (d # t) = True"
| "strcmp_less (c # s) (d # t) = (byte c < byte d \<or> c = d \<and> strcmp_less s t)"

text \<open>What the sorting routines of the standard library ask of a comparison: a strict weak order.\<close>

locale comparison =
  fixes before :: "'a \<Rightarrow> 'a \<Rightarrow> bool"
  assumes before_irrefl: "\<not> before a a"
    and before_trans: "before a b \<Longrightarrow> before b c \<Longrightarrow> before a c"
    and before_split: "before a c \<Longrightarrow> before a b \<or> before b c"
begin

lemma before_asym: "before a b \<Longrightarrow> \<not> before b a"
  using before_irrefl before_trans by blast

lemma tie_trans: "\<not> before a b \<and> \<not> before b a \<Longrightarrow> \<not> before b c \<and> \<not> before c b \<Longrightarrow> \<not> before a c \<and> \<not> before c a"
  using before_split by blast

lemma no_cycle: "before a b \<Longrightarrow> before b c \<Longrightarrow> \<not> before c a"
  using before_asym before_trans by blast

lemma swapped: "comparison (\<lambda>a b. before b a)"
  by unfold_locales (use before_irrefl before_trans before_split in blast)+

end

lemma strcmp_less_comparison: "comparison strcmp_less"
proof
  show "\<not> strcmp_less a a" for a by (induction a) auto
  show "strcmp_less a c" if "strcmp_less a b" "strcmp_less b c" for a b c
    using that
  proof (induction a b arbitrary: c rule: strcmp_less.induct)
    case (3 x s y t)
    then show ?case by (cases c) auto
  qed (case_tac c; auto)+
  show "strcmp_less a b \<or> strcmp_less b c" if "strcmp_less a c" for a b c
    using that
  proof (induction a c arbitrary: b rule: strcmp_less.induct)
    case (2 d t)
    then show ?case by (cases b) auto
  next
    case (3 x s y t)
    show ?case
    proof (cases b)
      case (Cons z u)
      show ?thesis
      proof (cases "byte x < byte z \<or> byte z < byte y")
        case False
        then have "byte z = byte x" "byte y = byte z" using 3 by auto
        then have "x = y" "z = y" by (metis byte_inject)+
        then show ?thesis using 3 Cons by simp
      qed (use Cons in auto)
    qed simp
  qed simp
qed

lemma comparison_key:
  assumes "comparison before" "\<And>a b. cmp a b \<longleftrightarrow> before (key a) (key b)"
  shows "comparison cmp"
  using assms(1) unfolding comparison_def assms(2) by blast

lemma int_less_comparison: "comparison ((<) :: int \<Rightarrow> int \<Rightarrow> bool)"
  by unfold_locales auto

subsection \<open>Downloads\<close>

datatype sort_criteria = scName | scSize | scRemainingSize | scAge | scCategory | scPriority
datatype sort_order = soAscending | soDescending | soAuto

definition sort_word :: "cstring \<Rightarrow> cstring \<Rightarrow> bool" where
  "sort_word word how \<longleftrightarrow> strcase_eq how word \<or> strcase_eq how (word @ ''+'') \<or> strcase_eq how (word @ ''-'')"

definition parse_sort :: "cstring \<Rightarrow> (sort_criteria \<times> sort_order) option" where
  "parse_sort how =
     map_option (\<lambda>c. (c, if last how = CHR ''+'' then soAscending else if last how = CHR ''-'' then soDescending else soAuto))
       (if sort_word ''name'' how then Some scName
        else if sort_word ''size'' how then Some scSize
        else if sort_word ''left'' how then Some scRemainingSize
        else if sort_word ''age'' how then Some scAge
        else if sort_word ''category'' how then Some scCategory
        else if sort_word ''priority'' how then Some scPriority
        else None)"

definition nzb_name :: "nzb_info \<Rightarrow> cstring" where
  "nzb_name nz = (case nz_name nz of Some name \<Rightarrow> name | None \<Rightarrow> [])"

fun criteria_less :: "sort_criteria \<Rightarrow> nzb_info \<Rightarrow> nzb_info \<Rightarrow> bool" where
  "criteria_less scName nz1 nz2 = strcmp_less (nzb_name nz1) (nzb_name nz2)"
| "criteria_less scSize nz1 nz2 = (nz_size nz1 < nz_size nz2)"
| "criteria_less scRemainingSize nz1 nz2 =
     (nz_remainingSize nz1 - nz_pausedSize nz1 < nz_remainingSize nz2 - nz_pausedSize nz2)"
| "criteria_less scAge nz1 nz2 = (nz_minTime nz1 > nz_minTime nz2)"
| "criteria_less scCategory nz1 nz2 = strcmp_less (nz_category nz1) (nz_category nz2)"
| "criteria_less scPriority nz1 nz2 = (nz_priority nz1 < nz_priority nz2)"

text \<open>\<open>GroupSorter::operator()\<close>; without ids all downloads are sorted.\<close>

definition group_less :: "int list \<Rightarrow> sort_criteria \<Rightarrow> sort_order \<Rightarrow> nzb_info \<Rightarrow> nzb_info \<Rightarrow> bool" where
  "group_less ids criteria order nz1 nz2 =
     (let sorted = (\<lambda>nz. ids = [] \<or> nz_id nz \<in> set ids)
      in if \<not> sorted nz1 \<or> \<not> sorted nz2 then False
         else if order = soDescending then criteria_less criteria nz2 nz1
         else criteria_less criteria nz1 nz2)"

text \<open>\<open>GroupSorter::Execute\<close> and \<open>SortGroups\<close>, with \<open>std::stable_sort\<close> as a parameter.\<close>

type_synonym 'a sorter = "('a \<Rightarrow> 'a \<Rightarrow> bool) \<Rightarrow> 'a list \<Rightarrow> 'a list"

definition execute_sort :: "nzb_info sorter \<Rightarrow> int list \<Rightarrow> cstring \<Rightarrow> queue \<Rightarrow> queue \<times> bool" where
  "execute_sort stable_sort ids how q =
     (case parse_sort how of
        None \<Rightarrow> (q, False)
      | Some (criteria, origOrder) \<Rightarrow>
          let order = (if origOrder = soAuto \<and> criteria = scPriority then soDescending else origOrder);
              q1 = stable_sort (group_less ids criteria order) q
          in if origOrder = soAuto \<and> map nz_id q1 = map nz_id q
             then (stable_sort (group_less ids criteria (if order = soDescending then soAscending else soDescending)) q1, True)
             else (q1, True))"

definition sort_groups :: "nzb_info sorter \<Rightarrow> int list \<Rightarrow> cstring option \<Rightarrow> queue \<Rightarrow> queue \<times> bool" where
  "sort_groups stable_sort ids how q =
     (let ids = id_order nz_id ids q; q = align_groups (\<lambda>nz. nz_id nz \<in> set ids) q
      in case how of None \<Rightarrow> (q, False) | Some how \<Rightarrow> execute_sort stable_sort ids how q)"

lemma criteria_comparison: "comparison (criteria_less c)"
proof (cases c)
  case scName
  show ?thesis by (rule comparison_key [OF strcmp_less_comparison, of _ nzb_name]) (simp add: scName)
next
  case scSize
  show ?thesis by (rule comparison_key [OF int_less_comparison, of _ nz_size]) (simp add: scSize)
next
  case scRemainingSize
  show ?thesis
    by (rule comparison_key [OF int_less_comparison, of _ "\<lambda>nz. nz_remainingSize nz - nz_pausedSize nz"])
       (simp add: scRemainingSize)
next
  case scAge
  show ?thesis
    by (rule comparison_key [OF comparison.swapped [OF int_less_comparison], of _ nz_minTime]) (simp add: scAge)
next
  case scCategory
  show ?thesis by (rule comparison_key [OF strcmp_less_comparison, of _ nz_category]) (simp add: scCategory)
next
  case scPriority
  show ?thesis by (rule comparison_key [OF int_less_comparison, of _ nz_priority]) (simp add: scPriority)
qed

interpretation groups: comparison "group_less [] criteria order" for criteria order
  using criteria_comparison [of criteria] comparison.swapped [OF criteria_comparison [of criteria]]
  by (cases "order = soDescending") (simp_all add: group_less_def comparison_def)

text \<open>The contract of the sorting routine: for a strict weak order it returns the same entries, sorted,
  and keeps the order of entries that compare equal.\<close>

definition stable_sorter :: "'a sorter \<Rightarrow> bool" where
  "stable_sorter srt \<longleftrightarrow> (\<forall>before xs. comparison before \<longrightarrow>
     mset (srt before xs) = mset xs \<and> sorted_wrt (\<lambda>a b. \<not> before b a) (srt before xs) \<and>
     (\<forall>x. filter (\<lambda>y. \<not> before x y \<and> \<not> before y x) (srt before xs) =
           filter (\<lambda>y. \<not> before x y \<and> \<not> before y x) xs))"


text \<open>When only some downloads are selected the comparison is no strict weak order: two downloads that
  compare differently both compare equal to one that is not selected.\<close>

theorem selected_groups_not_ordered:
  "\<exists>ids a b c. group_less ids scSize soAscending a c \<and> \<not> group_less ids scSize soAscending a b \<and>
     \<not> group_less ids scSize soAscending b c \<and> \<not> comparison (group_less ids scSize soAscending)"
proof -
  let ?a = "nzb_init\<lparr>nz_id := 1, nz_size := 1\<rparr>" and ?b = "nzb_init\<lparr>nz_id := 2\<rparr>" and ?c = "nzb_init\<lparr>nz_id := 3, nz_size := 5\<rparr>"
  let ?less = "group_less [1, 3] scSize soAscending"
  have l: "?less ?a ?c" "\<not> ?less ?a ?b" "\<not> ?less ?b ?c" by (simp_all add: group_less_def nzb_init_def)
  then have "\<not> comparison ?less" unfolding comparison_def by blast
  with l show ?thesis by blast
qed

subsection \<open>Files\<close>

definition extension :: "cstring \<Rightarrow> cstring" where
  "extension name = (case last_pos (CHR ''.'') name of Some k \<Rightarrow> drop k name | None \<Rightarrow> [])"

definition rar_part :: "cstring \<Rightarrow> bool" where
  "rar_part ext \<longleftrightarrow> ext ! 1 = CHR ''r'' \<and> is_digit (ext ! 2) \<and> is_digit (ext ! 3)"

text \<open>The comparison of \<open>SortGroupFiles\<close>.\<close>

definition file_before :: "file_info \<Rightarrow> file_info \<Rightarrow> bool" where
  "file_before fi1 fi2 =
     (let n1 = fi_filename fi1; n2 = fi_filename fi2; ext1 = extension n1; ext2 = extension n2;
          sameBaseName = (length n1 = length n2 \<and> length ext1 = 4 \<and> length ext2 = 4 \<and>
            take (length n1 - 4) n1 = take (length n1 - 4) n2)
      in if \<not> fi_parFile fi1 \<and> \<not> fi_parFile fi2 \<and> sameBaseName \<and> ext1 = ''.rar'' \<and> rar_part ext2 then True
         else if \<not> fi_parFile fi1 \<and> \<not> fi_parFile fi2 \<and> sameBaseName \<and> ext2 = ''.rar'' \<and> rar_part ext1 then False
         else if fi_parFile fi1 \<and> fi_parFile fi2 \<and>
                 same_par_collection n1 n2 (fi_filenameConfirmed fi1 \<and> fi_filenameConfirmed fi2)
         then fi_size fi1 < fi_size fi2
         else if \<not> fi_parFile fi1 \<and> fi_parFile fi2 then True
         else if fi_parFile fi1 \<and> \<not> fi_parFile fi2 then False
         else strcmp_less n1 n2)"

definition sort_group_files :: "file_info sorter \<Rightarrow> nzb_info \<Rightarrow> nzb_info" where
  "sort_group_files srt nz = set_file_list (srt file_before (nz_fileList nz)) nz"

text \<open>The comparison of files is no strict weak order: among the volumes \<open>x.rar\<close>, \<open>x.r01\<close> and a file
  \<open>x.rac\<close> each comes before the next and the last before the first.\<close>

theorem file_order_has_cycle:
  "\<exists>a b c. file_before a b \<and> file_before b c \<and> file_before c a"
proof -
  let ?f = "\<lambda>name. file_init\<lparr>fi_filename := name\<rparr>"
  have "file_before (?f ''x.rar'') (?f ''x.r01'')" "file_before (?f ''x.r01'') (?f ''x.rac'')"
    "file_before (?f ''x.rac'') (?f ''x.rar'')"
    by code_simp+
  then show ?thesis by blast
qed

section \<open>Settings\<close>

datatype dupe_setting = eaGroupSetDupeKey | eaGroupSetDupeScore | eaGroupSetDupeMode

definition set_nzb_priority :: "cstring \<Rightarrow> nzb_info \<Rightarrow> nzb_info" where
  "set_nzb_priority priority nz = nz\<lparr>nz_priority := atoi_c priority\<rparr>"

definition set_nzb_parameter :: "cstring \<Rightarrow> nzb_info \<Rightarrow> nzb_info" where
  "set_nzb_parameter str nz =
     (case strchr str (CHR ''='') of
        Some v \<Rightarrow> nz\<lparr>nz_ppParameters := set_parameter (take (length str - length v) str) (tl v) (nz_ppParameters nz)\<rparr>
      | None \<Rightarrow> nz)"

definition set_nzb_dupe_param :: "dupe_setting \<Rightarrow> cstring \<Rightarrow> nzb_info \<Rightarrow> nzb_info" where
  "set_nzb_dupe_param action txt nz =
     (case action of
        eaGroupSetDupeKey \<Rightarrow> nz\<lparr>nz_dupeKey := txt\<rparr>
      | eaGroupSetDupeScore \<Rightarrow> nz\<lparr>nz_dupeScore := atoi_c txt\<rparr>
      | eaGroupSetDupeMode \<Rightarrow>
          if strcase_eq txt ''SCORE'' then nz\<lparr>nz_dupeMode := dmScore\<rparr>
          else if strcase_eq txt ''ALL'' then nz\<lparr>nz_dupeMode := dmAll\<rparr>
          else if strcase_eq txt ''FORCE'' then nz\<lparr>nz_dupeMode := dmForce\<rparr>
          else nz)"

lemma set_nzb_parameter_eq:
  assumes "CHR ''='' \<notin> set name"
  shows "set_nzb_parameter (name @ ''='' @ v) nz =
    nz\<lparr>nz_ppParameters := set_parameter name v (nz_ppParameters nz)\<rparr>"
  using strchr_append [OF assms, of v] by (simp add: set_nzb_parameter_def)

section \<open>Examples\<close>

text \<open>A sorting routine that keeps the contract.\<close>

fun insert_by :: "('a \<Rightarrow> 'a \<Rightarrow> bool) \<Rightarrow> 'a \<Rightarrow> 'a list \<Rightarrow> 'a list" where
  "insert_by before x [] = [x]"
| "insert_by before x (y # ys) = (if before y x then y # insert_by before x ys else x # y # ys)"

definition insertion_sort :: "'a sorter" where
  "insertion_sort before xs = foldr (insert_by before) xs []"

lemma mset_insert_by [simp]: "mset (insert_by before x ys) = mset (x # ys)"
  by (induction ys) simp_all

context comparison
begin

lemma sorted_insert_by:
  "sorted_wrt (\<lambda>a b. \<not> before b a) ys \<Longrightarrow> sorted_wrt (\<lambda>a b. \<not> before b a) (insert_by before x ys)"
proof (induction ys)
  case (Cons y ys)
  have "set (insert_by before x ys) = insert x (set ys)" by (metis mset_insert_by set_mset_mset list.simps(15))
  then show ?case using Cons before_split [of _ x y] before_asym [of y x] by auto
qed simp

lemma filter_insert_by:
  "filter (\<lambda>z. \<not> before r z \<and> \<not> before z r) (insert_by before x ys) = filter (\<lambda>z. \<not> before r z \<and> \<not> before z r) (x # ys)"
proof (induction ys)
  case (Cons y ys)
  have "\<not> before y x" if "\<not> before r y \<and> \<not> before y r" "\<not> before r x \<and> \<not> before x r"
    using tie_trans [of y r x] that by blast
  then show ?case using Cons by auto
qed simp

lemma insertion_sort_contract:
  "mset (insertion_sort before xs) = mset xs" "sorted_wrt (\<lambda>a b. \<not> before b a) (insertion_sort before xs)"
  "filter (\<lambda>z. \<not> before r z \<and> \<not> before z r) (insertion_sort before xs) = filter (\<lambda>z. \<not> before r z \<and> \<not> before z r) xs"
  by (induction xs) (auto simp: insertion_sort_def sorted_insert_by filter_insert_by)

end

lemma insertion_sort_stable: "stable_sorter insertion_sort"
  by (simp add: stable_sorter_def comparison.insertion_sort_contract)


theorem extra_pars_paused_but_smallest_witness:
  "\<exists>m\<in>{0, 1}. paused_flags (pause_pars True [0, 1] (nzb_init\<lparr>nz_fileList :=
      [file_init\<lparr>fi_parFile := True, fi_filename := ''a.vol1+2.par2'', fi_size := 20\<rparr>,
       file_init\<lparr>fi_parFile := True, fi_filename := ''a.vol0+1.par2'', fi_size := 10\<rparr>]\<rparr>)) ! (1 - m)"
proof -
  let ?f = "file_init\<lparr>fi_parFile := True, fi_filename := ''a.vol1+2.par2'', fi_size := 20\<rparr>"
  let ?g = "file_init\<lparr>fi_parFile := True, fi_filename := ''a.vol0+1.par2'', fi_size := 10\<rparr>"
  let ?nz = "nzb_init\<lparr>nz_fileList := [?f, ?g]\<rparr>"
  have v: "is_vol ?f" "is_vol ?g" by code_simp+
  have l: "nz_fileList ?nz = [?f, ?g]" by simp
  have "\<exists>m\<in>set [0, 1]. fi_parFile (nz_fileList ?nz ! m) \<and>
    (\<forall>j\<in>set [0, 1]. fi_parFile (nz_fileList ?nz ! j) \<longrightarrow> fi_size (nz_fileList ?nz ! m) \<le> fi_size (nz_fileList ?nz ! j)) \<and>
    (\<forall>i<length (nz_fileList ?nz). paused_flags (pause_pars True [0, 1] ?nz) ! i =
       (paused_flags ?nz ! i \<or> i \<in> set [0, 1] \<and> fi_parFile (nz_fileList ?nz ! i) \<and> i \<noteq> m))"
    by (rule extra_pars_paused_but_smallest [where v = 0]) (use v in \<open>simp_all add: l\<close>)
  then show ?thesis unfolding l by (auto simp: less_Suc_eq)
qed

end
