(* ===== verification/QueueMerge.thy ===== *)
theory QueueMerge
  imports QueueEdit QueueRun
begin

text \<open>
  Merging downloads and splitting files off a download (\<open>MergeQueueEntries\<close> and
  \<open>SplitQueueEntries\<close> of \<open>daemon/queue/QueueCoordinator.cpp\<close>), with the naming of the destination
  directory (\<open>daemon/queue/DownloadInfo.cpp\<close>), and what they do to the counters a download keeps.
\<close>

section \<open>Names and directories\<close>

text \<open>Options: \<open>no_category\<close> looks a category up and gives its directory; \<open>no_valid\<close> is
  \<open>FileSystem::MakeValidFilename\<close>, with its flag for slashes.\<close>

record name_options =
  no_interDir :: cstring
  no_destDir :: cstring
  no_category :: "cstring \<Rightarrow> cstring option"
  no_appendCategoryDir :: bool
  no_valid :: "bool \<Rightarrow> cstring \<Rightarrow> cstring"

definition make_nice_nzb_name :: "name_options \<Rightarrow> bool \<Rightarrow> cstring \<Rightarrow> cstring" where
  "make_nice_nzb_name no removeExt nzbFilename =
     (let nicename = take 1023 (base_file_name nzbFilename);
          ext = (case last_pos (CHR ''.'') nicename of Some k \<Rightarrow> drop k nicename | None \<Rightarrow> []);
          nicename = (if removeExt \<and> strcase_eq ext ''.nzb'' then take (length nicename - 4) nicename else nicename)
      in no_valid no False nicename)"

definition nz_set_filename :: "name_options \<Rightarrow> cstring \<Rightarrow> nzb_info \<Rightarrow> nzb_info" where
  "nz_set_filename no filename nz =
     (let hadFilename = (nz_filename nz \<noteq> []); nz1 = nz\<lparr>nz_filename := filename\<rparr>
      in if (nz_name nz = None \<or> \<not> hadFilename) \<and> filename \<noteq> []
         then nz1\<lparr>nz_name := Some (make_nice_nzb_name no True filename)\<rparr> else nz1)"

definition build_final_dir_name :: "name_options \<Rightarrow> nzb_info \<Rightarrow> cstring" where
  "build_final_dir_name no nz =
     (let cat = nz_category nz;
          (finalDir, useCategory) =
            (case (if cat \<noteq> [] then no_category no cat else None) of
               Some dir \<Rightarrow> if dir \<noteq> [] then (dir, False) else (no_destDir no, True)
             | None \<Rightarrow> (no_destDir no, cat \<noteq> []));
          finalDir = (if no_appendCategoryDir no \<and> useCategory then finalDir @ ''/'' @ no_valid no True cat else finalDir)
      in finalDir @ ''/'' @ nzb_name nz)"

definition build_dest_dir_name :: "name_options \<Rightarrow> nzb_info \<Rightarrow> nzb_info" where
  "build_dest_dir_name no nz =
     nz\<lparr>nz_destDir := (if no_interDir no = [] then build_final_dir_name no nz
        else no_interDir no @ ''/'' @ nzb_name nz @ ''.#'' @ show_int (nz_id nz))\<rparr>"

text \<open>\<open>SetQueueEntryCategory\<close> and \<open>SetQueueEntryName\<close>; \<open>moved\<close> tells whether \<open>MoveCompletedFiles\<close>
  succeeds.\<close>

definition set_queue_entry_category ::
    "name_options \<Rightarrow> (nzb_info \<Rightarrow> cstring \<Rightarrow> bool) \<Rightarrow> cstring \<Rightarrow> nzb_info \<Rightarrow> nzb_info \<times> bool" where
  "set_queue_entry_category no moved cat nz =
     (if nz_postInfo nz \<noteq> None then (nz, False)
      else let nz1 = build_dest_dir_name no (nz\<lparr>nz_category := cat\<rparr>)
           in (nz1, nz_destDir nz1 = nz_destDir nz \<or> moved nz1 (nz_destDir nz)))"

definition set_queue_entry_name ::
    "name_options \<Rightarrow> (nzb_info \<Rightarrow> cstring \<Rightarrow> bool) \<Rightarrow> cstring \<Rightarrow> nzb_info \<Rightarrow> nzb_info \<times> bool" where
  "set_queue_entry_name no moved name nz =
     (if nz_postInfo nz \<noteq> None \<or> name = [] then (nz, False)
      else let nz1 = nz\<lparr>nz_name := Some (make_nice_nzb_name no False name)\<rparr>
           in if nz_kind nz = nkUrl then (nz_set_filename no (take 1023 (nzb_name nz1 @ ''.nzb'')) nz1, True)
              else let nz2 = build_dest_dir_name no nz1
                   in (nz2, nz_destDir nz2 = nz_destDir nz \<or> moved nz2 (nz_destDir nz)))"

section \<open>Merging\<close>

text \<open>The destination after the files and counters of the source are added.\<close>

definition merge_into :: "nzb_info \<Rightarrow> nzb_info \<Rightarrow> nzb_info" where
  "merge_into src nz = nz\<lparr>
     nz_fileList := nz_fileList nz @ nz_fileList src,
     nz_fileCount := nz_fileCount nz + nz_fileCount src,
     nz_activeDownloads := nz_activeDownloads nz + nz_activeDownloads src,
     nz_fullContentHash := 0,
     nz_filteredContentHash := 0,
     nz_size := nz_size nz + nz_size src,
     nz_remainingSize := nz_remainingSize nz + nz_remainingSize src,
     nz_pausedFileCount := nz_pausedFileCount nz + nz_pausedFileCount src,
     nz_pausedSize := nz_pausedSize nz + nz_pausedSize src,
     nz_successSize := nz_successSize nz + nz_successSize src,
     nz_currentSuccessSize := nz_currentSuccessSize nz + nz_currentSuccessSize src,
     nz_failedSize := nz_failedSize nz + nz_failedSize src,
     nz_currentFailedSize := nz_currentFailedSize nz + nz_currentFailedSize src,
     nz_parSize := nz_parSize nz + nz_parSize src,
     nz_parSuccessSize := nz_parSuccessSize nz + nz_parSuccessSize src,
     nz_parCurrentSuccessSize := nz_parCurrentSuccessSize nz + nz_parCurrentSuccessSize src,
     nz_parFailedSize := nz_parFailedSize nz + nz_parFailedSize src,
     nz_parCurrentFailedSize := nz_parCurrentFailedSize nz + nz_parCurrentFailedSize src,
     nz_remainingParCount := nz_remainingParCount nz + nz_remainingParCount src,
     nz_totalArticles := nz_totalArticles nz + nz_totalArticles src,
     nz_successArticles := nz_successArticles nz + nz_successArticles src,
     nz_failedArticles := nz_failedArticles nz + nz_failedArticles src,
     nz_currentSuccessArticles := nz_currentSuccessArticles nz + nz_currentSuccessArticles src,
     nz_currentFailedArticles := nz_currentFailedArticles nz + nz_currentFailedArticles src,
     nz_serverStats := list_op (nz_serverStats src) soAdd (nz_serverStats nz),
     nz_currentServerStats := list_op (nz_currentServerStats src) soAdd (nz_currentServerStats nz),
     nz_minTime := (if nz_minTime src < nz_minTime nz then nz_minTime src else nz_minTime nz),
     nz_maxTime := (if nz_maxTime src > nz_maxTime nz then nz_maxTime src else nz_maxTime nz),
     nz_downloadedSize := nz_downloadedSize nz + nz_downloadedSize src,
     nz_downloadSec := nz_downloadSec nz + nz_downloadSec src,
     nz_downloadStartTime :=
       (if (nz_downloadStartTime nz > 0 \<and> nz_downloadStartTime nz < nz_downloadStartTime src) \<or> nz_downloadStartTime src = 0
        then nz_downloadStartTime nz else nz_downloadStartTime src),
     nz_completedFiles := nz_completedFiles nz @ nz_completedFiles src,
     nz_queuedFilename := nz_queuedFilename nz @ ''|'' @ nz_queuedFilename src\<rparr>"

definition find_nzb :: "int \<Rightarrow> queue \<Rightarrow> nat option" where
  "find_nzb i q = (let p = position nz_id i q in if p < length q then Some p else None)"

text \<open>\<open>MergeQueueEntries\<close>: the flag tells success.\<close>

definition merge_queue_entries ::
    "name_options \<Rightarrow> (nzb_info \<Rightarrow> cstring \<Rightarrow> bool) \<Rightarrow> int \<Rightarrow> int \<Rightarrow> queue \<Rightarrow> queue \<times> bool" where
  "merge_queue_entries no moved destId srcId q =
     (case (find_nzb destId q, find_nzb srcId q) of
        (Some d, Some s) \<Rightarrow>
          let dest = q ! d; src = q ! s
          in if nz_postInfo dest \<noteq> None \<or> nz_postInfo src \<noteq> None then (q, False)
             else if nz_kind dest = nkUrl \<or> nz_kind src = nkUrl then (q, False)
             else let src = fst (set_queue_entry_category no moved (nz_category dest) (nz_set_filename no (nz_filename src) src))
                  in (del_nth s (q[d := merge_into src dest]), True)
      | _ \<Rightarrow> (q, False))"

text \<open>\<open>MergeGroups\<close>: the downloads of the list are merged into the first one.\<close>

definition merge_step ::
    "name_options \<Rightarrow> (nzb_info \<Rightarrow> cstring \<Rightarrow> bool) \<Rightarrow> int \<Rightarrow> queue \<times> bool \<Rightarrow> int \<Rightarrow> queue \<times> bool" where
  "merge_step no moved destId acc i =
     (if i \<noteq> destId
      then (case merge_queue_entries no moved destId i (fst acc) of (q, ok) \<Rightarrow> (q, if ok then False else snd acc))
      else acc)"

definition merge_groups ::
    "name_options \<Rightarrow> (nzb_info \<Rightarrow> cstring \<Rightarrow> bool) \<Rightarrow> int list \<Rightarrow> queue \<Rightarrow> queue \<times> bool" where
  "merge_groups no moved ids q =
     (case id_order nz_id ids q of
        [] \<Rightarrow> (q, False)
      | d # ds \<Rightarrow> foldl (merge_step no moved d) (q, True) (d # ds))"

section \<open>Splitting\<close>

text \<open>The statistics of a file that goes from the download \<open>src\<close> to the new one \<open>nz\<close>.\<close>

definition split_source :: "file_info \<Rightarrow> nzb_info \<Rightarrow> nzb_info" where
  "split_source fi src =
     (let src = src\<lparr>
            nz_fileCount := nz_fileCount src - 1,
            nz_size := nz_size src - fi_size fi,
            nz_remainingSize := nz_remainingSize src - fi_remainingSize fi,
            nz_currentSuccessSize := nz_currentSuccessSize src - fi_successSize fi,
            nz_currentFailedSize := nz_currentFailedSize src - fi_failedSize fi - fi_missedSize fi,
            nz_totalArticles := nz_totalArticles src - fi_totalArticles fi,
            nz_failedArticles := nz_failedArticles src - fi_missedArticles fi,
            nz_currentSuccessArticles := nz_currentSuccessArticles src - fi_successArticles fi,
            nz_currentFailedArticles := nz_currentFailedArticles src - fi_failedArticles fi - fi_missedArticles fi,
            nz_currentServerStats := list_op (fi_serverStats fi) soSubtract (nz_currentServerStats src)\<rparr>;
          src = (if fi_parFile fi then src\<lparr>
            nz_parSize := nz_parSize src - fi_size fi,
            nz_parCurrentSuccessSize := nz_parCurrentSuccessSize src - fi_successSize fi,
            nz_parCurrentFailedSize := nz_parCurrentFailedSize src - fi_failedSize fi - fi_missedSize fi,
            nz_remainingParCount := nz_remainingParCount src - 1\<rparr> else src)
      in if fi_paused fi then src\<lparr>
            nz_pausedFileCount := nz_pausedFileCount src - 1,
            nz_pausedSize := nz_pausedSize src - fi_remainingSize fi\<rparr> else src)"

definition split_target :: "int \<Rightarrow> file_info \<Rightarrow> nzb_info \<Rightarrow> nzb_info" where
  "split_target srcPausedCount fi nz =
     (let nz = nz\<lparr>
            nz_fileCount := nz_fileCount nz + 1,
            nz_size := nz_size nz + fi_size fi,
            nz_remainingSize := nz_remainingSize nz + fi_remainingSize fi,
            nz_currentSuccessSize := nz_currentSuccessSize nz + fi_successSize fi,
            nz_currentFailedSize := nz_currentFailedSize nz + fi_failedSize fi + fi_missedSize fi,
            nz_totalArticles := nz_totalArticles nz + fi_totalArticles fi,
            nz_failedArticles := nz_failedArticles nz + fi_missedArticles fi,
            nz_currentSuccessArticles := nz_currentSuccessArticles nz + fi_successArticles fi,
            nz_currentFailedArticles := nz_currentFailedArticles nz + fi_failedArticles fi + fi_missedArticles fi,
            nz_currentServerStats := list_op (fi_serverStats fi) soAdd (nz_currentServerStats nz)\<rparr>;
          nz = (if fi_parFile fi then nz\<lparr>
            nz_parSize := nz_parSize nz + fi_size fi,
            nz_parCurrentSuccessSize := nz_parCurrentSuccessSize nz + fi_successSize fi,
            nz_parCurrentFailedSize := nz_parCurrentFailedSize nz + fi_failedSize fi + fi_missedSize fi,
            nz_remainingParCount := nz_remainingParCount nz + 1\<rparr> else nz)
      in if fi_paused fi then nz\<lparr>
            nz_pausedFileCount := srcPausedCount + 1,
            nz_pausedSize := nz_pausedSize nz + fi_remainingSize fi\<rparr> else nz)"

text \<open>One file of the list. A file that is not in the download leaves a null pointer in the new file
  list, which is read at the end: there the model gives \<open>None\<close>.\<close>

definition split_step :: "(nzb_info \<times> nzb_info) option \<Rightarrow> int \<Rightarrow> (nzb_info \<times> nzb_info) option" where
  "split_step acc fid =
     (case acc of
        None \<Rightarrow> None
      | Some (src, nz) \<Rightarrow>
          let p = position fi_id fid (nz_fileList src)
          in if p < length (nz_fileList src)
             then (let fi = nz_fileList src ! p;
                       src = split_source fi (set_file_list (del_nth p (nz_fileList src)) src);
                       nz = split_target (nz_pausedFileCount src) fi (set_file_list (nz_fileList nz @ [fi]) nz)
                   in Some (src, nz))
             else None)"

definition split_new :: "name_options \<Rightarrow> int \<Rightarrow> cstring \<Rightarrow> nzb_info \<Rightarrow> nzb_info" where
  "split_new no newId name src =
     (let nz = nz_set_filename no (nz_filename src) (nzb_init\<lparr>nz_id := newId\<rparr>)
      in (build_dest_dir_name no (nz\<lparr>nz_name := Some name, nz_category := nz_category src,
            nz_fullContentHash := 0, nz_filteredContentHash := 0, nz_priority := nz_priority src\<rparr>))\<lparr>
            nz_queuedFilename := nz_queuedFilename src,
            nz_ppParameters := copy_parameters (nz_ppParameters src) []\<rparr>)"

definition split_refused :: "queue \<Rightarrow> file_ref \<Rightarrow> bool" where
  "split_refused q r \<longleftrightarrow> fi_activeDownloads (file_at q r) > 0 \<or> fi_completedArticles (file_at q r) > 0 \<or>
     nz_postInfo (nzb_at q r) \<noteq> None"

definition split_queue_entries ::
    "name_options \<Rightarrow> int \<Rightarrow> cstring \<Rightarrow> file_ref list \<Rightarrow> coordinator \<Rightarrow> (coordinator \<times> bool) option" where
  "split_queue_entries no newId name rs s =
     (let q = qc_queue s
      in if rs = [] \<or> list_ex (split_refused q) rs then Some (s, False)
         else let i = fst (hd rs); src = q ! i; new = split_new no newId name src;
                  src = src\<lparr>nz_fullContentHash := 0, nz_filteredContentHash := 0\<rparr>;
                  events = map (\<lambda>r. eaFileDeleted (nz_id (nzb_at q r)) (fi_id (file_at q r))) rs
              in case foldl split_step (Some (src, new)) (map (\<lambda>r. fi_id (file_at q r)) rs) of
                   None \<Rightarrow> None
                 | Some (src, new) \<Rightarrow>
                     let new = update_min_max_time new;
                         src = (if nz_completedFiles src = [] then update_min_max_time src else src);
                         q = (if nz_fileList src = [] then del_nth i q else put_nzb q i src)
                     in Some (s\<lparr>qc_queue := q @ [new], qc_events := qc_events s @ events\<rparr>, True))"

section \<open>The counters after a merge\<close>

lemma merge_current:
  assumes "distinct (map ss_server (nz_currentServerStats src))" "c \<noteq> cExtra"
  shows "current (merge_into src nz) c = current nz c + current src c"
  using assms by (cases c) (simp_all add: merge_into_def stat_of_list_op stat_total_distinct)

lemma merge_settled:
  assumes "distinct (map ss_server (nz_serverStats src))"
  shows "settled (merge_into src nz) c = settled nz c + settled src c"
  using assms by (cases c) (simp_all add: merge_into_def stat_of_list_op stat_total_distinct)

text \<open>Merging keeps the counter invariant, as long as no file of the merged download has extra priority.\<close>

theorem merge_keeps_totals:
  assumes "totals_ok nz" "totals_ok src"
    and "distinct (map ss_server (nz_serverStats src))" "distinct (map ss_server (nz_currentServerStats src))"
    and "\<forall>fi\<in>set (nz_fileList src). \<not> fi_extraPriority fi"
  shows "totals_ok (merge_into src nz)"
  unfolding totals_ok_def
proof
  fix c
  have files: "nz_fileList (merge_into src nz) = nz_fileList nz @ nz_fileList src" by (simp add: merge_into_def)
  show "current (merge_into src nz) c = settled (merge_into src nz) c +
      sum_list (map (share c) (nz_fileList (merge_into src nz)))"
  proof (cases "c = cExtra")
    case True
    have "map (share cExtra) (nz_fileList src) = map (\<lambda>_. 0) (nz_fileList src)" using assms(5) by simp
    then have "sum_list (map (share cExtra) (nz_fileList src)) = 0" by (simp only: sum_list_0)
    moreover have "current (merge_into src nz) cExtra = current nz cExtra" by (simp add: merge_into_def)
    ultimately show ?thesis using True spec [OF assms(1) [unfolded totals_ok_def], of cExtra] by (simp add: files)
  next
    case False
    then show ?thesis
      using assms(1,2) merge_current [OF assms(4) False] merge_settled [OF assms(3)] by (simp add: totals_ok_def files)
  qed
qed

text \<open>The count of files with extra priority is not added by a merge: afterwards the download has a file
  with extra priority and counts none.\<close>

theorem merge_loses_extra_priority:
  "\<exists>nz src. totals_ok nz \<and> totals_ok src \<and> has_extra_priority src \<and> \<not> has_extra_priority (merge_into src nz) \<and>
     list_ex fi_extraPriority (nz_fileList (merge_into src nz))"
proof -
  let ?src = "nzb_init\<lparr>nz_fileList := [file_init\<lparr>fi_extraPriority := True\<rparr>], nz_extraPriority := 1\<rparr>"
  have "current nzb_init c = settled nzb_init c + sum_list (map (share c) (nz_fileList nzb_init))" for c
    by (cases c) (simp_all add: nzb_init_def)
  moreover have "current ?src c = settled ?src c + sum_list (map (share c) (nz_fileList ?src))" for c
    by (cases c) (simp_all add: nzb_init_def file_init_def stat_total_def)
  moreover have "has_extra_priority ?src" "\<not> has_extra_priority (merge_into ?src nzb_init)"
    "list_ex fi_extraPriority (nz_fileList (merge_into ?src nzb_init))"
    by (simp_all add: has_extra_priority_def merge_into_def nzb_init_def)
  ultimately show ?thesis unfolding totals_ok_def by blast
qed

text \<open>The edit action reports failure when the merge succeeds: the result is set to false by every
  successful merge, and stays true when the downloads cannot be merged.\<close>

theorem merge_result_inverted:
  "(\<exists>q'. merge_groups no moved [1, 2] [nzb_init\<lparr>nz_id := 1\<rparr>, nzb_init\<lparr>nz_id := 2\<rparr>] = (q', False) \<and> length q' = 1) \<and>
   (\<exists>q'. merge_groups no moved [1, 2] [nzb_init\<lparr>nz_id := 1\<rparr>, nzb_init\<lparr>nz_id := 2, nz_kind := nkUrl\<rparr>] = (q', True) \<and>
      length q' = 2)"
  by (simp add: merge_groups_def merge_step_def merge_queue_entries_def find_nzb_def position_def id_order_def
      max_id_def del_nth_def Let_def nzb_init_def)

section \<open>The counters after a split\<close>

definition plain_file :: "file_info \<Rightarrow> bool" where
  "plain_file fi \<longleftrightarrow> \<not> fi_paused fi \<and> \<not> fi_extraPriority fi \<and> fi_missedSize fi = 0"

lemma split_source_diff:
  "plain_file fi \<Longrightarrow> current (split_source fi src) c - settled (split_source fi src) c =
     current src c - settled src c - share c fi"
  by (cases c) (simp_all add: split_source_def plain_file_def Let_def stat_of_list_op)

lemma split_target_diff:
  "plain_file fi \<Longrightarrow> current (split_target n fi nz) c - settled (split_target n fi nz) c =
     current nz c - settled nz c + share c fi"
  by (cases c) (simp_all add: split_target_def plain_file_def Let_def stat_of_list_op)

lemma split_step_keeps:
  assumes "split_step (Some (src, nz)) fid = Some (src', nz')" "totals_ok src" "totals_ok nz"
    and "\<forall>fi\<in>set (nz_fileList src). fi_id fi = fid \<longrightarrow> plain_file fi"
  shows "totals_ok src'" "totals_ok nz'" "set (nz_fileList src') \<subseteq> set (nz_fileList src)"
proof -
  let ?fs = "nz_fileList src" and ?p = "position fi_id fid (nz_fileList src)"
  define fi where "fi = ?fs ! ?p"
  have p: "?p < length ?fs" using assms(1) by (auto simp: split_step_def Let_def split: if_splits)
  then have "fi_id fi = fid"
    using nth_length_takeWhile [of "\<lambda>x. fi_id x \<noteq> fid" ?fs] by (simp add: fi_def position_def)
  then have plain: "plain_file fi" using assms(4) p by (auto simp: fi_def)
  have fs: "?fs = take ?p ?fs @ fi # drop (Suc ?p) ?fs" using p by (simp add: fi_def id_take_nth_drop)
  have src': "src' = split_source fi (set_file_list (del_nth ?p ?fs) src)"
    and nz': "nz' = split_target (nz_pausedFileCount src') fi (set_file_list (nz_fileList nz @ [fi]) nz)"
    using assms(1) p by (auto simp: split_step_def Let_def fi_def)
  have files: "nz_fileList src' = del_nth ?p ?fs" "nz_fileList nz' = nz_fileList nz @ [fi]"
    by (simp_all add: src' nz' split_source_def split_target_def Let_def set_file_list_def)
  show "totals_ok nz'" unfolding totals_ok_def
  proof
    show "current nz' c = settled nz' c + sum_list (map (share c) (nz_fileList nz'))" for c
      using split_target_diff [OF plain, of "nz_pausedFileCount src'" "set_file_list (nz_fileList nz @ [fi]) nz" c] assms(3)
      by (simp add: files flip: nz') (simp add: totals_ok_def)
  qed
  show "totals_ok src'" unfolding totals_ok_def
  proof
    fix c
    have "sum_list (map (share c) ?fs) = sum_list (map (share c) (del_nth ?p ?fs)) + share c fi"
      by (subst fs) (simp add: del_nth_def)
    then show "current src' c = settled src' c + sum_list (map (share c) (nz_fileList src'))"
      using split_source_diff [OF plain, of "set_file_list (del_nth ?p ?fs) src" c] assms(2)
      by (simp add: files flip: src') (simp add: totals_ok_def)
  qed
  show "set (nz_fileList src') \<subseteq> set ?fs" unfolding files by (auto dest: set_del_nth)
qed

lemma split_steps_keep:
  assumes "foldl split_step (Some (src, nz)) fids = Some (src', nz')" "totals_ok src" "totals_ok nz"
    and "\<forall>fi\<in>set (nz_fileList src). fi_id fi \<in> set fids \<longrightarrow> plain_file fi"
  shows "totals_ok src' \<and> totals_ok nz'"
  using assms
proof (induction fids arbitrary: src nz)
  case (Cons fid fids)
  show ?case
  proof (cases "split_step (Some (src, nz)) fid")
    case None
    have "foldl split_step None fids = None" by (induction fids) (simp_all add: split_step_def)
    then show ?thesis using Cons.prems(1) None by simp
  next
    case (Some r)
    then obtain src1 nz1 where r: "split_step (Some (src, nz)) fid = Some (src1, nz1)" by (cases r) simp
    note k = split_step_keeps [OF r Cons.prems(2,3)]
    have "\<forall>fi\<in>set (nz_fileList src). fi_id fi = fid \<longrightarrow> plain_file fi" using Cons.prems(4) by simp
    note k = k [OF this]
    have "foldl split_step (Some (src1, nz1)) fids = Some (src', nz')" using Cons.prems(1) r by simp
    moreover have "\<forall>fi\<in>set (nz_fileList src1). fi_id fi \<in> set fids \<longrightarrow> plain_file fi" using k(3) Cons.prems(4) by auto
    ultimately show ?thesis by (rule Cons.IH [OF _ k(1,2)])
  qed
qed simp

lemma totals_ok_fields:
  "totals_ok (nz\<lparr>nz_fullContentHash := h, nz_filteredContentHash := h'\<rparr>) = totals_ok nz"
  "totals_ok (update_min_max_time nz) = totals_ok nz"
proof -
  have "current (nz\<lparr>nz_fullContentHash := h, nz_filteredContentHash := h'\<rparr>) c = current nz c"
    "settled (nz\<lparr>nz_fullContentHash := h, nz_filteredContentHash := h'\<rparr>) c = settled nz c" for c
    by (cases c; simp)+
  then show "totals_ok (nz\<lparr>nz_fullContentHash := h, nz_filteredContentHash := h'\<rparr>) = totals_ok nz"
    by (simp add: totals_ok_def)
  obtain a b x where "foldl (\<lambda>s fi. min_max_step fi s) (0, 0, True) (nz_fileList nz) = (a, b, x)" by (rule prod_cases3)
  then have "update_min_max_time nz = nz\<lparr>nz_minTime := a, nz_maxTime := b\<rparr>" by (simp add: update_min_max_time_def)
  moreover have "current (nz\<lparr>nz_minTime := a, nz_maxTime := b\<rparr>) c = current nz c"
    "settled (nz\<lparr>nz_minTime := a, nz_maxTime := b\<rparr>) c = settled nz c" for c
    by (cases c; simp)+
  ultimately show "totals_ok (update_min_max_time nz) = totals_ok nz" by (simp add: totals_ok_def)
qed

lemma split_new_totals: "totals_ok (split_new no newId name src)"
proof -
  have "current (split_new no newId name src) c = 0 \<and> settled (split_new no newId name src) c = 0 \<and>
      nz_fileList (split_new no newId name src) = []" for c
    by (cases c) (simp_all add: split_new_def build_dest_dir_name_def nz_set_filename_def nzb_init_def Let_def)
  then show ?thesis by (simp add: totals_ok_def)
qed

text \<open>C11: Splitting files off keeps the counter invariant of all downloads, for files that are not paused,
  have no extra priority and lack no article in the nzb-file.\<close>

theorem split_keeps_totals:
  assumes "split_queue_entries no newId name rs s = Some (s', ok)" "\<forall>nz\<in>set (qc_queue s). totals_ok nz"
    and "\<forall>r\<in>set rs. r \<in> refs (qc_queue s)"
    and "\<forall>fi\<in>set (nz_fileList (qc_queue s ! fst (hd rs))).
      fi_id fi \<in> (\<lambda>r. fi_id (file_at (qc_queue s) r)) ` set rs \<longrightarrow> plain_file fi"
  shows "\<forall>nz\<in>set (qc_queue s'). totals_ok nz"
proof (cases "rs = [] \<or> list_ex (split_refused (qc_queue s)) rs")
  case True
  then show ?thesis using assms(1,2) by (simp add: split_queue_entries_def)
next
  case False
  let ?q = "qc_queue s" and ?i = "fst (hd rs)"
  let ?src = "(?q ! ?i)\<lparr>nz_fullContentHash := 0, nz_filteredContentHash := 0\<rparr>"
  have i: "?i < length ?q" using assms(3) False by (cases rs) (auto simp: mem_refs)
  obtain src new where f: "foldl split_step (Some (?src, split_new no newId name (?q ! ?i)))
      (map (\<lambda>r. fi_id (file_at ?q r)) rs) = Some (src, new)"
    using assms(1) False by (auto simp: split_queue_entries_def Let_def split: option.splits)
  have "totals_ok ?src" using assms(2) i by (simp add: totals_ok_fields)
  then have ok: "totals_ok src" "totals_ok new"
    using split_steps_keep [OF f _ split_new_totals] assms(4) by auto
  define src2 where "src2 = (if nz_completedFiles src = [] then update_min_max_time src else src)"
  have src2: "totals_ok src2" using ok by (simp add: src2_def totals_ok_fields)
  have "s' = s\<lparr>qc_queue := (if nz_fileList src2 = [] then del_nth ?i ?q else put_nzb ?q ?i src2) @ [update_min_max_time new],
      qc_events := qc_events s @ map (\<lambda>r. eaFileDeleted (nz_id (nzb_at ?q r)) (fi_id (file_at ?q r))) rs\<rparr>"
    using assms(1) False unfolding split_queue_entries_def Let_def f
    by (auto simp: src2_def cong: if_cong split del: if_split)
  moreover have "\<forall>nz\<in>set (del_nth ?i ?q). totals_ok nz" using assms(2) set_del_nth by metis
  moreover have "\<forall>nz\<in>set (put_nzb ?q ?i src2). totals_ok nz"
    using assms(2) src2 unfolding put_nzb_def by (auto dest: set_update_subset_insert [THEN subsetD])
  ultimately show ?thesis using ok(2) by (auto simp: totals_ok_fields split: if_splits)
qed

section \<open>What a split does to paused files\<close>

definition no_options :: name_options where
  "no_options = \<lparr>no_interDir = [], no_destDir = ''/d'', no_category = (\<lambda>_. None), no_appendCategoryDir = False,
     no_valid = (\<lambda>_ name. name)\<rparr>"

definition numbered_file :: "int \<Rightarrow> bool \<Rightarrow> file_info" where
  "numbered_file fid paused = file_init\<lparr>fi_id := fid, fi_paused := paused, fi_articles := [example_article]\<rparr>"

lemmas split_evaluation = split_queue_entries_def split_refused_def split_new_def split_step_def split_source_def
  split_target_def build_dest_dir_name_def nz_set_filename_def set_file_list_def position_def del_nth_def
  put_nzb_def file_at_def nzb_at_def numbered_file_def no_options_def nzb_init_def file_init_def
  update_min_max_time_def Let_def copy_parameters_def idle_coordinator_def list_op_def build_final_dir_name_def

text \<open>The count of paused files of the new download is computed from that of the source. A split of one
  paused and one other file off a download with two paused files makes a download that counts two
  paused files of its two, so that the coordinator takes it for paused although it has an open file.\<close>

theorem split_blocks_open_file:
  "\<exists>s s' new. split_queue_entries no_options 9 ''new'' [(0, 0), (0, 1)] s = Some (s', True) \<and>
     last (qc_queue s') = new \<and> list_ex (\<lambda>fi. \<not> fi_paused fi) (nz_fileList new) \<and> nzb_paused new \<and>
     list_all totals_ok (qc_queue s)"
proof -
  let ?nz = "nzb_init\<lparr>nz_id := 1, nz_pausedFileCount := 2,
    nz_fileList := [numbered_file 1 True, numbered_file 2 False, numbered_file 3 True]\<rparr>"
  have "current ?nz c = settled ?nz c + sum_list (map (share c) (nz_fileList ?nz))" for c
    by (cases c) (simp_all add: nzb_init_def numbered_file_def file_init_def stat_total_def)
  then have ok: "list_all totals_ok (qc_queue (idle_coordinator [?nz]))" by (simp add: idle_coordinator_def totals_ok_def)
  have "\<exists>s' new. split_queue_entries no_options 9 ''new'' [(0, 0), (0, 1)] (idle_coordinator [?nz]) = Some (s', True) \<and>
      last (qc_queue s') = new \<and> list_ex (\<lambda>fi. \<not> fi_paused fi) (nz_fileList new) \<and> nzb_paused new"
    by (simp add: split_evaluation nzb_paused_def min_max_step_def)
  with ok show ?thesis by blast
qed

text \<open>Splitting files of two downloads is not refused: the file of the second download leaves a null
  pointer in the new list.\<close>

theorem split_of_two_downloads_undefined:
  "split_queue_entries no_options 9 ''new'' [(0, 0), (1, 0)]
     (idle_coordinator [nzb_init\<lparr>nz_id := 1, nz_fileList := [numbered_file 1 False]\<rparr>,
        nzb_init\<lparr>nz_id := 2, nz_fileList := [numbered_file 2 False]\<rparr>]) = None"
  by (simp add: split_evaluation)

section \<open>Examples\<close>

lemma init_totals_ok: "totals_ok nzb_init"
proof -
  have "current nzb_init c = settled nzb_init c + sum_list (map (share c) (nz_fileList nzb_init))" for c
    by (cases c) (simp_all add: nzb_init_def)
  then show ?thesis by (simp add: totals_ok_def)
qed

lemma numbered_totals_ok: "totals_ok (nzb_init\<lparr>nz_id := n, nz_fileList := [numbered_file i False, numbered_file j False]\<rparr>)"
proof -
  let ?nz = "nzb_init\<lparr>nz_id := n, nz_fileList := [numbered_file i False, numbered_file j False]\<rparr>"
  have "current ?nz c = settled ?nz c + sum_list (map (share c) (nz_fileList ?nz))" for c
    by (cases c) (simp_all add: nzb_init_def numbered_file_def file_init_def stat_total_def)
  then show ?thesis by (simp add: totals_ok_def)
qed

theorem merge_keeps_totals_witness:
  "totals_ok (merge_into (nzb_init\<lparr>nz_id := 1, nz_fileList := [numbered_file 1 False, numbered_file 2 False]\<rparr>) nzb_init)"
  by (rule merge_keeps_totals [OF init_totals_ok numbered_totals_ok])
     (simp_all add: nzb_init_def numbered_file_def file_init_def)

theorem split_keeps_totals_witness:
  "\<exists>s'. split_queue_entries no_options 9 ''new'' [(0, 1)]
      (idle_coordinator [nzb_init\<lparr>nz_id := 1, nz_fileList := [numbered_file 1 False, numbered_file 2 False]\<rparr>]) = Some (s', True) \<and>
    list_all totals_ok (qc_queue s')"
proof -
  let ?s = "idle_coordinator [nzb_init\<lparr>nz_id := 1, nz_fileList := [numbered_file 1 False, numbered_file 2 False]\<rparr>]"
  have "\<exists>s'. split_queue_entries no_options 9 ''new'' [(0, 1)] ?s = Some (s', True)"
    by (simp add: split_evaluation)
  then obtain s' where s': "split_queue_entries no_options 9 ''new'' [(0, 1)] ?s = Some (s', True)" by blast
  have "\<forall>nz\<in>set (qc_queue s'). totals_ok nz"
    by (rule split_keeps_totals [OF s'])
       (simp add: idle_coordinator_def numbered_totals_ok,
        simp_all add: idle_coordinator_def mem_refs plain_file_def numbered_file_def file_init_def)
  then show ?thesis using s' by (simp add: list_all_iff)
qed

end
