(* ===== verification/DupeCheck.thy ===== *)
theory DupeCheck
  imports QueueMerge
begin

text \<open>
  Duplicate downloads (\<open>daemon/queue/DupeCoordinator.cpp\<close>): when two titles are the same, what a
  title that is found inherits, the search of the history for duplicates, the choice of the best
  backup, and the records of the history (\<open>DupInfo\<close>, \<open>HistoryInfo\<close> of
  \<open>daemon/queue/DownloadInfo.h\<close>). The functions here only read the queue and the history.
\<close>

section \<open>The history\<close>

record dup_info =
  du_id :: int
  du_name :: cstring
  du_dupeKey :: cstring
  du_dupeScore :: int
  du_dupeMode :: dupe_mode
  du_size :: int
  du_fullContentHash :: "32 word"
  du_filteredContentHash :: "32 word"
  du_status :: dup_status

datatype history_kind = hkUnknown | hkNzb | hkUrl | hkDup

text \<open>An item with the time it was added. The kind of an item with a download is that of the download.\<close>

datatype history_info = HNzb nzb_info int | HDup dup_info int

fun hi_kind :: "history_info \<Rightarrow> history_kind" where
  "hi_kind (HNzb nz _) = (if nz_kind nz = nkNzb then hkNzb else hkUrl)"
| "hi_kind (HDup _ _) = hkDup"

fun hi_id :: "history_info \<Rightarrow> int" where
  "hi_id (HNzb nz _) = nz_id nz"
| "hi_id (HDup d _) = du_id d"

fun hi_name :: "history_info \<Rightarrow> cstring" where
  "hi_name (HNzb nz _) = nzb_name nz"
| "hi_name (HDup d _) = du_name d"

fun hi_dupeKey :: "history_info \<Rightarrow> cstring" where
  "hi_dupeKey (HNzb nz _) = nz_dupeKey nz"
| "hi_dupeKey (HDup d _) = du_dupeKey d"

fun hi_dupeScore :: "history_info \<Rightarrow> int" where
  "hi_dupeScore (HNzb nz _) = nz_dupeScore nz"
| "hi_dupeScore (HDup d _) = du_dupeScore d"

fun hi_dupeMode :: "history_info \<Rightarrow> dupe_mode" where
  "hi_dupeMode (HNzb nz _) = nz_dupeMode nz"
| "hi_dupeMode (HDup d _) = du_dupeMode d"

fun hi_time :: "history_info \<Rightarrow> int" where
  "hi_time (HNzb _ t) = t"
| "hi_time (HDup _ t) = t"

section \<open>The same title\<close>

definition same_name_or_key :: "cstring \<Rightarrow> cstring \<Rightarrow> cstring \<Rightarrow> cstring \<Rightarrow> bool" where
  "same_name_or_key name1 dupeKey1 name2 dupeKey2 =
     (let hasDupeKeys = dupeKey1 \<noteq> [] \<and> dupeKey2 \<noteq> []
      in (hasDupeKeys \<and> strcase_eq dupeKey1 dupeKey2) \<or> (\<not> hasDupeKeys \<and> strcase_eq name1 name2))"

definition same_title :: "cstring \<Rightarrow> cstring \<Rightarrow> history_info \<Rightarrow> bool" where
  "same_title name key h = same_name_or_key (hi_name h) (hi_dupeKey h) name key"

text \<open>\<open>nzbInfo\<close> has the content hash of another download or history item.\<close>

definition same_content :: "nzb_info \<Rightarrow> 32 word \<Rightarrow> 32 word \<Rightarrow> bool" where
  "same_content nz full filtered \<longleftrightarrow>
     (nz_fullContentHash nz > 0 \<and> nz_fullContentHash nz = full) \<or>
     (nz_filteredContentHash nz > 0 \<and> nz_filteredContentHash nz = filtered)"

section \<open>A download that is found\<close>

text \<open>The parts of \<open>NzbFound\<close> that look for duplicates: a queued download with the same content, the
  item the download takes its key and score from, and the history item it is skipped for.\<close>

definition queued_copy :: "nzb_info \<Rightarrow> queue \<Rightarrow> nzb_info option" where
  "queued_copy nz q =
     find (\<lambda>qn. nz_id qn \<noteq> nz_id nz \<and>
       same_content nz (nz_fullContentHash qn) (nz_filteredContentHash qn) \<and> nz_kind nz = nkNzb) q"

fun history_title :: "history_info \<Rightarrow> bool" where
  "history_title (HNzb nz _) = (nz_kind nz = nkNzb)"
| "history_title (HDup _ _) = True"

definition inherit_dupe :: "queue \<Rightarrow> history_info list \<Rightarrow> nzb_info \<Rightarrow> nzb_info" where
  "inherit_dupe q hist nz =
     (let nz = (if nz_dupeKey nz = [] \<and> nz_dupeScore nz = 0
                then (case find (\<lambda>qn. nzb_name qn = nzb_name nz \<and> (nz_dupeKey qn \<noteq> [] \<or> nz_dupeScore qn \<noteq> 0)) q of
                        Some qn \<Rightarrow> nz\<lparr>nz_dupeKey := nz_dupeKey qn, nz_dupeScore := nz_dupeScore qn\<rparr>
                      | None \<Rightarrow> nz) else nz)
      in if nz_dupeKey nz = [] \<and> nz_dupeScore nz = 0
         then (case find (\<lambda>h. history_title h \<and> hi_name h = nzb_name nz \<and> (hi_dupeKey h \<noteq> [] \<or> hi_dupeScore h \<noteq> 0)) hist of
                 Some h \<Rightarrow> nz\<lparr>nz_dupeKey := hi_dupeKey h, nz_dupeScore := hi_dupeScore h\<rparr>
               | None \<Rightarrow> nz) else nz)"

text \<open>The first history item the download is skipped for: its name, whether it is marked good, and
  whether it has the same content.\<close>

record skip_reason =
  sk_good :: bool
  sk_sameContent :: bool
  sk_dupeName :: cstring

fun skip_for :: "nzb_info \<Rightarrow> history_info \<Rightarrow> skip_reason option" where
  "skip_for nz (HNzb n t) =
     (if nz_kind n \<noteq> nkNzb then None
      else if same_content nz (nz_fullContentHash n) (nz_filteredContentHash n)
      then Some \<lparr>sk_good = False, sk_sameContent = True, sk_dupeName = nzb_name n\<rparr>
      else if nz_dupeMode n \<noteq> dmForce \<and> nz_markStatus n = ksGood \<and>
              same_title (nzb_name nz) (nz_dupeKey nz) (HNzb n t)
      then Some \<lparr>sk_good = True, sk_sameContent = False, sk_dupeName = nzb_name n\<rparr>
      else None)"
| "skip_for nz (HDup d t) =
     (if same_content nz (du_fullContentHash d) (du_filteredContentHash d)
      then Some \<lparr>sk_good = False, sk_sameContent = True, sk_dupeName = du_name d\<rparr>
      else if du_dupeMode d \<noteq> dmForce \<and>
              (du_status d = ddGood \<or>
               (nz_dupeMode nz = dmScore \<and> du_status d = ddSuccess \<and> nz_dupeScore nz \<le> du_dupeScore d)) \<and>
              same_title (nzb_name nz) (nz_dupeKey nz) (HDup d t)
      then Some \<lparr>sk_good = (du_status d = ddGood), sk_sameContent = False, sk_dupeName = du_name d\<rparr>
      else None)"

fun history_skip :: "nzb_info \<Rightarrow> history_info list \<Rightarrow> skip_reason option" where
  "history_skip nz [] = None"
| "history_skip nz (h # hs) = (case skip_for nz h of Some r \<Rightarrow> Some r | None \<Rightarrow> history_skip nz hs)"

text \<open>A success in the recent history that makes the download a backup.\<close>

fun success_over :: "nzb_info \<Rightarrow> history_info \<Rightarrow> bool" where
  "success_over nz (HNzb n t) \<longleftrightarrow> nz_dupeMode n \<noteq> dmForce \<and>
     same_title (nzb_name nz) (nz_dupeKey nz) (HNzb n t) \<and> nz_dupeScore nz \<le> nz_dupeScore n \<and> is_dupe_success n"
| "success_over nz (HDup _ _) \<longleftrightarrow> False"

text \<open>A queued download that competes with the one that is found.\<close>

definition queue_rival :: "nzb_info \<Rightarrow> nzb_info \<Rightarrow> bool" where
  "queue_rival nz qn \<longleftrightarrow> nz_id qn \<noteq> nz_id nz \<and> nz_deleteStatus qn = dsNone \<and>
     (nz_kind qn = nkNzb \<or> (nz_kind qn = nkUrl \<and> nz_kind nz = nkUrl)) \<and> nz_dupeMode qn \<noteq> dmForce \<and>
     same_name_or_key (nzb_name qn) (nz_dupeKey qn) (nzb_name nz) (nz_dupeKey nz)"

section \<open>The best backup\<close>

text \<open>A success in the history with the same title, and one marked as good.\<close>

fun success_dupe :: "cstring \<Rightarrow> cstring \<Rightarrow> history_info \<Rightarrow> bool" where
  "success_dupe name key (HNzb n t) \<longleftrightarrow> nz_kind n = nkNzb \<and> nz_dupeMode n \<noteq> dmForce \<and> is_dupe_success n \<and>
     same_title name key (HNzb n t)"
| "success_dupe name key (HDup d t) \<longleftrightarrow> du_dupeMode d \<noteq> dmForce \<and> (du_status d = ddSuccess \<or> du_status d = ddGood) \<and>
     same_title name key (HDup d t)"

fun marked_good :: "history_info \<Rightarrow> bool" where
  "marked_good (HNzb n _) = (nz_markStatus n = ksGood)"
| "marked_good (HDup d _) = (du_status d = ddGood)"

text \<open>The loop over the history: the highest score of the successes so far (\<open>None\<close> without one); it
  ends without a score at a good one.\<close>

fun success_scan :: "cstring \<Rightarrow> cstring \<Rightarrow> int option \<Rightarrow> history_info list \<Rightarrow> int option option" where
  "success_scan name key sc [] = Some sc"
| "success_scan name key sc (h # hs) =
     (if success_dupe name key h
      then if marked_good h then None
           else success_scan name key
                  (case sc of None \<Rightarrow> Some (hi_dupeScore h)
                   | Some b \<Rightarrow> Some (if hi_dupeScore h > b then hi_dupeScore h else b)) hs
      else success_scan name key sc hs)"

definition queued_dupe :: "int option \<Rightarrow> cstring \<Rightarrow> cstring \<Rightarrow> nzb_info \<Rightarrow> bool" where
  "queued_dupe self name key qn \<longleftrightarrow> Some (nz_id qn) \<noteq> self \<and> nz_kind qn = nkNzb \<and> nz_dupeMode qn \<noteq> dmForce \<and>
     same_name_or_key (nzb_name qn) (nz_dupeKey qn) name key"

definition queue_step :: "int option \<Rightarrow> cstring \<Rightarrow> cstring \<Rightarrow> int option \<Rightarrow> nzb_info \<Rightarrow> int option" where
  "queue_step self name key sc qn =
     (if queued_dupe self name key qn \<and> (case sc of None \<Rightarrow> True | Some b \<Rightarrow> nz_dupeScore qn > b)
      then Some (nz_dupeScore qn) else sc)"

abbreviation above :: "int option \<Rightarrow> int \<Rightarrow> bool" where
  "above sc score \<equiv> (case sc of None \<Rightarrow> True | Some b \<Rightarrow> score > b)"

text \<open>A backup of the title that is worth downloading.\<close>

fun usable_backup :: "cstring \<Rightarrow> cstring \<Rightarrow> history_info \<Rightarrow> bool" where
  "usable_backup name key (HNzb n t) \<longleftrightarrow> nz_dupeMode n \<noteq> dmForce \<and> nz_deleteStatus n = dsDupe \<and>
     calc_health n \<ge> calc_critical_health True n \<and> nz_markStatus n \<noteq> ksBad \<and> same_title name key (HNzb n t)"
| "usable_backup name key (HDup _ _) \<longleftrightarrow> False"

definition backup_step ::
    "cstring \<Rightarrow> cstring \<Rightarrow> int option \<Rightarrow> int option \<Rightarrow> history_info list \<Rightarrow> nat option \<Rightarrow> nat \<Rightarrow> nat option" where
  "backup_step name key historyScore queueScore hist cur k =
     (let h = hist ! k
      in if usable_backup name key h \<and> above historyScore (hi_dupeScore h) \<and> above queueScore (hi_dupeScore h) \<and>
            above (map_option (\<lambda>j. hi_dupeScore (hist ! j)) cur) (hi_dupeScore h)
         then Some k else cur)"

text \<open>The search of \<open>ReturnBestDupe\<close>: the position in the history of the backup to download again.\<close>

definition best_dupe :: "int option \<Rightarrow> cstring \<Rightarrow> cstring \<Rightarrow> queue \<Rightarrow> history_info list \<Rightarrow> nat option" where
  "best_dupe self name key q hist =
     (case success_scan name key None hist of
        None \<Rightarrow> None
      | Some historyScore \<Rightarrow>
          foldl (backup_step name key historyScore (foldl (queue_step self name key) None q) hist) None [0..<length hist])"

section \<open>The duplicate status of a title\<close>

text \<open>The bits of \<open>EDupeStatus\<close> (\<open>daemon/queue/DupeCoordinator.h\<close>).\<close>

record dupe_status =
  st_queued :: bool
  st_downloading :: bool
  st_success :: bool
  st_warning :: bool
  st_failure :: bool

definition no_status :: dupe_status where
  "no_status = \<lparr>st_queued = False, st_downloading = False, st_success = False, st_warning = False, st_failure = False\<rparr>"

definition queue_status :: "cstring \<Rightarrow> cstring \<Rightarrow> dupe_status \<Rightarrow> nzb_info \<Rightarrow> dupe_status" where
  "queue_status name key st nz =
     (if same_name_or_key name key (nzb_name nz) (nz_dupeKey nz)
      then if nz_successArticles nz + nz_failedArticles nz > 0 then st\<lparr>st_downloading := True\<rparr> else st\<lparr>st_queued := True\<rparr>
      else st)"

fun history_status :: "cstring \<Rightarrow> cstring \<Rightarrow> dupe_status \<Rightarrow> history_info \<Rightarrow> dupe_status" where
  "history_status name key st (HNzb n t) =
     (if nz_kind n = nkNzb \<and> same_name_or_key name key (nzb_name n) (nz_dupeKey n)
      then (let text = make_text_status True n
            in if strncase_eq text ''SUCCESS'' 7 then st\<lparr>st_success := True\<rparr>
               else if strncase_eq text ''FAILURE'' 7 then st\<lparr>st_failure := True\<rparr>
               else if strncase_eq text ''WARNING'' 7 then st\<lparr>st_warning := True\<rparr>
               else st)
      else st)"
| "history_status name key st (HDup d t) =
     (if same_name_or_key name key (du_name d) (du_dupeKey d)
      then if du_status d = ddSuccess \<or> du_status d = ddGood then st\<lparr>st_success := True\<rparr>
           else if du_status d = ddFailed \<or> du_status d = ddBad then st\<lparr>st_failure := True\<rparr>
           else st
      else st)"

definition get_dupe_status :: "queue \<Rightarrow> history_info list \<Rightarrow> cstring \<Rightarrow> cstring \<Rightarrow> dupe_status" where
  "get_dupe_status q hist name key =
     foldl (history_status name key) (foldl (queue_status name key) no_status q) hist"

definition list_history_dupes :: "nzb_info \<Rightarrow> history_info list \<Rightarrow> nzb_info list" where
  "list_history_dupes nz hist =
     (if nz_dupeMode nz = dmForce then []
      else concat (map (\<lambda>h. case h of
             HNzb n t \<Rightarrow> if nz_kind n = nkNzb \<and> nz_dupeMode n \<noteq> dmForce \<and> same_title (nzb_name nz) (nz_dupeKey nz) h
                        then [n] else []
           | HDup _ _ \<Rightarrow> []) hist))"

section \<open>When titles are the same\<close>

lemma same_name_or_key_sym: "same_name_or_key n k n' k' = same_name_or_key n' k' n k"
  by (auto simp: same_name_or_key_def Let_def strcase_eq_sym)

lemma same_name_or_key_refl: "same_name_or_key n k n k"
  by (simp add: same_name_or_key_def)

text \<open>Being the same title is symmetric but not transitive: a download without key has the name of two
  downloads with different keys.\<close>

theorem same_title_not_transitive:
  "(\<forall>n k n' k'. same_name_or_key n k n' k' = same_name_or_key n' k' n k) \<and>
   same_name_or_key ''a'' ''k'' ''a'' [] \<and> same_name_or_key ''a'' [] ''a'' ''l'' \<and>
   \<not> same_name_or_key ''a'' ''k'' ''a'' ''l''"
proof -
  have "\<not> strcase_eq ''k'' ''l''" by (simp add: strcase_eq_def to_lower_def is_upper_def byte_def)
  then show ?thesis using same_name_or_key_sym by (auto simp: same_name_or_key_def)
qed

section \<open>The choice of the best backup\<close>

text \<open>A score is above the highest one of some items when it is above the scores of all of them.\<close>

lemma success_scan_Some:
  "success_scan name key sc hist = Some r \<longleftrightarrow>
     (\<forall>h\<in>set hist. success_dupe name key h \<longrightarrow> \<not> marked_good h) \<and> r =
     foldl (\<lambda>b s. case b of None \<Rightarrow> Some s | Some b \<Rightarrow> Some (if s > b then s else b)) sc
       (map hi_dupeScore (filter (success_dupe name key) hist))"
  by (induction hist arbitrary: sc) (auto split: option.splits)

lemma above_fold:
  "above (foldl (\<lambda>b s. case b of None \<Rightarrow> Some s | Some b \<Rightarrow> Some (if s > b then s else b)) sc ss) (x :: int) \<longleftrightarrow>
     above sc x \<and> (\<forall>s\<in>set ss. s < x)"
  by (induction ss arbitrary: sc) (auto split: option.splits)

lemma above_queue:
  "above (foldl (queue_step self name key) sc q) x \<longleftrightarrow>
     above sc x \<and> (\<forall>qn\<in>set q. queued_dupe self name key qn \<longrightarrow> nz_dupeScore qn < x)"
  by (induction q arbitrary: sc) (auto simp: queue_step_def split: option.splits)

text \<open>The backups that may be chosen, and the first of the highest score among them.\<close>

definition dupe_candidate :: "int option \<Rightarrow> cstring \<Rightarrow> cstring \<Rightarrow> queue \<Rightarrow> history_info list \<Rightarrow> history_info \<Rightarrow> bool" where
  "dupe_candidate self name key q hist h \<longleftrightarrow> usable_backup name key h \<and>
     (\<forall>g\<in>set hist. success_dupe name key g \<longrightarrow> hi_dupeScore g < hi_dupeScore h) \<and>
     (\<forall>qn\<in>set q. queued_dupe self name key qn \<longrightarrow> nz_dupeScore qn < hi_dupeScore h)"

locale first_best =
  fixes ok :: "'a \<Rightarrow> bool" and score :: "'a \<Rightarrow> int" and upd :: "nat option \<Rightarrow> nat \<Rightarrow> nat option" and xs :: "'a list"
  assumes upd: "k < length xs \<Longrightarrow> upd cur k =
    (if ok (xs ! k) \<and> above (map_option (\<lambda>j. score (xs ! j)) cur) (score (xs ! k)) then Some k else cur)"
begin

lemma scan:
  "n \<le> length xs \<Longrightarrow>
   (case foldl upd None [0..<n] of
      None \<Rightarrow> \<forall>k<n. \<not> ok (xs ! k)
    | Some i \<Rightarrow> i < n \<and> ok (xs ! i) \<and> (\<forall>k<n. ok (xs ! k) \<longrightarrow> score (xs ! k) \<le> score (xs ! i)) \<and>
        (\<forall>k<i. ok (xs ! k) \<longrightarrow> score (xs ! k) < score (xs ! i)))"
proof (induction n)
  case (Suc n)
  then show ?case
    by (cases "foldl upd None [0..<n]") (auto simp: upd less_Suc_eq not_less intro: order_trans)
qed simp

lemma none: "foldl upd None [0..<length xs] = None \<longleftrightarrow> (\<forall>x\<in>set xs. \<not> ok x)"
  using scan [OF order_refl] by (force simp: in_set_conv_nth split: option.splits)

lemma some:
  assumes "foldl upd None [0..<length xs] = Some i"
  shows "i < length xs" "ok (xs ! i)" "\<forall>x\<in>set xs. ok x \<longrightarrow> score x \<le> score (xs ! i)"
    "\<forall>k<i. ok (xs ! k) \<longrightarrow> score (xs ! k) < score (xs ! i)"
  using scan [OF order_refl] assms by (auto simp: in_set_conv_nth)

end

interpretation backups: first_best
    "\<lambda>h. usable_backup name key h \<and> above historyScore (hi_dupeScore h) \<and> above queueScore (hi_dupeScore h)"
    hi_dupeScore "backup_step name key historyScore queueScore hist" hist
  for name key historyScore queueScore hist
  by unfold_locales (auto simp: backup_step_def)

lemma candidate_above:
  assumes "success_scan name key None hist = Some r"
  shows "usable_backup name key h \<and> above r (hi_dupeScore h) \<and>
      above (foldl (queue_step self name key) None q) (hi_dupeScore h) \<longleftrightarrow> dupe_candidate self name key q hist h"
proof -
  have r: "r = foldl (\<lambda>b s. case b of None \<Rightarrow> Some s | Some b \<Rightarrow> Some (if s > b then s else b)) None
      (map hi_dupeScore (filter (success_dupe name key) hist))"
    using assms by (simp add: success_scan_Some)
  show ?thesis unfolding r above_fold above_queue by (auto simp: dupe_candidate_def)
qed

text \<open>C15: \<open>ReturnBestDupe\<close> finds nothing exactly when a duplicate is marked as good or no backup of the title
  has a score above those of all its successes and queued downloads; otherwise it finds the first of
  the highest score among these backups.\<close>

theorem best_dupe_correct:
  "case best_dupe self name key q hist of
     None \<Rightarrow> (\<exists>h\<in>set hist. success_dupe name key h \<and> marked_good h) \<or>
       (\<forall>h\<in>set hist. \<not> dupe_candidate self name key q hist h)
   | Some i \<Rightarrow> (\<forall>h\<in>set hist. success_dupe name key h \<longrightarrow> \<not> marked_good h) \<and>
       i < length hist \<and> dupe_candidate self name key q hist (hist ! i) \<and>
       (\<forall>h\<in>set hist. dupe_candidate self name key q hist h \<longrightarrow> hi_dupeScore h \<le> hi_dupeScore (hist ! i)) \<and>
       (\<forall>k<i. dupe_candidate self name key q hist (hist ! k) \<longrightarrow> hi_dupeScore (hist ! k) < hi_dupeScore (hist ! i))"
proof (cases "success_scan name key None hist")
  case None
  then have "\<not> (\<forall>h\<in>set hist. success_dupe name key h \<longrightarrow> \<not> marked_good h)"
    using success_scan_Some [of name key None hist] by fastforce
  then show ?thesis using None by (auto simp: best_dupe_def)
next
  case (Some r)
  note eq = candidate_above [OF Some, where self = self and q = q]
  let ?run = "foldl (backup_step name key r (foldl (queue_step self name key) None q) hist) None [0..<length hist]"
  have run: "best_dupe self name key q hist = ?run" using Some by (simp add: best_dupe_def)
  have good: "\<forall>h\<in>set hist. success_dupe name key h \<longrightarrow> \<not> marked_good h" using Some by (simp add: success_scan_Some)
  show ?thesis
  proof (cases ?run)
    case None
    then have "\<forall>h\<in>set hist. \<not> dupe_candidate self name key q hist h"
      using backups.none [THEN iffD1, OF None] by (simp only: eq)
    then show ?thesis by (simp add: run None)
  next
    case (Some i)
    show ?thesis using backups.some [OF Some] good by (simp add: run Some eq)
  qed
qed

section \<open>Examples\<close>

definition backup :: "int \<Rightarrow> int \<Rightarrow> nzb_info" where
  "backup i score = nzb_init\<lparr>nz_id := i, nz_name := Some ''show'', nz_dupeScore := score, nz_deleteStatus := dsDupe\<rparr>"

theorem best_dupe_correct_witness:
  "best_dupe None ''show'' [] [backup 4 6] [HNzb (backup 1 5) 0, HNzb (backup 2 8) 0, HNzb (backup 3 8) 0] = Some 1 \<and>
   dupe_candidate None ''show'' [] [backup 4 6] [HNzb (backup 1 5) 0, HNzb (backup 2 8) 0, HNzb (backup 3 8) 0] (HNzb (backup 2 8) 0)"
proof -
  have b: "best_dupe None ''show'' [] [backup 4 6] [HNzb (backup 1 5) 0, HNzb (backup 2 8) 0, HNzb (backup 3 8) 0] = Some 1"
    by (simp add: best_dupe_def backup_step_def queue_step_def queued_dupe_def backup_def nzb_init_def is_dupe_success_def
      same_title_def same_name_or_key_def calc_health_def calc_critical_health_def nzb_name_def Let_def upt_rec)
  with best_dupe_correct [where self = None and name = "''show''" and key = "[]" and q = "[backup 4 6]" and
      hist = "[HNzb (backup 1 5) 0, HNzb (backup 2 8) 0, HNzb (backup 3 8) 0]"]
  show ?thesis by simp
qed

end
