(* ===== verification/History.thy ===== *)
theory History
  imports DupeCheck
begin

text \<open>
  The history (\<open>daemon/queue/HistoryCoordinator.cpp\<close>) and the parts of
  \<open>daemon/queue/DupeCoordinator.cpp\<close> and \<open>QueueCoordinator.cpp\<close> that change it: adding a download with its
  parked files, hiding and removing items, returning them to the queue, and the edit actions.
  Files and directories are read through the record \<open>history_env\<close>; deleting them, messages, scripts and
  saving the queue are left out.
\<close>

section \<open>State and environment\<close>

datatype par_check = pcAuto | pcAlways | pcForce | pcManual

text \<open>\<open>he_dir\<close> lists a directory, \<open>he_size\<close> is the size of a file; \<open>None\<close> tells that there is none.
  \<open>he_load\<close> and \<open>he_loadState\<close> are \<open>LoadFile\<close> and \<open>LoadFileState\<close> of the disk state, \<open>he_parse\<close> the
  download read from an nzb-file, \<open>he_sort\<close> is \<open>std::sort\<close>.\<close>

record history_env =
  he_now :: int
  he_dir :: "cstring \<Rightarrow> cstring list option"
  he_size :: "cstring \<Rightarrow> int option"
  he_load :: "int \<Rightarrow> file_info option"
  he_loadState :: "file_info \<Rightarrow> file_info option"
  he_parse :: "cstring \<Rightarrow> nzb_info option"
  he_sort :: "file_info sorter"
  he_names :: name_options
  he_keepHistory :: int
  he_dupeCheck :: bool
  he_parCheck :: par_check
  he_reorderFiles :: bool

datatype history_event = eaNzbReturned int | eaUrlReturned int

record post_state = coordinator +
  ps_history :: "history_info list"
  ps_events :: "history_event list"

definition has_main_pars :: "history_env \<Rightarrow> nzb_info \<Rightarrow> bool" where
  "has_main_pars he nz = (case he_dir he (nz_destDir nz) of None \<Rightarrow> False | Some names \<Rightarrow> find_main_pars names \<noteq> [])"

section \<open>Adding to the history\<close>

definition parked_file :: "file_info \<Rightarrow> completed_file" where
  "parked_file fi = \<lparr>cf_id = fi_id fi, cf_filename = fi_filename fi, cf_origname = fi_origname fi, cf_status = cfNone,
     cf_crc = 0, cf_parFile = fi_parFile fi, cf_hash16k = fi_hash16k fi, cf_parSetId = fi_parSetId fi\<rparr>"

definition cleanup_parked :: "nzb_info \<Rightarrow> bool" where
  "cleanup_parked nz \<longleftrightarrow>
     (((nz_parStatus nz = psSuccess \<or> nz_parStatus nz = psRepairPossible) \<and> nz_unpackStatus nz \<noteq> usFailure \<and>
        nz_unpackStatus nz \<noteq> usSpace \<and> nz_unpackStatus nz \<noteq> usPassword) \<or>
      (nz_unpackStatus nz = usSuccess \<and> nz_parStatus nz \<noteq> psFailure) \<or>
      (nz_unpackStatus nz \<le> usSkipped \<and> nz_parStatus nz \<noteq> psFailure \<and> nz_failedSize nz - nz_parFailedSize nz = 0) \<or>
      nz_deleteStatus nz \<noteq> dsNone) \<and> \<not> nz_parking nz \<or> nz_unpackCleanedUpDisk nz"

definition counts_as_parked :: "completed_file list \<Rightarrow> nat \<Rightarrow> bool" where
  "counts_as_parked cfs k \<longleftrightarrow> cf_status (cfs ! k) = cfNone \<or> (cf_status (cfs ! k) = cfPartial \<and> k = length cfs - 1)"

definition park_files :: "nzb_info \<Rightarrow> nzb_info" where
  "park_files nz =
     foldl (\<lambda>nz fi. (update_completed_stats fi nz)\<lparr>nz_completedFiles := nz_completedFiles nz @ [parked_file fi]\<rparr>)
       nz (nz_fileList nz)"

definition history_nzb :: "nzb_info \<Rightarrow> nzb_info" where
  "history_nzb nz =
     (let nz = park_files nz;
          nz = (if cleanup_parked nz then nz\<lparr>nz_completedFiles := []\<rparr> else nz);
          cfs = nz_completedFiles nz
      in nz\<lparr>nz_parkedFileCount := int (length (filter (counts_as_parked cfs) [0..<length cfs])),
            nz_fileList := [], nz_remainingParCount := 0, nz_parking := False,
            nz_directRenameStatus := (if nz_directRenameStatus nz = tsRunning then tsFailure else nz_directRenameStatus nz),
            nz_dupeHint := dhNone\<rparr>)"

definition add_to_history :: "history_env \<Rightarrow> nat \<Rightarrow> 'a post_state_scheme \<Rightarrow> 'a post_state_scheme" where
  "add_to_history he i s =
     s\<lparr>qc_queue := del_nth i (qc_queue s), ps_history := HNzb (history_nzb (qc_queue s ! i)) (he_now he) # ps_history s\<rparr>"

section \<open>Hiding and removing\<close>

text \<open>The item without download that takes the place of one with a download.\<close>

definition hidden_status :: "nzb_info \<Rightarrow> dup_status" where
  "hidden_status nz =
     (if nz_markStatus nz = ksGood then ddGood
      else if nz_markStatus nz = ksBad then ddBad
      else if nz_markStatus nz = ksSuccess then ddSuccess
      else if nz_deleteStatus nz = dsDupe then ddDupe
      else if nz_deleteStatus nz = dsManual \<or> nz_deleteStatus nz = dsGood \<or> nz_deleteStatus nz = dsCopy then ddDeleted
      else if is_dupe_success nz then ddSuccess
      else ddFailed)"

definition dup_of :: "nzb_info \<Rightarrow> dup_info" where
  "dup_of nz = \<lparr>du_id = nz_id nz, du_name = nzb_name nz, du_dupeKey = nz_dupeKey nz, du_dupeScore = nz_dupeScore nz,
     du_dupeMode = nz_dupeMode nz, du_size = nz_size nz, du_fullContentHash = nz_fullContentHash nz,
     du_filteredContentHash = nz_filteredContentHash nz, du_status = hidden_status nz\<rparr>"

fun hidden :: "history_info \<Rightarrow> history_info" where
  "hidden (HNzb nz t) = HDup (dup_of nz) t"
| "hidden (HDup d t) = HDup d t"

definition history_hide :: "nat \<Rightarrow> nat \<Rightarrow> history_info list \<Rightarrow> history_info list" where
  "history_hide k rindex hist = hist[length hist - 1 - rindex := hidden (hist ! k)]"

text \<open>\<open>HistoryCleanup\<close> goes through the history from the end; \<open>mark\<close> is the place of the item that is
  marked as good.\<close>

definition cleanup_backup :: "cstring \<Rightarrow> cstring \<Rightarrow> history_info \<Rightarrow> bool" where
  "cleanup_backup name key h \<longleftrightarrow>
     (case h of HNzb nz _ \<Rightarrow> nz_dupeMode nz \<noteq> dmForce \<and> nz_deleteStatus nz = dsDupe \<and> same_title name key h
      | HDup _ _ \<Rightarrow> False)"

function cleanup_loop :: "nat \<Rightarrow> cstring \<Rightarrow> cstring \<Rightarrow> nat \<Rightarrow> history_info list \<Rightarrow> history_info list" where
  "cleanup_loop mark name key index hist =
     (if index < length hist
      then let k = length hist - 1 - index
           in if cleanup_backup name key (hist ! k) \<and> k \<noteq> mark
              then cleanup_loop mark name key (index + 1) (history_hide k index hist)
              else cleanup_loop mark name key (index + 1) hist
      else hist)"
  by pat_completeness auto
termination
  by (relation "measure (\<lambda>(_, _, _, index, hist). length hist - index)") (auto simp: history_hide_def)

declare cleanup_loop.simps [simp del]

definition history_cleanup :: "nat \<Rightarrow> history_info list \<Rightarrow> history_info list" where
  "history_cleanup mark hist = cleanup_loop mark (hi_name (hist ! mark)) (hi_dupeKey (hist ! mark)) 0 hist"

text \<open>\<open>ServiceWork\<close> removes the items that are too old, also from the end.\<close>

definition outdated :: "history_env \<Rightarrow> history_info \<Rightarrow> bool" where
  "outdated he h \<longleftrightarrow> hi_kind h \<noteq> hkDup \<and> hi_time h < he_now he - he_keepHistory he * 60 * 60 * 24"

function service_loop :: "history_env \<Rightarrow> nat \<Rightarrow> history_info list \<Rightarrow> history_info list" where
  "service_loop he index hist =
     (if index < length hist
      then let k = length hist - 1 - index; h = hist ! k
           in if outdated he h
              then if he_dupeCheck he \<and> hi_kind h = hkNzb
                   then service_loop he (index + 1) (history_hide k index hist)
                   else service_loop he index (del_nth k hist)
              else service_loop he (index + 1) hist
      else hist)"
  by pat_completeness auto
termination
  by (relation "measure (\<lambda>(_, index, hist). length hist - index)") (auto simp: history_hide_def del_nth_def)

declare service_loop.simps [simp del]

definition history_service :: "history_env \<Rightarrow> history_info list \<Rightarrow> history_info list" where
  "history_service he hist = service_loop he 0 hist"

definition history_delete :: "history_env \<Rightarrow> bool \<Rightarrow> nat \<Rightarrow> history_info list \<Rightarrow> history_info list" where
  "history_delete he fin k hist =
     (if fin \<or> \<not> he_dupeCheck he \<or> hi_kind (hist ! k) = hkUrl then del_nth k hist
      else if hi_kind (hist ! k) = hkNzb then history_hide k (length hist - 1 - k) hist
      else hist)"

section \<open>Back to the queue\<close>

text \<open>The fields \<open>MoveToQueue\<close> resets.\<close>

definition reset_post_status :: "bool \<Rightarrow> nzb_info \<Rightarrow> nzb_info" where
  "reset_post_status mainPars nz =
     (if nz_unpackCleanedUpDisk nz then nz
      else let nz = nz\<lparr>nz_unpackStatus := usNone, nz_directUnpackStatus := nsNone, nz_cleanupStatus := csNone,
                 nz_parRenameStatus := rsNone, nz_rarRenameStatus := rsNone,
                 nz_postTotalSec := nz_postTotalSec nz - nz_unpackSec nz, nz_unpackSec := 0\<rparr>
           in if mainPars
              then nz\<lparr>nz_parStatus := psNone, nz_postTotalSec := nz_postTotalSec nz - nz_parSec nz, nz_parSec := 0,
                      nz_repairSec := 0, nz_parFull := False\<rparr>
              else nz)"

definition returned_nzb :: "history_env \<Rightarrow> bool \<Rightarrow> nzb_info \<Rightarrow> nzb_info" where
  "returned_nzb he reprocess nz =
     (let nz = reset_post_status (has_main_pars he nz) nz
      in nz\<lparr>nz_deleteStatus := dsNone, nz_deletePaused := False, nz_markStatus := ksNone, nz_scriptStatuses := [],
            nz_parkedFileCount := 0,
            nz_moveStatus := (if nz_moveStatus nz = msFailure then msNone else nz_moveStatus nz),
            nz_reprocess := reprocess, nz_finalDir := []\<rparr>)"

text \<open>\<open>MoveToQueue\<close> up to the start of the post-processing: \<open>nz\<close> is the download of the item at \<open>k\<close>.\<close>

definition move_to_queue ::
    "history_env \<Rightarrow> bool \<Rightarrow> nat \<Rightarrow> nzb_info \<Rightarrow> 'a post_state_scheme \<Rightarrow> 'a post_state_scheme" where
  "move_to_queue he reprocess k nz s =
     s\<lparr>qc_queue := returned_nzb he reprocess nz # qc_queue s, ps_history := del_nth k (ps_history s)\<rparr>"

text \<open>\<open>CheckDupeFileInfos\<close> of the queue coordinator: of two files with the same name the smaller one is left
  out, and of two equally big ones the later one.\<close>

definition dupe_file :: "file_info list \<Rightarrow> nat \<Rightarrow> bool" where
  "dupe_file fs i \<longleftrightarrow>
     list_ex (\<lambda>j. i \<noteq> j \<and> fi_filename (fs ! i) = fi_filename (fs ! j) \<and>
        (fi_size (fs ! i) < fi_size (fs ! j) \<or> (fi_size (fs ! i) = fi_size (fs ! j) \<and> j < i)) \<and>
        length (filter (\<lambda>f. fi_filename f = fi_filename (fs ! j)) fs) = 2) [0..<length fs]"

definition check_dupe_file_infos :: "nzb_info \<Rightarrow> nzb_info" where
  "check_dupe_file_infos nz =
     (let fs = nz_fileList nz; dupes = filter (dupe_file fs) [0..<length fs]
      in set_file_list (map ((!) fs) (filter (\<lambda>i. \<not> dupe_file fs i) [0..<length fs]))
           (foldl (\<lambda>nz i. update_deleted_stats (fs ! i) nz) nz dupes))"

text \<open>The files of a download that enters the queue: \<open>NzbAdded\<close> of the pre-/post-processor pauses the
  par-files that are not needed and sorts the files.\<close>

definition pause_extra_pars :: "nzb_info \<Rightarrow> nzb_info" where
  "pause_extra_pars nz = pause_pars True [0..<length (nz_fileList nz)] nz"

definition prepare_added :: "history_env \<Rightarrow> nzb_info \<Rightarrow> nzb_info" where
  "prepare_added he nz =
     (let nz = (if he_parCheck he \<noteq> pcForce then pause_extra_pars nz else nz)
      in if he_reorderFiles he \<and> nz_deleteStatus nz = dsNone then sort_group_files (he_sort he) nz else nz)"

definition redownload_reset :: "nzb_info \<Rightarrow> nzb_info" where
  "redownload_reset nz = nz\<lparr>
     nz_moveStatus := msNone, nz_unpackCleanedUpDisk := False, nz_parStatus := psNone, nz_parRenameStatus := rsNone,
     nz_rarRenameStatus := rsNone, nz_directRenameStatus := tsNone, nz_directUnpackStatus := nsNone,
     nz_healthPaused := False, nz_downloadedSize := 0, nz_downloadSec := 0, nz_postTotalSec := 0, nz_parSec := 0,
     nz_repairSec := 0, nz_unpackSec := 0, nz_extraParBlocks := 0, nz_allFirst := False, nz_waitingPar := False,
     nz_loadingPar := False, nz_completedFiles := [], nz_serverStats := [], nz_currentServerStats := []\<rparr>"

definition pause_files :: "bool \<Rightarrow> nzb_info \<Rightarrow> nzb_info" where
  "pause_files paused nz = foldl (\<lambda>nz j. nz_file_set_paused paused j nz) nz [0..<length (nz_fileList nz)]"

text \<open>\<open>HistoryRedownload\<close>. The directory of the download has been deleted when \<open>MoveToQueue\<close> looks for
  par-files in it.\<close>

definition history_redownload ::
    "history_env \<Rightarrow> bool \<Rightarrow> nat \<Rightarrow> 'a post_state_scheme \<Rightarrow> 'a post_state_scheme" where
  "history_redownload he restorePauseState k s =
     (case ps_history s ! k of
        HDup _ _ \<Rightarrow> s
      | HNzb nz _ \<Rightarrow>
          if nz_kind nz \<noteq> nkNzb
          then (let nz = nz\<lparr>nz_urlStatus := lsNone, nz_deleteStatus := dsNone,
                      nz_dupeHint := (if nz_dupeHint nz = dhNone then dhRedownloadManual else nz_dupeHint nz)\<rparr>
                in s\<lparr>qc_queue := nz # qc_queue s, ps_history := del_nth k (ps_history s),
                     ps_events := ps_events s @ [eaUrlReturned (nz_id nz)]\<rparr>)
          else if he_size he (nz_queuedFilename nz) = None then s
          else case he_parse he (nz_queuedFilename nz) of
            None \<Rightarrow> s
          | Some new \<Rightarrow>
              let paused = (restorePauseState \<and> nz_deletePaused nz);
                  nz = redownload_reset (build_dest_dir_name (he_names he) nz);
                  nz = check_dupe_file_infos (move_file_list (pause_files paused new) nz);
                  s = move_to_queue (he\<lparr>he_dir := (he_dir he)(nz_destDir nz := None)\<rparr>) False k nz s
              in s\<lparr>qc_queue := (case qc_queue s of nz # q \<Rightarrow> prepare_added he nz # q),
                   ps_events := ps_events s @ [eaNzbReturned (nz_id nz)]\<rparr>)"

subsection \<open>Returning the best backup\<close>

text \<open>\<open>ReturnBestDupe\<close>, \<open>NzbCompleted\<close> and \<open>HistoryMark\<close> of the duplicate coordinator.\<close>

definition set_dupe_hint :: "dupe_hint \<Rightarrow> history_info \<Rightarrow> history_info" where
  "set_dupe_hint hint h = (case h of HNzb nz t \<Rightarrow> HNzb (nz\<lparr>nz_dupeHint := hint\<rparr>) t | HDup d t \<Rightarrow> HDup d t)"

definition return_best_dupe ::
    "history_env \<Rightarrow> int option \<Rightarrow> cstring \<Rightarrow> cstring \<Rightarrow> 'a post_state_scheme \<Rightarrow> 'a post_state_scheme" where
  "return_best_dupe he self name key s =
     (case best_dupe self name key (qc_queue s) (ps_history s) of
        None \<Rightarrow> s
      | Some k \<Rightarrow> history_redownload he True k
          (s\<lparr>ps_history := (ps_history s)[k := set_dupe_hint dhRedownloadAuto (ps_history s ! k)]\<rparr>))"

definition dupe_completed :: "history_env \<Rightarrow> nzb_info \<Rightarrow> 'a post_state_scheme \<Rightarrow> 'a post_state_scheme" where
  "dupe_completed he nz s =
     (if nz_dupeMode nz = dmScore \<and> \<not> is_dupe_success nz
      then return_best_dupe he (Some (nz_id nz)) (nzb_name nz) (nz_dupeKey nz) s else s)"

fun marked :: "mark_status \<Rightarrow> history_info \<Rightarrow> history_info" where
  "marked st (HNzb nz t) = (if nz_kind nz = nkNzb then HNzb (nz\<lparr>nz_markStatus := st\<rparr>) t else HNzb nz t)"
| "marked st (HDup d t) =
     HDup (d\<lparr>du_status := (if st = ksGood then ddGood else if st = ksSuccess then ddSuccess else ddBad)\<rparr>) t"

definition history_mark :: "history_env \<Rightarrow> mark_status \<Rightarrow> nat \<Rightarrow> 'a post_state_scheme \<Rightarrow> 'a post_state_scheme" where
  "history_mark he st k s =
     (if hi_kind (ps_history s ! k) = hkUrl then s
      else let h = marked st (ps_history s ! k); s = s\<lparr>ps_history := (ps_history s)[k := h]\<rparr>
           in if \<not> he_dupeCheck he \<or> hi_dupeMode h = dmForce then s
              else if st = ksGood then s\<lparr>ps_history := history_cleanup k (ps_history s)\<rparr>
              else if st = ksBad then return_best_dupe he None (hi_name h) (hi_dupeKey h) s
              else s)"

section \<open>Going through the history from the end\<close>

lemma hidden_names [simp]: "hi_name (hidden h) = hi_name h" "hi_dupeKey (hidden h) = hi_dupeKey h" "hi_id (hidden h) = hi_id h"
  by (cases h; simp add: dup_of_def)+

lemma cleanup_loop_eq:
  "cleanup_loop mark name key (length ys) (xs @ ys) =
     map (\<lambda>i. if cleanup_backup name key (xs ! i) \<and> i \<noteq> mark then hidden (xs ! i) else xs ! i) [0..<length xs] @ ys"
proof (induction xs arbitrary: ys rule: rev_induct)
  case Nil
  then show ?case by (simp add: cleanup_loop.simps)
next
  case (snoc x xs)
  let ?y = "if cleanup_backup name key x \<and> length xs \<noteq> mark then hidden x else x"
  have "cleanup_loop mark name key (length ys) ((xs @ [x]) @ ys) = cleanup_loop mark name key (length (?y # ys)) (xs @ ?y # ys)"
    by (subst cleanup_loop.simps) (auto simp: history_hide_def Let_def nth_append)
  also have "\<dots> = map (\<lambda>i. if cleanup_backup name key (xs ! i) \<and> i \<noteq> mark then hidden (xs ! i) else xs ! i) [0..<length xs] @ ?y # ys"
    by (rule snoc.IH)
  also have "\<dots> = map (\<lambda>i. if cleanup_backup name key ((xs @ [x]) ! i) \<and> i \<noteq> mark then hidden ((xs @ [x]) ! i) else (xs @ [x]) ! i)
      [0..<length (xs @ [x])] @ ys" by (simp add: nth_append)
  finally show ?case .
qed

text \<open>Marking an item as good hides all backups of the title and nothing else, although the loop replaces
  elements of the list it goes through.\<close>

theorem history_cleanup_correct:
  "history_cleanup mark hist = map (\<lambda>i. if cleanup_backup (hi_name (hist ! mark)) (hi_dupeKey (hist ! mark)) (hist ! i) \<and> i \<noteq> mark
      then hidden (hist ! i) else hist ! i) [0..<length hist]"
  using cleanup_loop_eq [of mark _ _ "[]" hist] by (simp add: history_cleanup_def)

definition after_service :: "history_env \<Rightarrow> history_info \<Rightarrow> history_info list" where
  "after_service he h =
     (if outdated he h then if he_dupeCheck he \<and> hi_kind h = hkNzb then [hidden h] else [] else [h])"

lemma service_loop_eq: "service_loop he (length ys) (xs @ ys) = concat (map (after_service he) xs) @ ys"
proof (induction xs arbitrary: ys rule: rev_induct)
  case Nil
  then show ?case by (simp add: service_loop.simps)
next
  case (snoc x xs)
  have "service_loop he (length ys) ((xs @ [x]) @ ys) =
      service_loop he (length (after_service he x @ ys)) (xs @ after_service he x @ ys)"
    by (subst service_loop.simps) (auto simp: history_hide_def del_nth_def Let_def nth_append after_service_def)
  also have "\<dots> = concat (map (after_service he) xs) @ after_service he x @ ys" by (rule snoc.IH)
  finally show ?case by simp
qed

text \<open>C17: The periodic cleaning removes or hides every item that is too old and keeps the others in their order;
  the index of the loop is right after an item was removed and after one was replaced.\<close>

theorem history_service_correct: "history_service he hist = concat (map (after_service he) hist)"
  using service_loop_eq [of he "[]" hist] by (simp add: history_service_def)

section \<open>Hidden items\<close>

text \<open>Hiding an item of a download loses nothing for later decisions: it counts as a success or as good
  exactly when the item did, and a download that was skipped for the item is skipped for the hidden one, for
  the same reason.\<close>

theorem hidden_item_counts_the_same:
  assumes "hi_kind h = hkNzb"
  shows "success_dupe name key (hidden h) = success_dupe name key h \<and> marked_good (hidden h) = marked_good h \<and>
    (\<forall>r. skip_for nz h = Some r \<longrightarrow> skip_for nz (hidden h) = Some r)"
proof -
  obtain n t where h: "h = HNzb n t" and k: "nz_kind n = nkNzb" using assms by (cases h) (auto split: if_splits)
  have "hidden_status n = ddSuccess \<or> hidden_status n = ddGood \<longleftrightarrow> is_dupe_success n" "hidden_status n = ddGood \<longleftrightarrow> nz_markStatus n = ksGood"
    by (auto simp: hidden_status_def is_dupe_success_def Let_def)
  then show ?thesis by (auto simp: h k dup_of_def same_title_def)
qed

section \<open>The counters of a download in the history\<close>

definition settles :: "counter \<Rightarrow> bool" where
  "settles c \<longleftrightarrow> c \<notin> {cRemaining, cPausedFiles, cPausedSize, cParFiles, cExtra}"

lemma settled_completed:
  "settles c \<Longrightarrow> settled (update_completed_stats fi nz) c = settled nz c + share c fi"
  "settled (nz\<lparr>nz_completedFiles := cfs\<rparr>) c = settled nz c"
  "settles c \<Longrightarrow> current (update_completed_stats fi nz) c = current nz c"
  "current (nz\<lparr>nz_completedFiles := cfs\<rparr>) c = current nz c"
  by (cases c; simp add: update_completed_stats_def Let_def stat_of_list_op settles_def)+

lemma park_files_settled:
  assumes "settles c"
  shows "settled (park_files nz) c = settled nz c + sum_list (map (share c) (nz_fileList nz))"
    "current (park_files nz) c = current nz c"
proof -
  have "settled (foldl (\<lambda>nz fi. (update_completed_stats fi nz)\<lparr>nz_completedFiles := nz_completedFiles nz @ [parked_file fi]\<rparr>) nz fs) c =
      settled nz c + sum_list (map (share c) fs) \<and>
    current (foldl (\<lambda>nz fi. (update_completed_stats fi nz)\<lparr>nz_completedFiles := nz_completedFiles nz @ [parked_file fi]\<rparr>) nz fs) c =
      current nz c" for fs
    by (induction fs arbitrary: nz) (simp_all add: settled_completed assms)
  then show "settled (park_files nz) c = settled nz c + sum_list (map (share c) (nz_fileList nz))"
    "current (park_files nz) c = current nz c"
    by (simp_all add: park_files_def)
qed

text \<open>Going to the history settles all counts of the download: the settled counters of articles, sizes and
  servers become the current ones, whether the files that are left are parked or given up.\<close>

theorem history_settles_counters:
  assumes "totals_ok nz" "settles c"
  shows "settled (history_nzb nz) c = current nz c \<and> current (history_nzb nz) c = current nz c"
proof -
  have "settled (history_nzb nz) c = settled (park_files nz) c" "current (history_nzb nz) c = current (park_files nz) c"
    using assms(2) by (cases c; simp add: history_nzb_def Let_def settles_def)+
  then show ?thesis using park_files_settled [OF assms(2)] assms(1) by (simp add: totals_ok_def)
qed

section \<open>Files with the same name\<close>

lemma filter_nth_upt: "filter P xs = map ((!) xs) (filter (\<lambda>i. P (xs ! i)) [0..<length xs])"
  by (subst map_nth [of xs, symmetric]) (simp add: filter_map comp_def)

lemma update_deleted_indices:
  "nz_fileList (foldl (\<lambda>nz i. update_deleted_stats (fs ! i) nz) nz is) = nz_fileList nz \<and>
   current (foldl (\<lambda>nz i. update_deleted_stats (fs ! i) nz) nz is) c -
     settled (foldl (\<lambda>nz i. update_deleted_stats (fs ! i) nz) nz is) c =
   current nz c - settled nz c - sum_list (map (\<lambda>i. share c (fs ! i)) is)"
proof (induction "is" arbitrary: nz)
  case (Cons i "is")
  then show ?case using update_deleted_diff [of "fs ! i" nz c] by simp
qed simp

lemma sum_list_split:
  "sum_list (map f (filter P xs)) + sum_list (map f (filter (\<lambda>x. \<not> P x) xs)) = (sum_list (map f xs) :: int)"
  by (induction xs) simp_all

lemma kept_files:
  "nz_fileList (check_dupe_file_infos nz) =
     map ((!) (nz_fileList nz)) (filter (\<lambda>i. \<not> dupe_file (nz_fileList nz) i) [0..<length (nz_fileList nz)])"
  by (simp add: check_dupe_file_infos_def Let_def)

lemma check_dupe_totals:
  assumes "totals_ok nz"
  shows "totals_ok (check_dupe_file_infos nz)"
  unfolding totals_ok_def
proof
  fix c
  let ?fs = "nz_fileList nz"
  let ?d = "filter (dupe_file ?fs) [0..<length ?fs]" and ?k = "filter (\<lambda>i. \<not> dupe_file ?fs i) [0..<length ?fs]"
  let ?nz = "foldl (\<lambda>nz i. update_deleted_stats (?fs ! i) nz) nz ?d"
  have "current nz c - settled nz c = sum_list (map (share c) (map ((!) ?fs) [0..<length ?fs]))"
    using assms by (simp add: totals_ok_def map_nth)
  also have "\<dots> = sum_list (map (\<lambda>i. share c (?fs ! i)) ?d) + sum_list (map (\<lambda>i. share c (?fs ! i)) ?k)"
    by (simp add: sum_list_split comp_def)
  finally have "current ?nz c - settled ?nz c = sum_list (map (\<lambda>i. share c (?fs ! i)) ?k)"
    using update_deleted_indices [of ?fs nz ?d c] by simp
  then show "current (check_dupe_file_infos nz) c = settled (check_dupe_file_infos nz) c +
      sum_list (map (share c) (nz_fileList (check_dupe_file_infos nz)))"
    by (simp add: check_dupe_file_infos_def Let_def comp_def)
qed

text \<open>Of two files with the same name the bigger one stays, the first one when they are equally big; names
  that occur once, or more than twice, keep all their files. The counters of the download follow.\<close>

theorem check_dupe_file_infos_correct:
  assumes "totals_ok nz"
  shows "totals_ok (check_dupe_file_infos nz) \<and>
    (\<forall>name. filter (\<lambda>f. fi_filename f = name) (nz_fileList (check_dupe_file_infos nz)) =
      (case filter (\<lambda>f. fi_filename f = name) (nz_fileList nz) of
         [a, b] \<Rightarrow> [if fi_size a < fi_size b then b else a]
       | fs \<Rightarrow> fs))"
proof (intro conjI allI)
  show "totals_ok (check_dupe_file_infos nz)" by (rule check_dupe_totals [OF assms])
next
  fix name
  let ?fs = "nz_fileList nz" and ?P = "\<lambda>f. fi_filename f = name"
  let ?is = "filter (\<lambda>i. ?P (?fs ! i)) [0..<length ?fs]"
  have new: "filter ?P (nz_fileList (check_dupe_file_infos nz)) = map ((!) ?fs) (filter (\<lambda>i. \<not> dupe_file ?fs i) ?is)"
    by (simp add: kept_files filter_map comp_def conj_commute)
  have old: "filter ?P ?fs = map ((!) ?fs) ?is" by (rule filter_nth_upt)
  show "filter ?P (nz_fileList (check_dupe_file_infos nz)) =
      (case filter ?P ?fs of [a, b] \<Rightarrow> [if fi_size a < fi_size b then b else a] | fs \<Rightarrow> fs)"
  proof (cases "length ?is = 2")
    case True
    then obtain i j where ij: "?is = [i, j]" by (auto simp: length_Suc_conv numeral_2_eq_2)
    have lt: "i < j" using sorted_wrt_filter [OF sorted_wrt_upt [of 0 "length ?fs"], of "\<lambda>i. ?P (?fs ! i)"] by (simp add: ij)
    have mem: "k \<in> {i, j} \<longleftrightarrow> k < length ?fs \<and> ?P (?fs ! k)" for k
      using arg_cong [OF ij, of set] by auto
    have two: "length (filter ?P ?fs) = 2" unfolding old ij by simp
    have names: "?P (?fs ! i)" "?P (?fs ! j)" "i < length ?fs" "j < length ?fs" using mem by auto
    have dupe: "dupe_file ?fs k \<longleftrightarrow> (\<exists>x\<in>{i, j}. k \<noteq> x \<and>
        (fi_size (?fs ! k) < fi_size (?fs ! x) \<or> (fi_size (?fs ! k) = fi_size (?fs ! x) \<and> x < k)))"
      if k: "fi_filename (?fs ! k) = name" for k
    proof -
      have "dupe_file ?fs k \<longleftrightarrow> (\<exists>x. (x < length ?fs \<and> ?P (?fs ! x)) \<and> k \<noteq> x \<and>
        (fi_size (?fs ! k) < fi_size (?fs ! x) \<or> (fi_size (?fs ! k) = fi_size (?fs ! x) \<and> x < k)))"
        unfolding dupe_file_def list_ex_iff set_upt atLeastLessThan_iff using k two by (intro iffI; elim bexE exE) auto
      then show ?thesis by (simp only: mem Bex_def)
    qed
    have "dupe_file ?fs i \<longleftrightarrow> fi_size (?fs ! i) < fi_size (?fs ! j)"
      unfolding dupe [OF names(1)] using lt by simp
    moreover have "dupe_file ?fs j \<longleftrightarrow> fi_size (?fs ! j) \<le> fi_size (?fs ! i)"
      unfolding dupe [OF names(2)] using lt by (auto simp: order.order_iff_strict)
    ultimately show ?thesis unfolding new old ij by simp
  next
    case False
    then have "length (filter ?P ?fs) \<noteq> 2" unfolding old by simp
    then have "\<not> dupe_file ?fs i" if "i \<in> set ?is" for i
      using that by (auto simp: dupe_file_def list_ex_iff)
    then have "filter (\<lambda>i. \<not> dupe_file ?fs i) ?is = ?is" by (intro filter_True ballI)
    moreover have "(case filter ?P ?fs of [a, b] \<Rightarrow> [if fi_size a < fi_size b then b else a] | fs \<Rightarrow> fs) = filter ?P ?fs"
      using \<open>length (filter ?P ?fs) \<noteq> 2\<close> by (auto split: list.splits)
    ultimately show ?thesis unfolding new by (simp add: old)
  qed
qed

section \<open>Trying articles again\<close>

text \<open>\<open>ResetArticles\<close>: \<open>allFailed\<close> for a file whose articles all failed, \<open>resetFailed\<close> when failed articles are
  tried again.\<close>

definition reset_wanted :: "bool \<Rightarrow> bool \<Rightarrow> partial_state \<Rightarrow> article_info \<Rightarrow> bool" where
  "reset_wanted allFailed resetFailed partial a \<longleftrightarrow>
     (ai_status a = aiFailed \<and> (resetFailed \<or> partial = fpNone)) \<or>
     (ai_status a = aiUndefined \<and> resetFailed \<and> allFailed) \<or>
     (ai_status a = aiFinished \<and> partial = fpNone)"

definition reset_article :: "article_info \<Rightarrow> article_info" where
  "reset_article a = a\<lparr>ai_status := aiUndefined, ai_crc := 0, ai_segmentOffset := 0, ai_segmentSize := 0\<rparr>"

lemma ai_size_reset [simp]: "ai_size (reset_article a) = ai_size a"
  by (simp add: reset_article_def)

definition reset_step :: "bool \<Rightarrow> bool \<Rightarrow> file_info \<Rightarrow> nat \<Rightarrow> file_info" where
  "reset_step allFailed resetFailed fi k =
     (let a = fi_articles fi ! k
      in if reset_wanted allFailed resetFailed (fi_partialState fi) a
         then (let fi = fi\<lparr>fi_completedArticles := fi_completedArticles fi - 1,
                         fi_remainingSize := fi_remainingSize fi + ai_size a\<rparr>;
                   fi = (if ai_status a = aiFailed \<or> ai_status a = aiUndefined
                         then fi\<lparr>fi_failedArticles := fi_failedArticles fi - 1, fi_failedSize := fi_failedSize fi - ai_size a\<rparr>
                         else if ai_status a = aiFinished
                         then fi\<lparr>fi_successArticles := fi_successArticles fi - 1,
                                 fi_successSize := fi_successSize fi - ai_size a\<rparr>
                         else fi)
               in fi\<lparr>fi_articles := (fi_articles fi)[k := reset_article a]\<rparr>)
         else fi)"

definition all_failed_file :: "file_info \<Rightarrow> file_info" where
  "all_failed_file fi = fi\<lparr>
     fi_failedSize := fi_size fi - fi_missedSize fi,
     fi_failedArticles := fi_totalArticles fi - fi_missedArticles fi,
     fi_remainingSize := 0,
     fi_completedArticles := fi_totalArticles fi - fi_missedArticles fi\<rparr>"

definition unsettle_file :: "file_info \<Rightarrow> nzb_info \<Rightarrow> nzb_info" where
  "unsettle_file fi nz =
     (let nz = nz\<lparr>
            nz_serverStats := list_op (fi_serverStats fi) soSubtract (nz_serverStats nz),
            nz_failedSize := nz_failedSize nz - fi_failedSize fi,
            nz_successSize := nz_successSize nz - fi_successSize fi,
            nz_failedArticles := nz_failedArticles nz - fi_failedArticles fi,
            nz_successArticles := nz_successArticles nz - fi_successArticles fi\<rparr>
      in if fi_parFile fi
         then nz\<lparr>nz_parFailedSize := nz_parFailedSize nz - fi_failedSize fi,
                 nz_parSuccessSize := nz_parSuccessSize nz - fi_successSize fi\<rparr> else nz)"

definition reset_articles :: "bool \<Rightarrow> bool \<Rightarrow> file_info \<Rightarrow> nzb_info \<Rightarrow> file_info \<times> nzb_info" where
  "reset_articles allFailed resetFailed fi nz =
     (let fi = (if allFailed then all_failed_file fi else fi)
      in (foldl (reset_step allFailed resetFailed) fi [0..<length (fi_articles fi)], unsettle_file fi nz))"

text \<open>The counts of a file are those of its articles.\<close>

abbreviation tally :: "(article_info \<Rightarrow> bool) \<Rightarrow> article_info list \<Rightarrow> int" where
  "tally P as \<equiv> sum_list (map (\<lambda>a. of_flag (P a)) as)"

abbreviation volume :: "(article_info \<Rightarrow> bool) \<Rightarrow> article_info list \<Rightarrow> int" where
  "volume P as \<equiv> sum_list (map (\<lambda>a. if P a then ai_size a else 0) as)"

definition failed :: "article_info \<Rightarrow> bool" where "failed a \<longleftrightarrow> ai_status a = aiFailed"
definition finished :: "article_info \<Rightarrow> bool" where "finished a \<longleftrightarrow> ai_status a = aiFinished"

definition file_counts_ok :: "file_info \<Rightarrow> bool" where
  "file_counts_ok fi \<longleftrightarrow>
     (let as = fi_articles fi
      in fi_failedArticles fi = tally failed as \<and> fi_failedSize fi = volume failed as \<and>
         fi_successArticles fi = tally finished as \<and> fi_successSize fi = volume finished as \<and>
         fi_completedArticles fi = tally (\<lambda>a. failed a \<or> finished a) as \<and>
         fi_remainingSize fi = volume (\<lambda>a. \<not> failed a \<and> \<not> finished a) as)"

text \<open>A file read from disk without its state: no article was tried.\<close>

definition untried :: "file_info \<Rightarrow> bool" where
  "untried fi \<longleftrightarrow> list_all (\<lambda>a. ai_status a = aiUndefined) (fi_articles fi) \<and>
     fi_successArticles fi = 0 \<and> fi_successSize fi = 0 \<and>
     fi_totalArticles fi = fi_missedArticles fi + int (length (fi_articles fi)) \<and>
     fi_size fi = fi_missedSize fi + sum_list (map ai_size (fi_articles fi))"

definition reset_lost :: "bool \<Rightarrow> bool \<Rightarrow> partial_state \<Rightarrow> article_info \<Rightarrow> bool" where
  "reset_lost af rf partial a \<longleftrightarrow> reset_wanted af rf partial a \<and> \<not> finished a"

lemma reset_steps:
  fixes fi :: file_info and af rf :: bool
  assumes "n \<le> length (fi_articles fi)"
  defines "W \<equiv> reset_wanted af rf (fi_partialState fi)"
  shows "foldl (reset_step af rf) fi [0..<n] = fi\<lparr>
    fi_completedArticles := fi_completedArticles fi - tally W (take n (fi_articles fi)),
    fi_remainingSize := fi_remainingSize fi + volume W (take n (fi_articles fi)),
    fi_failedArticles := fi_failedArticles fi - tally (\<lambda>a. W a \<and> \<not> finished a) (take n (fi_articles fi)),
    fi_failedSize := fi_failedSize fi - volume (\<lambda>a. W a \<and> \<not> finished a) (take n (fi_articles fi)),
    fi_successArticles := fi_successArticles fi - tally (\<lambda>a. W a \<and> finished a) (take n (fi_articles fi)),
    fi_successSize := fi_successSize fi - volume (\<lambda>a. W a \<and> finished a) (take n (fi_articles fi)),
    fi_articles := map (\<lambda>a. if W a then reset_article a else a) (take n (fi_articles fi)) @ drop n (fi_articles fi)\<rparr>"
  using assms(1)
proof (induction n)
  case (Suc n)
  then have IH: "foldl (reset_step af rf) fi [0..<n] = fi\<lparr>
    fi_completedArticles := fi_completedArticles fi - tally W (take n (fi_articles fi)),
    fi_remainingSize := fi_remainingSize fi + volume W (take n (fi_articles fi)),
    fi_failedArticles := fi_failedArticles fi - tally (\<lambda>a. W a \<and> \<not> finished a) (take n (fi_articles fi)),
    fi_failedSize := fi_failedSize fi - volume (\<lambda>a. W a \<and> \<not> finished a) (take n (fi_articles fi)),
    fi_successArticles := fi_successArticles fi - tally (\<lambda>a. W a \<and> finished a) (take n (fi_articles fi)),
    fi_successSize := fi_successSize fi - volume (\<lambda>a. W a \<and> finished a) (take n (fi_articles fi)),
    fi_articles := map (\<lambda>a. if W a then reset_article a else a) (take n (fi_articles fi)) @ drop n (fi_articles fi)\<rparr>" by simp
  have n: "n < length (fi_articles fi)" using Suc.prems by simp
  have dr: "drop n (fi_articles fi) = fi_articles fi ! n # drop (Suc n) (fi_articles fi)" using n by (simp add: Cons_nth_drop_Suc)
  have at: "(map (\<lambda>a. if W a then reset_article a else a) (take n (fi_articles fi)) @ fi_articles fi ! n # ys) ! n = fi_articles fi ! n" for ys
    using n by (simp add: nth_append)
  have st: "reset_wanted af rf p a \<Longrightarrow> ai_status a = aiFailed \<or> ai_status a = aiUndefined \<or> ai_status a = aiFinished" for p a
    by (auto simp: reset_wanted_def)
  have "foldl (reset_step af rf) fi [0..<Suc n] = reset_step af rf (foldl (reset_step af rf) fi [0..<n]) n" by simp
  note step = this [unfolded IH]
  show ?case
  proof (cases "W (fi_articles fi ! n)")
    case True
    then show ?thesis unfolding step using n st [of "fi_partialState fi" "fi_articles fi ! n"]
      by (cases "ai_status (fi_articles fi ! n)")
         (simp_all add: reset_step_def at Let_def take_Suc_conv_app_nth finished_def W_def [symmetric] dr list_update_append)
  next
    case False
    then show ?thesis unfolding step using n by (simp add: reset_step_def at Let_def take_Suc_conv_app_nth W_def [symmetric] dr)
  qed
qed simp

lemma sum_list_diffI:
  "(\<And>a. a \<in> set as \<Longrightarrow> f a - g a = (h a :: int)) \<Longrightarrow> sum_list (map f as) - sum_list (map g as) = sum_list (map h as)"
  "(\<And>a. a \<in> set as \<Longrightarrow> f a + g a = (h a :: int)) \<Longrightarrow> sum_list (map f as) + sum_list (map g as) = sum_list (map h as)"
  by (induction as) fastforce+

lemma tally_all:
  "\<forall>a\<in>set as. P a \<Longrightarrow> tally P as = int (length as) \<and> volume P as = sum_list (map ai_size as)"
  by (induction as) simp_all

lemma tally_none:
  "\<forall>a\<in>set as. \<not> P a \<Longrightarrow> tally P as = 0 \<and> volume P as = 0"
  by (induction as) simp_all

text \<open>C16: After \<open>ResetArticles\<close> the counts of the file are again those of its articles, both for a file read with
  its state and for one whose articles all failed. Without a partial file on disk all articles are to be
  downloaded; with one the finished articles stay, and the failed ones stay unless they are tried again.\<close>

theorem reset_articles_correct:
  assumes "if allFailed then resetFailed \<and> untried fi else file_counts_ok fi"
    and "reset_articles allFailed resetFailed fi nz = (fi', nz')"
  shows "file_counts_ok fi' \<and> map ai_size (fi_articles fi') = map ai_size (fi_articles fi) \<and>
    map ai_status (fi_articles fi') = map (\<lambda>a.
      if ai_status a = aiRunning \<or> (ai_status a = aiFinished \<and> fi_partialState fi \<noteq> fpNone) \<or>
         (ai_status a = aiFailed \<and> fi_partialState fi \<noteq> fpNone \<and> \<not> resetFailed)
      then ai_status a else aiUndefined) (fi_articles fi)"
proof -
  define gi where "gi = (if allFailed then all_failed_file fi else fi)"
  have gi: "fi_articles gi = fi_articles fi" "fi_partialState gi = fi_partialState fi" by (simp_all add: gi_def all_failed_file_def)
  let ?W = "reset_wanted allFailed resetFailed (fi_partialState fi)"
  have fi': "fi' = foldl (reset_step allFailed resetFailed) gi [0..<length (fi_articles gi)]"
    using assms(2) by (simp add: reset_articles_def Let_def gi_def split: if_splits)
  note run = reset_steps [OF order_refl, of allFailed resetFailed gi, folded fi', unfolded gi take_all [OF order_refl] drop_all [OF order_refl] append_Nil2]
  have arts: "fi_articles fi' = map (\<lambda>a. if ?W a then reset_article a else a) (fi_articles fi)" unfolding run by simp
  have "map ai_status (fi_articles fi') = map (\<lambda>a.
      if ai_status a = aiRunning \<or> (ai_status a = aiFinished \<and> fi_partialState fi \<noteq> fpNone) \<or>
         (ai_status a = aiFailed \<and> fi_partialState fi \<noteq> fpNone \<and> \<not> resetFailed)
      then ai_status a else aiUndefined) (fi_articles fi)"
    unfolding arts map_map comp_def
    by (rule map_cong [OF refl], rename_tac a, case_tac "ai_status a") (auto simp: reset_wanted_def reset_article_def)
  moreover have "map ai_size (fi_articles fi') = map ai_size (fi_articles fi)"
    unfolding arts by (simp add: reset_article_def comp_def cong: if_cong)
  moreover have "file_counts_ok fi'"
  proof (cases allFailed)
    case True
    then have u: "untried fi" and r: "resetFailed" using assms(1) by simp_all
    then have W: "?W a" "\<not> finished a" "\<not> failed a" if "a \<in> set (fi_articles fi)" for a
      using that True by (auto simp: untried_def list_all_iff reset_wanted_def finished_def failed_def)
    let ?new = "map (\<lambda>a. if ?W a then reset_article a else a) (fi_articles fi)"
    have new: "\<forall>a\<in>set ?new. \<not> finished a" "\<forall>a\<in>set ?new. \<not> failed a" "\<forall>a\<in>set ?new. \<not> failed a \<and> \<not> finished a"
      "\<forall>a\<in>set ?new. \<not> (failed a \<or> finished a)"
      using W by (auto simp: reset_article_def finished_def failed_def)
    have sz: "sum_list (map ai_size ?new) = sum_list (map ai_size (fi_articles fi))"
      by (simp add: comp_def if_distrib [of ai_size] cong: if_cong)
    have old: "\<forall>a\<in>set (fi_articles fi). ?W a" "\<forall>a\<in>set (fi_articles fi). ?W a \<and> \<not> finished a"
      "\<forall>a\<in>set (fi_articles fi). \<not> (?W a \<and> finished a)" using W by auto
    show ?thesis
      unfolding file_counts_ok_def Let_def run
      using u True tally_none [OF new(1)] tally_none [OF new(2)] tally_all [OF new(3)] tally_none [OF new(4)]
        tally_all [OF old(1)] tally_all [OF old(2)] tally_none [OF old(3)] sz
      by (simp add: gi_def all_failed_file_def untried_def)
  next
    case False
    then have g: "gi = fi" and c: "file_counts_ok fi" using assms(1) by (simp_all add: gi_def)
    note d = reset_wanted_def reset_article_def finished_def failed_def
    let ?r = "\<lambda>a. if ?W a then reset_article a else a" and ?as = "fi_articles fi"
    have "tally failed ?as - tally (\<lambda>a. ?W a \<and> \<not> finished a) ?as = tally failed (map ?r ?as)"
      "volume failed ?as - volume (\<lambda>a. ?W a \<and> \<not> finished a) ?as = volume failed (map ?r ?as)"
      "tally finished ?as - tally (\<lambda>a. ?W a \<and> finished a) ?as = tally finished (map ?r ?as)"
      "volume finished ?as - volume (\<lambda>a. ?W a \<and> finished a) ?as = volume finished (map ?r ?as)"
      "tally (\<lambda>a. failed a \<or> finished a) ?as - tally ?W ?as = tally (\<lambda>a. failed a \<or> finished a) (map ?r ?as)"
      unfolding map_map comp_def by (rule sum_list_diffI; use False in \<open>auto simp: d\<close>)+
    moreover have "volume (\<lambda>a. \<not> failed a \<and> \<not> finished a) ?as + volume ?W ?as =
        volume (\<lambda>a. \<not> failed a \<and> \<not> finished a) (map ?r ?as)"
      unfolding map_map comp_def by (rule sum_list_diffI(2)) (use False in \<open>auto simp: d\<close>)
    ultimately show ?thesis
      unfolding file_counts_ok_def Let_def run g using c [unfolded file_counts_ok_def Let_def] by simp
  qed
  ultimately show ?thesis by blast
qed

section \<open>Editing items\<close>

definition history_set_parameter :: "cstring \<Rightarrow> history_info \<Rightarrow> history_info \<times> bool" where
  "history_set_parameter txt h =
     (case h of HNzb nz t \<Rightarrow> (HNzb (set_nzb_parameter txt nz) t, True) | HDup d t \<Rightarrow> (HDup d t, False))"

definition history_set_category :: "cstring \<Rightarrow> history_info \<Rightarrow> history_info \<times> bool" where
  "history_set_category txt h =
     (case h of HNzb nz t \<Rightarrow> (HNzb (nz\<lparr>nz_category := txt\<rparr>) t, True) | HDup d t \<Rightarrow> (HDup d t, False))"

definition history_set_name :: "cstring \<Rightarrow> history_info \<Rightarrow> history_info \<times> bool" where
  "history_set_name txt h =
     (if txt = [] then (h, False)
      else (case h of HNzb nz t \<Rightarrow> HNzb (nz\<lparr>nz_name := Some txt\<rparr>) t | HDup d t \<Rightarrow> HDup (d\<lparr>du_name := txt\<rparr>) t, True))"

datatype history_dupe_setting = hsDupeKey | hsDupeScore | hsDupeMode | hsDupeBackup

definition parse_dupe_mode :: "cstring \<Rightarrow> dupe_mode option" where
  "parse_dupe_mode txt =
     (if strcase_eq txt ''SCORE'' then Some dmScore
      else if strcase_eq txt ''ALL'' then Some dmAll
      else if strcase_eq txt ''FORCE'' then Some dmForce
      else None)"

definition is_yes :: "cstring \<Rightarrow> bool" where
  "is_yes txt \<longleftrightarrow> strcase_eq txt ''YES'' \<or> strcase_eq txt ''TRUE'' \<or> txt = ''1''"

definition history_set_dupe_param :: "history_dupe_setting \<Rightarrow> cstring \<Rightarrow> history_info \<Rightarrow> history_info" where
  "history_set_dupe_param action txt h =
     (case action of
        hsDupeKey \<Rightarrow> (case h of HNzb nz t \<Rightarrow> HNzb (nz\<lparr>nz_dupeKey := txt\<rparr>) t | HDup d t \<Rightarrow> HDup (d\<lparr>du_dupeKey := txt\<rparr>) t)
      | hsDupeScore \<Rightarrow> (case h of HNzb nz t \<Rightarrow> HNzb (nz\<lparr>nz_dupeScore := atoi_c txt\<rparr>) t
                       | HDup d t \<Rightarrow> HDup (d\<lparr>du_dupeScore := atoi_c txt\<rparr>) t)
      | hsDupeMode \<Rightarrow> (case parse_dupe_mode txt of
                         None \<Rightarrow> h
                       | Some mode \<Rightarrow> (case h of HNzb nz t \<Rightarrow> HNzb (nz\<lparr>nz_dupeMode := mode\<rparr>) t
                                      | HDup d t \<Rightarrow> HDup (d\<lparr>du_dupeMode := mode\<rparr>) t))
      | hsDupeBackup \<Rightarrow> (case h of
            HNzb nz t \<Rightarrow> if nz_kind nz = nkNzb \<and> (nz_deleteStatus nz = dsDupe \<or> nz_deleteStatus nz = dsManual)
                         then HNzb (nz\<lparr>nz_deleteStatus := (if is_yes txt then dsDupe else dsManual)\<rparr>) t else h
          | HDup d t \<Rightarrow> h))"

section \<open>Examples\<close>

theorem hidden_item_counts_the_same_witness:
  "success_dupe ''show'' [] (hidden (HNzb (nzb_init\<lparr>nz_name := Some ''Show'', nz_markStatus := ksGood\<rparr>) 7))"
proof -
  let ?h = "HNzb (nzb_init\<lparr>nz_name := Some ''Show'', nz_markStatus := ksGood\<rparr>) 7"
  have "strcase_eq ''Show'' ''show''" by code_simp
  then have "success_dupe ''show'' [] ?h"
    by (simp add: nzb_init_def is_dupe_success_def same_title_def same_name_or_key_def nzb_name_def)
  moreover have "hi_kind ?h = hkNzb" by (simp add: nzb_init_def)
  ultimately show ?thesis using hidden_item_counts_the_same [of ?h] by blast
qed

theorem history_settles_counters_witness:
  "settled (history_nzb (nzb_init\<lparr>nz_currentSuccessSize := 5, nz_fileList := [file_init\<lparr>fi_successSize := 5\<rparr>]\<rparr>)) cSuccessSize = 5"
proof -
  let ?nz = "nzb_init\<lparr>nz_currentSuccessSize := 5, nz_fileList := [file_init\<lparr>fi_successSize := 5\<rparr>]\<rparr>"
  have "current ?nz c = settled ?nz c + sum_list (map (share c) (nz_fileList ?nz))" for c
    by (cases c) (simp_all add: nzb_init_def file_init_def stat_total_def)
  then have "totals_ok ?nz" by (simp add: totals_ok_def)
  moreover have "settles cSuccessSize" by (simp add: settles_def)
  ultimately show ?thesis using history_settles_counters [of ?nz cSuccessSize] by simp
qed

theorem check_dupe_file_infos_correct_witness:
  "\<exists>a b c. filter (\<lambda>f. fi_filename f = ''x'') (nz_fileList (check_dupe_file_infos
      (nzb_init\<lparr>nz_fileList := [a, c, b], nz_remainingSize := 0\<rparr>))) = [b] \<and> fi_size a < fi_size b \<and> a \<noteq> b"
proof -
  let ?a = "file_init\<lparr>fi_filename := ''x'', fi_size := 1\<rparr>" and ?b = "file_init\<lparr>fi_filename := ''x'', fi_size := 2\<rparr>"
  let ?c = "file_init\<lparr>fi_filename := ''y'', fi_size := 9\<rparr>"
  let ?nz = "nzb_init\<lparr>nz_fileList := [?a, ?c, ?b], nz_remainingSize := 0\<rparr>"
  have "current ?nz c = settled ?nz c + sum_list (map (share c) (nz_fileList ?nz))" for c
    by (cases c) (simp_all add: nzb_init_def file_init_def stat_total_def)
  then have "totals_ok ?nz" by (simp add: totals_ok_def)
  from check_dupe_file_infos_correct [OF this]
  have "filter (\<lambda>f. fi_filename f = ''x'') (nz_fileList (check_dupe_file_infos ?nz)) = [?b]" by simp
  moreover have "fi_size ?a < fi_size ?b" "?a \<noteq> ?b" by (simp_all add: file_init_def)
  ultimately show ?thesis by (intro exI [of _ ?a] exI [of _ ?b] exI [of _ ?c] conjI)
qed

definition tried_article :: "article_status \<Rightarrow> article_info" where
  "tried_article st = \<lparr>ai_partNumber = 1, ai_messageId = [], ai_size = 10, ai_segmentContent = None, ai_segmentOffset = 0,
     ai_segmentSize = 0, ai_crc = 0, ai_status = st, ai_resultFilename = []\<rparr>"

theorem reset_articles_correct_witness:
  "\<exists>fi' nz'. reset_articles False True (file_init\<lparr>fi_partialState := fpCompleted,
       fi_articles := [tried_article aiFailed, tried_article aiFinished], fi_failedArticles := 1, fi_failedSize := 10,
       fi_successArticles := 1, fi_successSize := 10, fi_completedArticles := 2\<rparr>) nzb_init = (fi', nz') \<and>
     file_counts_ok fi' \<and> map ai_status (fi_articles fi') = [aiUndefined, aiFinished]"
proof -
  let ?fi = "file_init\<lparr>fi_partialState := fpCompleted,
       fi_articles := [tried_article aiFailed, tried_article aiFinished], fi_failedArticles := 1, fi_failedSize := 10,
       fi_successArticles := 1, fi_successSize := 10, fi_completedArticles := 2\<rparr>"
  obtain fi' nz' where r: "reset_articles False True ?fi nzb_init = (fi', nz')" by fastforce
  have "file_counts_ok ?fi"
    by (simp add: file_counts_ok_def failed_def finished_def tried_article_def file_init_def)
  then have "if False then True \<and> untried ?fi else file_counts_ok ?fi" by simp
  from reset_articles_correct [OF this r] have "file_counts_ok fi'" "map ai_status (fi_articles fi') = [aiUndefined, aiFinished]"
    by (simp_all add: tried_article_def)
  with r show ?thesis by (intro exI [of _ fi'] exI [of _ nz'] conjI)
qed

end
