(* ===== verification/TextUtil.thy ===== *)
theory TextUtil
  imports Prelude
begin

text \<open>
  Text helpers of \<open>daemon/util/Util.cpp\<close>: trimming, the tokenizer, command lines, and the wild card
  masks with the positions of their matches. A C string holds no NUL.
\<close>

section \<open>Trimming and tokens\<close>

definition is_blank :: "char \<Rightarrow> bool" where
  "is_blank c \<longleftrightarrow> c = lf \<or> c = cr \<or> c = CHR '' '' \<or> c = tab"

definition trim_right :: "cstring \<Rightarrow> cstring" where
  "trim_right s = rev (dropWhile is_blank (rev s))"

definition trim :: "cstring \<Rightarrow> cstring" where
  "trim s = dropWhile is_blank (trim_right s)"

text \<open>\<open>strtok_r\<close>: the next piece between separators that is not empty, and what follows the separator
  after it. \<open>Tokenizer::Next\<close> goes on while the piece is blank.\<close>

definition strtok :: "cstring \<Rightarrow> cstring \<Rightarrow> (cstring \<times> cstring) option" where
  "strtok seps s =
     (let s = dropWhile (\<lambda>c. c \<in> set seps) s
      in if s = [] then None
         else Some (takeWhile (\<lambda>c. c \<notin> set seps) s, tl (dropWhile (\<lambda>c. c \<notin> set seps) s)))"

lemma strtok_shorter: "strtok seps s = Some (t, r) \<Longrightarrow> length r < length s"
proof -
  assume a: "strtok seps s = Some (t, r)"
  define s' where "s' = dropWhile (\<lambda>c. c \<in> set seps) s"
  have s': "s' \<noteq> []" "r = tl (dropWhile (\<lambda>c. c \<notin> set seps) s')"
    using a by (auto simp: strtok_def s'_def Let_def split: if_splits)
  have "length r = length (dropWhile (\<lambda>c. c \<notin> set seps) s') - 1" using s' by simp
  moreover have "length (dropWhile (\<lambda>c. c \<notin> set seps) s') \<le> length s'" by (rule length_dropWhile_le)
  moreover have "length s' \<le> length s" unfolding s'_def by (rule length_dropWhile_le)
  moreover have "length s' > 0" using s' by simp
  ultimately show ?thesis by linarith
qed

function next_token :: "cstring \<Rightarrow> cstring \<Rightarrow> (cstring \<times> cstring) option" where
  "next_token seps s =
     (case strtok seps s of
        None \<Rightarrow> None
      | Some (t, r) \<Rightarrow> if trim t = [] then next_token seps r else Some (trim t, r))"
  by pat_completeness auto
termination by (relation "measure (length \<circ> snd)") (auto dest: strtok_shorter)

declare next_token.simps [simp del]

lemma next_token_shorter: "next_token seps s = Some (t, r) \<Longrightarrow> length r < length s"
proof (induction seps s rule: next_token.induct)
  case (1 seps s)
  show ?case
  proof (cases "strtok seps s")
    case None
    then show ?thesis using "1.prems" by (simp add: next_token.simps)
  next
    case (Some p)
    obtain t' r' where p: "p = (t', r')" by fastforce
    have l: "length r' < length s" using strtok_shorter Some p by simp
    show ?thesis
      using "1.IH" [OF Some p [symmetric]] "1.prems" Some p l by (auto simp: next_token.simps [of seps s] split: if_splits)
  qed
qed

text \<open>All tokens of a text, as a loop over \<open>Next\<close> gets them (\<open>Util::SplitStr\<close>).\<close>

function tokens :: "cstring \<Rightarrow> cstring \<Rightarrow> cstring list" where
  "tokens seps s = (case next_token seps s of None \<Rightarrow> [] | Some (t, r) \<Rightarrow> t # tokens seps r)"
  by pat_completeness auto
termination by (relation "measure (length \<circ> snd)") (auto dest: next_token_shorter)

declare tokens.simps [simp del]

text \<open>The reference: the text cut at every separator.\<close>

fun pieces :: "(char \<Rightarrow> bool) \<Rightarrow> cstring \<Rightarrow> cstring list" where
  "pieces sep [] = [[]]"
| "pieces sep (c # s) = (if sep c then [] # pieces sep s else (case pieces sep s of p # ps \<Rightarrow> (c # p) # ps))"

abbreviation words :: "cstring \<Rightarrow> cstring \<Rightarrow> cstring list" where
  "words seps s \<equiv> filter (\<lambda>w. w \<noteq> []) (map trim (pieces (\<lambda>c. c \<in> set seps) s))"

lemma trim_Nil [simp]: "trim [] = []"
  by (simp add: trim_def trim_right_def)

lemma pieces_nonempty: "pieces sep s \<noteq> []"
  by (induction s) (auto split: list.split)

lemma pieces_skip: "words seps (dropWhile (\<lambda>c. c \<in> set seps) s) = words seps s"
  by (induction s) auto

lemma pieces_first:
  "pieces sep s = takeWhile (\<lambda>c. \<not> sep c) s #
     (if dropWhile (\<lambda>c. \<not> sep c) s = [] then [] else pieces sep (tl (dropWhile (\<lambda>c. \<not> sep c) s)))"
  by (induction s) (auto split: if_splits)

lemma words_strtok:
  "words seps s = (case strtok seps s of None \<Rightarrow> []
     | Some (t, r) \<Rightarrow> (if trim t = [] then [] else [trim t]) @ words seps r)"
proof -
  define s' where "s' = dropWhile (\<lambda>c. c \<in> set seps) s"
  have "words seps s = words seps s'" unfolding s'_def by (rule pieces_skip [symmetric])
  also have "words seps s' = (if s' = [] then [] else
      (if trim (takeWhile (\<lambda>c. c \<notin> set seps) s') = [] then [] else [trim (takeWhile (\<lambda>c. c \<notin> set seps) s')])
        @ words seps (tl (dropWhile (\<lambda>c. c \<notin> set seps) s')))"
    using pieces_first [of "\<lambda>c. c \<in> set seps" s']
    by (cases "s' = []"; cases "dropWhile (\<lambda>c. c \<notin> set seps) s'") (simp_all del: dropWhile_eq_Nil_conv)
  finally show ?thesis by (simp add: strtok_def s'_def [symmetric] Let_def)
qed

lemma words_next_token:
  "words seps s = (case next_token seps s of None \<Rightarrow> [] | Some (t, r) \<Rightarrow> t # words seps r)"
proof (induction seps s rule: next_token.induct)
  case (1 seps s)
  show ?case
  proof (cases "strtok seps s")
    case None
    then show ?thesis using words_strtok [of seps s] by (simp add: next_token.simps [of seps s])
  next
    case (Some p)
    obtain t r where p: "p = (t, r)" by fastforce
    show ?thesis
      using words_strtok [of seps s] "1.IH" [OF Some p [symmetric]] Some p by (auto simp: next_token.simps [of seps s])
  qed
qed

text \<open>The tokens of a text are its pieces between separators, trimmed, without the blank ones, in order.\<close>

theorem tokens_correct: "tokens seps s = words seps s"
proof (induction seps s rule: tokens.induct)
  case (1 seps s)
  then show ?case using words_next_token [of seps s]
    by (simp add: tokens.simps [of seps s] split: option.splits prod.splits)
qed


section \<open>Command lines\<close>

text \<open>\<open>SplitCommandLine\<close>: the loop over the characters with its buffer of 1024 bytes and its two flags.\<close>

abbreviation command_room :: "cstring \<Rightarrow> bool" where
  "command_room buf \<equiv> length buf < 1023"

fun add_token :: "bool \<Rightarrow> cstring \<Rightarrow> cstring list" where
  "add_token space buf = (if space \<and> buf \<noteq> [] then [buf] else [])"

function split_loop :: "bool \<Rightarrow> bool \<Rightarrow> cstring \<Rightarrow> cstring \<Rightarrow> cstring list" where
  "split_loop escaping space buf [] = add_token True buf"
| "split_loop escaping space buf (c # p) =
     (if escaping
      then if c = squote
           then if peek p = squote \<and> command_room buf
                then split_loop True space (buf @ [c]) (tl p)
                else add_token True buf @ split_loop False True [] p
           else split_loop True space (if command_room buf then buf @ [c] else buf) p
      else if c = CHR '' '' then add_token True buf @ split_loop False True [] p
      else if c = squote \<and> space then split_loop True False buf p
      else if command_room buf then split_loop False False (buf @ [c]) p
      else add_token space buf @ split_loop False space (if space then [] else buf) p)"
  by pat_completeness auto
termination by (relation "measure (\<lambda>(_, _, _, p). length p)") auto

definition split_command_line :: "cstring \<Rightarrow> cstring list" where
  "split_command_line s = split_loop False True [] s"

text \<open>The way to write an argument so that it is read back: in single quotes, with those inside doubled.\<close>

definition quoted_arg :: "cstring \<Rightarrow> cstring" where
  "quoted_arg a = squote # concat (map (\<lambda>c. if c = squote then [squote, squote] else [c]) a) @ [squote]"

lemma split_quoted:
  "length buf + length a \<le> 1023 \<Longrightarrow> buf @ a \<noteq> [] \<Longrightarrow> peek rest \<noteq> squote \<Longrightarrow>
   split_loop True space buf (concat (map (\<lambda>c. if c = squote then [squote, squote] else [c]) a) @ squote # rest) =
     (buf @ a) # split_loop False True [] rest"
  by (induction a arbitrary: buf) auto

fun command_line :: "cstring list \<Rightarrow> cstring" where
  "command_line [] = []"
| "command_line (a # args) = quoted_arg a @ CHR '' '' # command_line args"

text \<open>A command line whose arguments are written in quotes is split into exactly these arguments, whatever
  blanks and quotes they hold, as long as they are neither empty nor longer than the buffer.\<close>

theorem split_command_line_reads_quoted:
  assumes "\<forall>a\<in>set args. a \<noteq> [] \<and> length a \<le> 1023"
  shows "split_command_line (command_line args) = args"
  using assms
proof (induction args)
  case Nil
  show ?case by (simp add: split_command_line_def)
next
  case (Cons a args)
  have "split_loop True False [] (concat (map (\<lambda>c. if c = squote then [squote, squote] else [c]) a) @
      squote # CHR '' '' # command_line args) = a # split_loop False True [] (CHR '' '' # command_line args)"
    using split_quoted [of "[]" a "CHR '' '' # command_line args" False] Cons.prems by (simp add: peek_def)
  with Cons show ?case by (simp add: split_command_line_def quoted_arg_def)
qed

section \<open>Wild cards\<close>

text \<open>One character of a mask against one of the text (masks and texts compare without case).\<close>

definition char_match :: "char \<Rightarrow> char \<Rightarrow> bool" where
  "char_match p c \<longleftrightarrow> to_lower p = to_lower c \<or> p = CHR ''?'' \<or> (p = CHR ''#'' \<and> is_digit c)"

text \<open>\<open>WildMask::Match\<close>: what is left of mask and text, the positions to go back to, and the positions and
  lengths of the matches. A length can get negative.\<close>

record wild =
  wd_pat :: cstring
  wd_str :: cstring
  wd_wpos :: cstring
  wd_spos :: cstring
  wd_qmark :: bool
  wd_star :: bool
  wd_marks :: "(int \<times> int) list"

definition wild_pos :: "cstring \<Rightarrow> wild \<Rightarrow> int" where
  "wild_pos text w = int (length text) - int (length (wd_str w))"

definition expand_array :: "cstring \<Rightarrow> wild \<Rightarrow> wild" where
  "expand_array text w = w\<lparr>wd_marks := wd_marks w @ [(wild_pos text w, 0)]\<rparr>"

definition set_wild_len :: "cstring \<Rightarrow> wild \<Rightarrow> wild" where
  "set_wild_len text w =
     (let (start, _) = last (wd_marks w) in w\<lparr>wd_marks := butlast (wd_marks w) @ [(start, wild_pos text w - start)]\<rparr>)"

text \<open>Before the first star.\<close>

definition first_marks :: "bool \<Rightarrow> cstring \<Rightarrow> char \<Rightarrow> wild \<Rightarrow> wild" where
  "first_marks want text p w =
     (if want \<and> (p = CHR ''?'' \<or> p = CHR ''#'')
      then if wd_qmark w then w else (expand_array text w)\<lparr>wd_qmark := True\<rparr>
      else if want \<and> wd_qmark w then (set_wild_len text w)\<lparr>wd_qmark := False\<rparr>
      else w)"

lemma first_marks_keeps [simp]:
  "wd_pat (first_marks want text p w) = wd_pat w" "wd_str (first_marks want text p w) = wd_str w"
  by (auto simp: first_marks_def expand_array_def set_wild_len_def split: prod.split)

function wild_first :: "bool \<Rightarrow> cstring \<Rightarrow> wild \<Rightarrow> wild option" where
  "wild_first want text w =
     (case wd_str w of
        [] \<Rightarrow> Some w
      | c # str \<Rightarrow> (case wd_pat w of
          [] \<Rightarrow> None
        | p # pat \<Rightarrow>
            if p = CHR ''*'' then Some w
            else if char_match p c
            then wild_first want text ((first_marks want text p w)\<lparr>wd_pat := pat, wd_str := str\<rparr>)
            else None))"
  by pat_completeness auto
termination by (relation "measure (\<lambda>(_, _, w). length (wd_str w))") auto

declare wild_first.simps [simp del]

text \<open>From the first star on: the changes to the matches at a star, at a question mark or digit, at a plain
  character, and when going back.\<close>

definition end_qmark :: "bool \<Rightarrow> cstring \<Rightarrow> wild \<Rightarrow> wild" where
  "end_qmark want text w = (if want \<and> wd_qmark w then (set_wild_len text w)\<lparr>wd_qmark := False\<rparr> else w)"

definition star_marks :: "bool \<Rightarrow> cstring \<Rightarrow> wild \<Rightarrow> wild" where
  "star_marks want text w =
     (let w = end_qmark want text w
      in if want \<and> \<not> wd_star w then (expand_array text w)\<lparr>wd_star := True\<rparr> else w)"

definition one_marks :: "bool \<Rightarrow> cstring \<Rightarrow> wild \<Rightarrow> wild" where
  "one_marks want text w = (if want \<and> \<not> wd_qmark w then (expand_array text w)\<lparr>wd_qmark := True\<rparr> else w)"

definition plain_marks :: "bool \<Rightarrow> cstring \<Rightarrow> wild \<Rightarrow> wild" where
  "plain_marks want text w =
     (if want \<and> wd_qmark w then (set_wild_len text w)\<lparr>wd_qmark := False\<rparr>
      else if want \<and> wd_star w then (set_wild_len text w)\<lparr>wd_star := False\<rparr> else w)"

definition back_marks :: "bool \<Rightarrow> wild \<Rightarrow> wild" where
  "back_marks want w = (if want \<and> wd_qmark w then w\<lparr>wd_marks := butlast (wd_marks w), wd_qmark := False\<rparr> else w)"

definition rest_mark :: "wild \<Rightarrow> wild" where
  "rest_mark w = w\<lparr>wd_marks := butlast (wd_marks w) @ [(fst (last (wd_marks w)), int (length (wd_str w)))]\<rparr>"

lemmas mark_defs = end_qmark_def star_marks_def one_marks_def plain_marks_def back_marks_def
  set_wild_len_def expand_array_def

lemma marks_keep [simp]:
  "wd_pat (star_marks want text w) = wd_pat w" "wd_str (star_marks want text w) = wd_str w"
  "wd_pat (one_marks want text w) = wd_pat w" "wd_str (one_marks want text w) = wd_str w"
  "wd_wpos (one_marks want text w) = wd_wpos w" "wd_spos (one_marks want text w) = wd_spos w"
  "wd_pat (plain_marks want text w) = wd_pat w" "wd_str (plain_marks want text w) = wd_str w"
  "wd_wpos (plain_marks want text w) = wd_wpos w" "wd_spos (plain_marks want text w) = wd_spos w"
  "wd_wpos (back_marks want w) = wd_wpos w" "wd_spos (back_marks want w) = wd_spos w"
  "wd_pat (end_qmark want text w) = wd_pat w" "wd_str (end_qmark want text w) = wd_str w"
  by (simp_all add: mark_defs split: prod.split)

lemma tl_shorter: "length xs - Suc 0 < length xs \<longleftrightarrow> xs \<noteq> []"
  by (cases xs) auto

function wild_loop :: "bool \<Rightarrow> cstring \<Rightarrow> wild \<Rightarrow> wild \<times> bool" where
  "wild_loop want text w =
     (case wd_str w of
        [] \<Rightarrow> (w, False)
      | c # str \<Rightarrow>
          if wd_pat w \<noteq> [] \<and> hd (wd_pat w) = CHR ''*''
          then if tl (wd_pat w) = []
               then (let w = (star_marks want text w)\<lparr>wd_pat := []\<rparr>
                     in (if want \<and> wd_star w then rest_mark w else w, True))
               else wild_loop want text
                      ((star_marks want text w)\<lparr>wd_pat := tl (wd_pat w), wd_wpos := tl (wd_pat w), wd_spos := str\<rparr>)
          else if wd_pat w \<noteq> [] \<and> (hd (wd_pat w) = CHR ''?'' \<or> (hd (wd_pat w) = CHR ''#'' \<and> is_digit c))
          then wild_loop want text ((one_marks want text w)\<lparr>wd_pat := tl (wd_pat w), wd_str := str\<rparr>)
          else if wd_pat w \<noteq> [] \<and> to_lower (hd (wd_pat w)) = to_lower c
          then wild_loop want text ((plain_marks want text w)\<lparr>wd_pat := tl (wd_pat w), wd_str := str\<rparr>)
          else wild_loop want text ((back_marks want w)\<lparr>wd_pat := wd_wpos w, wd_str := wd_spos w,
                 wd_spos := tl (wd_spos w), wd_star := True\<rparr>))"
  by pat_completeness auto
termination
  by (relation "measures [\<lambda>(_, _, w). max (length (wd_wpos w)) (length (wd_pat w)),
        \<lambda>(_, _, w). length (wd_spos w), \<lambda>(_, _, w). length (wd_str w)]")
    (auto simp: less_max_iff_disj le_max_iff_disj tl_shorter)

declare wild_loop.simps [simp del]

definition wild_end :: "bool \<Rightarrow> cstring \<Rightarrow> wild \<Rightarrow> wild" where
  "wild_end want text w =
     (let w = (if want \<and> wd_qmark w then set_wild_len text w else w)
      in if wd_pat w \<noteq> [] \<and> hd (wd_pat w) = CHR ''*'' \<and> want \<and> \<not> wd_star w then expand_array text w else w)"

definition wild_start :: "cstring \<Rightarrow> cstring \<Rightarrow> wild" where
  "wild_start pattern text = \<lparr>wd_pat = pattern, wd_str = text, wd_wpos = text, wd_spos = text, wd_qmark = False,
     wd_star = False, wd_marks = []\<rparr>"

definition wild_match :: "bool \<Rightarrow> cstring \<Rightarrow> cstring \<Rightarrow> (int \<times> int) list option" where
  "wild_match want pattern text =
     (case wild_first want text (wild_start pattern text) of
        None \<Rightarrow> None
      | Some w \<Rightarrow>
          (case wild_loop want text (end_qmark want text w) of
             (w, True) \<Rightarrow> Some (wd_marks w)
           | (w, False) \<Rightarrow>
               if dropWhile (\<lambda>c. c = CHR ''*'') (wd_pat w) = [] then Some (wd_marks (wild_end want text w)) else None))"

lemma wild_loop_end: "wd_str w = [] \<Longrightarrow> wild_loop want s w = (w, False)"
  by (simp add: wild_loop.simps)

text \<open>The reference: what a mask means.\<close>

fun glob :: "cstring \<Rightarrow> cstring \<Rightarrow> bool" where
  "glob [] s \<longleftrightarrow> s = []"
| "glob (p # pat) [] \<longleftrightarrow> p = CHR ''*'' \<and> glob pat []"
| "glob (p # pat) (c # s) \<longleftrightarrow>
     (if p = CHR ''*'' then glob pat (c # s) \<or> glob (p # pat) s else char_match p c \<and> glob pat s)"

lemma ex_drop: "(\<exists>k. P (drop k (c # s))) \<longleftrightarrow> P (c # s) \<or> (\<exists>k. P (drop k s))"
  by (metis drop_0 drop_Suc_Cons not0_implies_Suc)

lemma glob_star: "glob (CHR ''*'' # pat) s \<longleftrightarrow> (\<exists>k. glob pat (drop k s))"
proof (induction s)
  case Nil
  then show ?case by simp
next
  case (Cons c s)
  show ?case using Cons ex_drop [of "glob pat" c s] by simp
qed

lemma glob_stars: "glob pat [] \<longleftrightarrow> dropWhile (\<lambda>c. c = CHR ''*'') pat = []"
  by (induction pat) auto

lemma glob_prefix:
  "CHR ''*'' \<notin> set m \<Longrightarrow> glob (m @ pat) s \<Longrightarrow> length m \<le> length s \<and> glob pat (drop (length m) s)"
  by (induction m arbitrary: s) (auto simp: neq_Nil_conv elim: glob.elims)

text \<open>The state of the loop after a star: the part \<open>m\<close> of the mask since the star has matched the text from
  one place before \<open>wd_spos\<close>.\<close>

definition behind_star :: "wild \<Rightarrow> bool" where
  "behind_star w \<longleftrightarrow> (\<exists>m x. wd_wpos w = m @ wd_pat w \<and> CHR ''*'' \<notin> set m \<and>
     length m \<le> Suc (length (wd_spos w)) \<and> wd_str w = drop (length m) (x # wd_spos w))"

abbreviation later :: "wild \<Rightarrow> bool" where
  "later w \<equiv> \<exists>k. glob (wd_wpos w) (drop k (wd_spos w))"

abbreviation accepts :: "wild \<times> bool \<Rightarrow> bool" where
  "accepts r \<equiv> snd r \<or> glob (wd_pat (fst r)) []"

lemma rest_mark_pat [simp]: "wd_pat (rest_mark w) = wd_pat w"
  by (simp add: rest_mark_def)

lemma wild_loop_accepts:
  "behind_star w \<Longrightarrow> accepts (wild_loop want s w) \<longleftrightarrow> glob (wd_pat w) (wd_str w) \<or> later w"
proof (induction want s w rule: wild_loop.induct)
  case (1 want s w)
  obtain m x where m: "wd_wpos w = m @ wd_pat w" "CHR ''*'' \<notin> set m" "length m \<le> Suc (length (wd_spos w))"
    "wd_str w = drop (length m) (x # wd_spos w)" using "1.prems" unfolding behind_star_def by blast
  have shift: "glob (wd_pat w) (drop j (wd_str w))" if "glob (wd_wpos w) (drop j (x # wd_spos w))" for j
    using glob_prefix [OF m(2) that [unfolded m(1)]] by (simp add: m(4) add.commute)
  show ?case
  proof (cases "wd_str w")
    case Nil
    have "\<not> later w"
    proof
      assume "later w"
      then obtain k where "length m \<le> length (drop k (wd_spos w))" using glob_prefix [OF m(2)] m(1) by metis
      then show False using Nil m(3,4) by simp
    qed
    then show ?thesis using Nil by (simp add: wild_loop.simps [of _ _ w])
  next
    case (Cons c str)
    note step = wild_loop.simps [of want s w]
    note ih = "1.IH" [OF Cons]
    consider (star) "wd_pat w \<noteq> []" "hd (wd_pat w) = CHR ''*''"
      | (one) "wd_pat w \<noteq> []" "hd (wd_pat w) \<noteq> CHR ''*''" "char_match (hd (wd_pat w)) c"
      | (miss) "wd_pat w = [] \<or> hd (wd_pat w) \<noteq> CHR ''*'' \<and> \<not> char_match (hd (wd_pat w)) c"
      by blast
    then show ?thesis
    proof cases
      case star
      obtain pat where pat: "wd_pat w = CHR ''*'' # pat" using star by (cases "wd_pat w") auto
      have later: "later w \<Longrightarrow> glob (wd_pat w) (wd_str w)"
      proof -
        assume "later w"
        then obtain k where "glob (wd_wpos w) (drop (Suc k) (x # wd_spos w))" by auto
        from shift [OF this] show ?thesis unfolding pat glob_star drop_drop by blast
      qed
      show ?thesis
      proof (cases "pat = []")
        case True
        have "glob (wd_pat w) (wd_str w)" unfolding pat glob_star True by (auto intro: exI [of _ "length (wd_str w)"])
        then show ?thesis using True pat Cons by (simp add: step Let_def)
      next
        case False
        let ?w = "(star_marks want s w)\<lparr>wd_pat := tl (wd_pat w), wd_wpos := tl (wd_pat w), wd_spos := str\<rparr>"
        have "behind_star ?w" using Cons by (auto simp: behind_star_def intro: exI [of _ "[]"])
        then have "accepts (wild_loop want s ?w) \<longleftrightarrow> glob (wd_pat ?w) (wd_str ?w) \<or> later ?w"
          using ih(1) star False pat by simp
        moreover have "wild_loop want s w = wild_loop want s ?w" using Cons star False pat by (simp add: step)
        moreover have "glob (wd_pat w) (wd_str w) \<longleftrightarrow> glob pat (c # str) \<or> (\<exists>k. glob pat (drop k str))"
          using Cons glob_star [of pat str] by (simp add: pat)
        ultimately show ?thesis using later Cons pat by auto
      qed
    next
      case one
      obtain p pat where pat: "wd_pat w = p # pat" using one by (cases "wd_pat w") auto
      define w1 where "w1 = (if p = CHR ''?'' \<or> (p = CHR ''#'' \<and> is_digit c) then one_marks want s w
        else plain_marks want s w)\<lparr>wd_pat := pat, wd_str := str\<rparr>"
      have run: "wild_loop want s w = wild_loop want s w1"
        using Cons one by (auto simp: step pat w1_def char_match_def)
      have sel: "wd_pat w1 = pat" "wd_str w1 = str" "wd_wpos w1 = wd_wpos w" "wd_spos w1 = wd_spos w"
        by (simp_all add: w1_def)
      have str: "str = drop (length (m @ [p])) (x # wd_spos w)" "length m \<le> length (wd_spos w)"
        using m(3,4) Cons by (metis drop_Suc length_append_singleton list.sel(3) tl_drop)
          (metis Cons drop_eq_Nil2 length_Cons list.distinct(1) m(4) not_less_eq_eq)
      have "behind_star w1" unfolding behind_star_def sel
        using m(1,2) str pat one by (intro exI [of _ "m @ [p]"] exI [of _ x]) auto
      then have "accepts (wild_loop want s w1) \<longleftrightarrow> glob pat str \<or> later w1"
        using ih(2,3) one Cons pat unfolding sel w1_def by (auto simp: char_match_def)
      then show ?thesis using Cons one by (simp add: run sel pat)
    next
      case miss
      let ?w = "(back_marks want w)\<lparr>wd_pat := wd_wpos w, wd_str := wd_spos w, wd_spos := tl (wd_spos w), wd_star := True\<rparr>"
      have run: "wild_loop want s w = wild_loop want s ?w" using Cons miss by (auto simp: step char_match_def)
      have "\<not> glob (wd_pat w) (wd_str w)" using miss Cons by (cases "wd_pat w") auto
      moreover have "accepts (wild_loop want s ?w) \<longleftrightarrow> later w"
      proof (cases "wd_spos w")
        case Nil
        then show ?thesis by (simp add: wild_loop_end)
      next
        case (Cons y ys)
        have "behind_star ?w" using Cons by (auto simp: behind_star_def intro: exI [of _ "[]"])
        then have "accepts (wild_loop want s ?w) \<longleftrightarrow> glob (wd_pat ?w) (wd_str ?w) \<or> later ?w"
          using ih(4) miss by (auto simp: char_match_def)
        then show ?thesis using ex_drop [of "glob (wd_wpos w)" y ys] Cons by simp
      qed
      ultimately show ?thesis by (simp add: run)
    qed
  qed
qed

lemma wild_loop_star:
  assumes "wd_pat w = CHR ''*'' # pat" "wd_str w \<noteq> []"
  shows "accepts (wild_loop want s w) \<longleftrightarrow> glob (wd_pat w) (wd_str w)"
proof -
  obtain c str where str: "wd_str w = c # str" using assms(2) by (cases "wd_str w") auto
  have g: "glob (wd_pat w) (wd_str w) \<longleftrightarrow> glob pat (c # str) \<or> (\<exists>k. glob pat (drop k str))"
    using str glob_star [of pat str] by (simp add: assms(1))
  show ?thesis
  proof (cases "pat = []")
    case True
    have "glob (wd_pat w) (wd_str w)" unfolding assms(1) glob_star True by (auto intro: exI [of _ "length (wd_str w)"])
    then show ?thesis using True assms(1) str by (simp add: wild_loop.simps [of want s w] Let_def)
  next
    case False
    let ?w = "(star_marks want s w)\<lparr>wd_pat := pat, wd_wpos := pat, wd_spos := str\<rparr>"
    have "behind_star ?w" using str by (auto simp: behind_star_def intro: exI [of _ "[]"])
    from wild_loop_accepts [OF this] False show ?thesis
      using str assms(1) g by (simp add: wild_loop.simps [of want s w])
  qed
qed

lemma wild_first_result:
  "case wild_first want s w of
     None \<Rightarrow> \<not> glob (wd_pat w) (wd_str w)
   | Some w' \<Rightarrow> (glob (wd_pat w) (wd_str w) \<longleftrightarrow> glob (wd_pat w') (wd_str w')) \<and>
       (wd_str w' = [] \<or> (\<exists>pat. wd_pat w' = CHR ''*'' # pat))"
proof (induction want s w rule: wild_first.induct)
  case (1 want s w)
  show ?case
  proof (cases "wd_str w")
    case Nil
    then show ?thesis by (simp add: wild_first.simps [of want s w])
  next
    case (Cons c str)
    show ?thesis
    proof (cases "wd_pat w")
      case Nil
      then show ?thesis using Cons by (simp add: wild_first.simps [of want s w])
    next
      case (Cons p pat)
      then show ?thesis using "1.IH" [OF \<open>wd_str w = c # str\<close> Cons] \<open>wd_str w = c # str\<close>
        by (cases "p = CHR ''*''"; cases "char_match p c") (simp_all add: wild_first.simps [of want s w] split: option.splits)
    qed
  qed
qed

text \<open>C36: A text matches a mask exactly when the mask can be read as: a star for any piece of text, a question
  mark for any character, a hash for a digit, and any other character for itself in either case. The
  loop goes back only to the last star; no match is missed by that, and it always ends.\<close>

theorem wild_match_correct: "wild_match want pattern s \<noteq> None \<longleftrightarrow> glob pattern s"
proof -
  let ?w = "wild_start pattern s"
  have start: "wd_pat ?w = pattern" "wd_str ?w = s" by (simp_all add: wild_start_def)
  show ?thesis
  proof (cases "wild_first want s ?w")
    case None
    then show ?thesis using wild_first_result [where want = want and s = s and w = ?w] by (simp add: wild_match_def start)
  next
    case (Some w)
    obtain w' fin where run: "wild_loop want s (end_qmark want s w) = (w', fin)" by fastforce
    have "wild_match want pattern s \<noteq> None \<longleftrightarrow> accepts (w', fin)"
      using Some run by (cases fin) (simp_all add: wild_match_def glob_stars)
    also have "accepts (w', fin) \<longleftrightarrow> glob (wd_pat w) (wd_str w)"
    proof (cases "wd_str w = []")
      case True
      then show ?thesis using run by (auto simp: wild_loop_end)
    next
      case False
      then obtain pat where "wd_pat w = CHR ''*'' # pat"
        using wild_first_result [where want = want and s = s and w = ?w] Some by auto
      then show ?thesis using wild_loop_star [where w = "end_qmark want s w" and want = want and s = s and pat = pat] False run
        by simp
    qed
    finally show ?thesis using wild_first_result [where want = want and s = s and w = ?w] Some by (simp add: start)
  qed
qed

text \<open>The positions of the matches are not reliable once the loop has gone back behind a question mark that
  was already closed: for a mask with two wild cards three matches are reported, and the first one ends
  too early.\<close>

theorem wild_marks_left_over:
  "wild_match True ''*a?bc'' ''axbc'' = Some [(0, 0), (1, 1)] \<and>
   wild_match True ''*a?bc'' ''axbdaxbc'' = Some [(0, 0), (1, 3), (5, 1)]"
  by code_simp

text \<open>\<open>MatchFileExt\<close>: the end of the name is one of the extensions, or the name matches one with wild cards.\<close>

definition match_file_ext :: "cstring \<Rightarrow> cstring \<Rightarrow> cstring \<Rightarrow> bool" where
  "match_file_ext filename extensionList seps =
     list_ex (\<lambda>ext. (length ext \<le> length filename \<and> strcase_eq ext (drop (length filename - length ext) filename)) \<or>
        ((CHR ''*'' \<in> set ext \<or> CHR ''?'' \<in> set ext) \<and> wild_match False ext filename \<noteq> None))
       (tokens seps extensionList)"
theorem split_command_line_reads_quoted_witness:
  "split_command_line (command_line [''unpack it'', [CHR ''a'', squote], ''-o'']) = [''unpack it'', [CHR ''a'', squote], ''-o'']"
  by (rule split_command_line_reads_quoted) simp

end
