(* ===== verification/Archives.thy ===== *)
theory Archives
  imports History TextUtil "HOL-Library.Multiset"
begin

text \<open>
  The files the unpacker looks at (\<open>daemon/postprocess/UnpackController.cpp\<close>): which names and contents it
  takes for archives, and the joining of split files. A directory is the list of its entries, in the
  order the system lists them; entries that exist can be opened, writing does not fail.
\<close>

section \<open>Names\<close>

text \<open>The fixed patterns of the code, which \<open>RegEx\<close> compiles to ignore case, as predicates on names.\<close>

definition ends_ci :: "cstring \<Rightarrow> cstring \<Rightarrow> bool" where
  "ends_ci suf s \<longleftrightarrow> length suf \<le> length s \<and> strcase_eq (drop (length s - length suf) s) suf"

definition tail_of :: "nat \<Rightarrow> cstring \<Rightarrow> cstring" where
  "tail_of n s = drop (length s - n) s"

definition is_rar :: "cstring \<Rightarrow> bool" where
  "is_rar s \<longleftrightarrow> ends_ci ''.rar'' s"

definition is_rar_volume :: "cstring \<Rightarrow> bool" where
  "is_rar_volume s \<longleftrightarrow>
     (case tail_of 4 s of
        [p, r, a, b] \<Rightarrow> p = CHR ''.'' \<and> byte CHR ''r'' \<le> byte (to_lower r) \<and> byte (to_lower r) \<le> byte CHR ''z'' \<and>
          is_digit a \<and> is_digit b
      | _ \<Rightarrow> False)"

definition is_seven_zip :: "cstring \<Rightarrow> bool" where
  "is_seven_zip s \<longleftrightarrow> ends_ci ''.7z'' s"

definition is_seven_zip_multi :: "cstring \<Rightarrow> bool" where
  "is_seven_zip_multi s \<longleftrightarrow>
     takeWhile is_digit (rev s) \<noteq> [] \<and> ends_ci ''.7z.'' (rev (dropWhile is_digit (rev s)))"

definition ext_char :: "char \<Rightarrow> bool" where
  "ext_char c \<longleftrightarrow> is_alpha c \<or> is_digit c \<or> c = CHR '',''"

definition is_split :: "cstring \<Rightarrow> bool" where
  "is_split s \<longleftrightarrow>
     (case tail_of 8 s of
        [p, x, y, z, q, a, b, c] \<Rightarrow> p = CHR ''.'' \<and> ext_char x \<and> ext_char y \<and> ext_char z \<and> q = CHR ''.'' \<and>
          is_digit a \<and> is_digit b \<and> is_digit c
      | _ \<Rightarrow> False)"

definition is_split_first :: "cstring \<Rightarrow> bool" where
  "is_split_first s \<longleftrightarrow> is_split s \<and> tail_of 3 s = ''001''"

text \<open>\<open>HasCompletedArchiveFiles\<close>.\<close>

definition has_completed_archive_files :: "nzb_info \<Rightarrow> bool" where
  "has_completed_archive_files nz =
     list_ex (\<lambda>cf. is_rar (cf_filename cf) \<or> is_seven_zip (cf_filename cf) \<or> is_seven_zip_multi (cf_filename cf))
       (nz_completedFiles nz)"

text \<open>The rest of a name after its last dot.\<close>

definition last_dot :: "cstring \<Rightarrow> cstring option" where
  "last_dot s = (if CHR ''.'' \<in> set s then Some (rev (takeWhile (\<lambda>c. c \<noteq> CHR ''.'') (rev s))) else None)"

definition trim_ext :: "cstring \<Rightarrow> cstring" where
  "trim_ext s = rev (tl (dropWhile (\<lambda>c. c \<noteq> CHR ''.'') (rev s)))"

section \<open>Directories\<close>

record dir_entry =
  de_name :: cstring
  de_isDir :: bool
  de_content :: cstring

definition find_entry :: "cstring \<Rightarrow> dir_entry list \<Rightarrow> dir_entry option" where
  "find_entry name dir = find (\<lambda>e. de_name e = name \<and> \<not> de_isDir e) dir"

text \<open>\<open>FileHasRarSignature\<close>: the eight bytes are compared as C strings, so the last byte does not count for
  the old format.\<close>

definition rar4_signature :: cstring where
  "rar4_signature = map chr [0x52, 0x61, 0x72, 0x21, 0x1A, 0x07, 0x00]"

definition rar5_signature :: cstring where
  "rar5_signature = map chr [0x52, 0x61, 0x72, 0x21, 0x1A, 0x07, 0x01, 0x00]"

definition has_rar_signature :: "cstring \<Rightarrow> bool" where
  "has_rar_signature content \<longleftrightarrow>
     length content \<ge> 8 \<and> (take 7 content = rar4_signature \<or> take 8 content = rar5_signature)"

text \<open>\<open>CheckArchiveFiles\<close>.\<close>

record archive_scan =
  as_rar :: bool
  as_notUnpackedRar :: bool
  as_renamed :: bool
  as_sevenZip :: bool
  as_sevenZipMulti :: bool
  as_split :: bool

definition no_archives :: archive_scan where
  "no_archives = \<lparr>as_rar = False, as_notUnpackedRar = False, as_renamed = False, as_sevenZip = False,
     as_sevenZipMulti = False, as_split = False\<rparr>"

definition scan_entry :: "cstring \<Rightarrow> cstring list \<Rightarrow> archive_scan \<Rightarrow> dir_entry \<Rightarrow> archive_scan" where
  "scan_entry ignoreExt extracted s e =
     (let name = de_name e; extNum = (case last_dot name of None \<Rightarrow> -1 | Some x \<Rightarrow> atoi_c x)
      in if de_isDir e then s
         else if is_rar name then s\<lparr>as_rar := True, as_notUnpackedRar := as_notUnpackedRar s \<or> name \<notin> set extracted\<rparr>
         else if is_seven_zip name then s\<lparr>as_sevenZip := True\<rparr>
         else if is_seven_zip_multi name then s\<lparr>as_sevenZipMulti := True\<rparr>
         else if is_split name \<and> (extNum = 0 \<or> extNum = 1) then s\<lparr>as_split := True\<rparr>
         else if \<not> as_renamed s \<and> \<not> is_rar_volume name \<and> \<not> match_file_ext name ignoreExt '',;'' \<and>
                 has_rar_signature (de_content e)
         then s\<lparr>as_renamed := True\<rparr>
         else s)"

definition check_archive_files :: "cstring \<Rightarrow> cstring list \<Rightarrow> dir_entry list \<Rightarrow> archive_scan" where
  "check_archive_files ignoreExt extracted dir = foldl (scan_entry ignoreExt extracted) no_archives dir"

definition has_archives :: "archive_scan \<Rightarrow> bool" where
  "has_archives s \<longleftrightarrow> as_rar s \<or> as_sevenZip s \<or> as_sevenZipMulti s \<or> as_split s"

section \<open>Joining split files\<close>

text \<open>The scan of \<open>JoinFile\<close> over the directory: number of fragments, smallest and largest number, the smallest
  number of a fragment whose size differs from that of the first, and the size of the last such fragment.\<close>

record join_scan =
  js_count :: int
  js_min :: int
  js_max :: int
  js_difMin :: int
  js_difSize :: int

definition join_init :: join_scan where
  "join_init = \<lparr>js_count = 0, js_min = -1, js_max = -1, js_difMin = 999999, js_difSize = 0\<rparr>"

definition segment_number :: "cstring \<Rightarrow> int" where
  "segment_number name = atoi_c (case last_dot name of Some x \<Rightarrow> x | None \<Rightarrow> [])"

definition join_step :: "int \<Rightarrow> join_scan \<Rightarrow> dir_entry \<Rightarrow> join_scan" where
  "join_step firstSize s e =
     (if de_isDir e \<or> \<not> is_split (de_name e) then s
      else let n = segment_number (de_name e); sz = int (length (de_content e));
               s = s\<lparr>js_count := js_count s + 1,
                     js_min := (if n < js_min s \<or> js_min s = -1 then n else js_min s),
                     js_max := (if n > js_max s then n else js_max s)\<rparr>
           in if sz \<noteq> firstSize
              then s\<lparr>js_difMin := (if n < js_difMin s then n else js_difMin s), js_difSize := sz\<rparr> else s)"

definition join_refused :: "bool \<Rightarrow> join_scan \<Rightarrow> bool" where
  "join_refused parSuccess s \<longleftrightarrow>
     (let corrected = js_count s - (if js_min s = 0 then 1 else 0)
      in js_min s > 1 \<or> corrected \<noteq> js_max s \<or>
         ((js_difMin s \<noteq> corrected \<or> js_difMin s > js_max s) \<and> \<not> parSuccess))"

definition three_digits :: "nat \<Rightarrow> cstring" where
  "three_digits n = [chr (48 + n div 100 mod 10), chr (48 + n div 10 mod 10), chr (48 + n mod 10)]"

definition fragment_name :: "cstring \<Rightarrow> nat \<Rightarrow> cstring" where
  "fragment_name base i = base @ ''.'' @ three_digits i"

text \<open>The copying stops at the first fragment that does not exist, and this is no error.\<close>

fun join_loop :: "dir_entry list \<Rightarrow> cstring \<Rightarrow> nat list \<Rightarrow> cstring \<times> cstring list" where
  "join_loop dir base [] = ([], [])"
| "join_loop dir base (i # is) =
     (case find_entry (fragment_name base i) dir of
        None \<Rightarrow> ([], [])
      | Some e \<Rightarrow> (case join_loop dir base is of (content, names) \<Rightarrow> (de_content e @ content, de_name e # names)))"

text \<open>\<open>JoinFile\<close>: \<open>None\<close> is a refused file, otherwise the name and content of the joined file and the fragments
  it was made from.\<close>

definition join_file :: "bool \<Rightarrow> dir_entry list \<Rightarrow> cstring \<Rightarrow> ((cstring \<times> cstring) \<times> cstring list) option" where
  "join_file parSuccess dir frag =
     (let base = trim_ext frag;
          firstSize = (case find_entry frag dir of Some e \<Rightarrow> int (length (de_content e)) | None \<Rightarrow> -1);
          s = foldl (join_step firstSize) join_init dir
      in if join_refused parSuccess s \<or> firstSize * (js_count s - 1) + js_difSize s \<le> 0 then None
         else case join_loop dir base [nat (js_min s)..<Suc (nat (js_max s))] of
           (content, names) \<Rightarrow> Some ((base, content), names))"

text \<open>\<open>JoinSplittedFiles\<close>: the joined files, the fragments used, and whether all went well; the first refused
  file ends the loop.\<close>

definition joinable :: "dir_entry \<Rightarrow> bool" where
  "joinable e \<longleftrightarrow> \<not> de_isDir e \<and> is_split_first (de_name e) \<and> \<not> has_rar_signature (de_content e)"

fun join_split_files ::
    "bool \<Rightarrow> dir_entry list \<Rightarrow> dir_entry list \<Rightarrow> (cstring \<times> cstring) list \<times> cstring list \<times> bool" where
  "join_split_files parSuccess dir [] = ([], [], True)"
| "join_split_files parSuccess dir (e # es) =
     (if joinable e
      then case join_file parSuccess dir (de_name e) of
             None \<Rightarrow> ([], [], False)
           | Some (file, names) \<Rightarrow>
               (case join_split_files parSuccess dir es of (files, names', ok) \<Rightarrow> (file # files, names @ names', ok))
      else join_split_files parSuccess dir es)"

section \<open>What joining does\<close>

lemma digit_chr: "n < 10 \<Longrightarrow> is_digit (chr (48 + n))" "n < 10 \<Longrightarrow> digit_val (chr (48 + n)) = n"
  by (simp_all add: is_digit_def digit_val_def)

lemma not_dot_digit: "is_digit c \<Longrightarrow> c \<noteq> CHR ''.''"
  by (auto simp: is_digit_def byte_def)

lemma digit_not_sign: "is_digit c \<Longrightarrow> c \<noteq> CHR ''-'' \<and> c \<noteq> CHR ''+''"
  by (auto simp: is_digit_def byte_def)

lemma three_digits_are_digits: "c \<in> set (three_digits n) \<Longrightarrow> is_digit c"
  by (auto simp: three_digits_def digit_chr)

lemma last_dot_fragment: "last_dot (fragment_name base n) = Some (three_digits n)"
proof -
  have "takeWhile (\<lambda>c. c \<noteq> CHR ''.'') (rev (three_digits n) @ ''.'' @ rev base) = rev (three_digits n)"
    by (subst takeWhile_append2) (auto dest: three_digits_are_digits not_dot_digit)
  then show ?thesis by (simp add: last_dot_def fragment_name_def)
qed

lemma trim_fragment: "trim_ext (fragment_name base n) = base"
proof -
  have "dropWhile (\<lambda>c. c \<noteq> CHR ''.'') (rev (three_digits n) @ ''.'' @ rev base) = ''.'' @ rev base"
    by (subst dropWhile_append2) (auto dest: three_digits_are_digits not_dot_digit)
  then show ?thesis by (simp add: trim_ext_def fragment_name_def)
qed

lemma atoi_digits: "ds \<noteq> [] \<Longrightarrow> \<forall>c\<in>set ds. is_digit c \<Longrightarrow> atoi_c ds = int (digits_val ds)"
proof -
  assume ds: "ds \<noteq> []" "\<forall>c\<in>set ds. is_digit c"
  obtain d r where "ds = d # r" using ds(1) by (cases ds) auto
  then have "dropWhile is_space ds = ds" "peek ds \<noteq> CHR ''-''" "peek ds \<noteq> CHR ''+''" "takeWhile is_digit ds = ds"
    using ds(2) digit_not_sign [of d] not_space_digit [of d] by (simp_all add: takeWhile_eq_all_conv)
  then show ?thesis by (simp add: atoi_c_def del: takeWhile_eq_all_conv)
qed

lemma digits_val_three:
  "a < 10 \<Longrightarrow> b < 10 \<Longrightarrow> c < 10 \<Longrightarrow> digits_val [chr (48 + a), chr (48 + b), chr (48 + c)] = 100 * a + 10 * b + c"
  by (simp add: digits_val_def digit_chr)

lemma atoi_three_digits: "n < 1000 \<Longrightarrow> atoi_c (three_digits n) = int n"
proof -
  assume n: "n < 1000"
  have "digits_val (three_digits n) = 100 * (n div 100 mod 10) + 10 * (n div 10 mod 10) + n mod 10"
    unfolding three_digits_def by (rule digits_val_three) simp_all
  also have "\<dots> = n"
  proof -
    define m where "m = n div 10"
    define q where "q = m div 10"
    have "n = 10 * m + n mod 10" "m = 10 * q + m mod 10" by (simp_all add: m_def q_def)
    moreover have "q < 10" using n by (simp add: q_def m_def)
    moreover have "n div 100 = q" by (simp add: q_def m_def div_mult2_eq [symmetric])
    ultimately show ?thesis by (simp add: m_def [symmetric])
  qed
  finally have v: "digits_val (three_digits n) = n" .
  have "three_digits n \<noteq> []" by (simp add: three_digits_def)
  from atoi_digits [OF this] three_digits_are_digits show ?thesis by (simp add: v)
qed

lemma segment_number_fragment [simp]: "n < 1000 \<Longrightarrow> segment_number (fragment_name base n) = int n"
  by (simp add: segment_number_def last_dot_fragment atoi_three_digits)

lemma fragment_name_inj: "m < 1000 \<Longrightarrow> n < 1000 \<Longrightarrow> fragment_name base m = fragment_name base n \<longleftrightarrow> m = n"
  by (metis of_nat_eq_iff segment_number_fragment)

lemma is_split_fragment: "is_split (fragment_name base m) \<Longrightarrow> is_split (fragment_name base n)"
proof -
  have split: "is_split (fragment_name base k) \<longleftrightarrow>
      (case tail_of 4 base of [p, x, y, z] \<Rightarrow> p = CHR ''.'' \<and> ext_char x \<and> ext_char y \<and> ext_char z | _ \<Rightarrow> False)" for k
  proof (cases "length base \<ge> 4")
    case True
    have "tail_of 8 (fragment_name base k) = tail_of 4 base @ ''.'' @ three_digits k"
      using True by (simp add: tail_of_def fragment_name_def three_digits_def)
    moreover have "length (tail_of 4 base) = 4" using True by (simp add: tail_of_def)
    then obtain p x y z where "tail_of 4 base = [p, x, y, z]" by (auto simp: numeral_eq_Suc length_Suc_conv)
    ultimately show ?thesis by (simp add: is_split_def three_digits_def digit_chr)
  next
    case False
    then have "length (tail_of 8 (fragment_name base k)) < 8" "length (tail_of 4 base) < 4"
      by (simp_all add: tail_of_def fragment_name_def three_digits_def)
    then show ?thesis by (auto simp: is_split_def split: list.splits)
  qed
  assume "is_split (fragment_name base m)"
  then show ?thesis unfolding split .
qed

abbreviation is_fragment :: "dir_entry \<Rightarrow> bool" where
  "is_fragment e \<equiv> \<not> de_isDir e \<and> is_split (de_name e)"

abbreviation seg_size :: "dir_entry \<Rightarrow> int" where
  "seg_size e \<equiv> int (length (de_content e))"

lemma join_scan_filter: "foldl (join_step f) s dir = foldl (join_step f) s (filter is_fragment dir)"
  by (induction dir arbitrary: s) (auto simp: join_step_def)

definition scan_ok :: "int \<Rightarrow> dir_entry list \<Rightarrow> join_scan \<Rightarrow> bool" where
  "scan_ok f es s \<longleftrightarrow> js_count s = int (length es) \<and>
     (if es = [] then js_min s = -1
      else (\<exists>e\<in>set es. js_min s = segment_number (de_name e)) \<and> (\<forall>e\<in>set es. js_min s \<le> segment_number (de_name e))) \<and>
     (\<forall>e\<in>set es. segment_number (de_name e) \<le> js_max s) \<and>
     (js_max s = -1 \<or> (\<exists>e\<in>set es. js_max s = segment_number (de_name e))) \<and>
     (\<forall>e\<in>set es. seg_size e \<noteq> f \<longrightarrow> js_difMin s \<le> segment_number (de_name e)) \<and>
     (js_difMin s = 999999 \<or> (\<exists>e\<in>set es. seg_size e \<noteq> f \<and> js_difMin s = segment_number (de_name e))) \<and>
     ((\<forall>e\<in>set es. seg_size e = f) \<or> (\<exists>e\<in>set es. seg_size e \<noteq> f \<and> js_difSize s = seg_size e))"

lemma join_step_ok:
  assumes "scan_ok f es s" "is_fragment e" "segment_number (de_name e) \<ge> 0" "\<forall>e\<in>set es. segment_number (de_name e) \<ge> 0"
  shows "scan_ok f (es @ [e]) (join_step f s e)"
proof -
  let ?n = "segment_number (de_name e)"
  let ?s = "join_step f s e"
  have "js_count ?s = int (length (es @ [e]))" using assms(1,2) by (simp add: scan_ok_def join_step_def Let_def)
  moreover have "js_min ?s = (if es = [] \<or> ?n < js_min s then ?n else js_min s)"
    using assms by (auto simp: scan_ok_def join_step_def Let_def split: if_splits)
  moreover have "js_max ?s = (if ?n > js_max s then ?n else js_max s)"
    using assms(2) by (simp add: join_step_def Let_def)
  moreover have "js_difMin ?s = (if seg_size e \<noteq> f \<and> ?n < js_difMin s then ?n else js_difMin s)"
    "js_difSize ?s = (if seg_size e \<noteq> f then seg_size e else js_difSize s)"
    using assms(2) by (simp_all add: join_step_def Let_def)
  moreover note assms(1) [unfolded scan_ok_def]
  ultimately have f: "js_count ?s = int (length (es @ [e]))" "js_min ?s = (if es = [] \<or> ?n < js_min s then ?n else js_min s)"
    "js_max ?s = (if ?n > js_max s then ?n else js_max s)"
    "js_difMin ?s = (if seg_size e \<noteq> f \<and> ?n < js_difMin s then ?n else js_difMin s)"
    "js_difSize ?s = (if seg_size e \<noteq> f then seg_size e else js_difSize s)"
    and mn: "es \<noteq> [] \<Longrightarrow> \<exists>e\<in>set es. js_min s = segment_number (de_name e)"
      "\<forall>e\<in>set es. js_min s \<le> segment_number (de_name e)"
    and mx: "\<forall>e\<in>set es. segment_number (de_name e) \<le> js_max s"
      "js_max s = -1 \<or> (\<exists>e\<in>set es. js_max s = segment_number (de_name e))"
    and df: "\<forall>e\<in>set es. seg_size e \<noteq> f \<longrightarrow> js_difMin s \<le> segment_number (de_name e)"
      "js_difMin s = 999999 \<or> (\<exists>e\<in>set es. seg_size e \<noteq> f \<and> js_difMin s = segment_number (de_name e))"
    and ds: "(\<forall>e\<in>set es. seg_size e = f) \<or> (\<exists>e\<in>set es. seg_size e \<noteq> f \<and> js_difSize s = seg_size e)"
    by (simp_all split: if_splits)
  show ?thesis unfolding scan_ok_def
  proof (intro conjI)
    show "if es @ [e] = [] then js_min ?s = -1 else (\<exists>x\<in>set (es @ [e]). js_min ?s = segment_number (de_name x)) \<and>
        (\<forall>x\<in>set (es @ [e]). js_min ?s \<le> segment_number (de_name x))"
      using f(2) mn by (cases "es = []") force+
    show "\<forall>x\<in>set (es @ [e]). segment_number (de_name x) \<le> js_max ?s" using f(3) mx(1) by force
    show "js_max ?s = -1 \<or> (\<exists>x\<in>set (es @ [e]). js_max ?s = segment_number (de_name x))" using f(3) mx(2) by auto
    show "\<forall>x\<in>set (es @ [e]). seg_size x \<noteq> f \<longrightarrow> js_difMin ?s \<le> segment_number (de_name x)"
      using f(4) df(1) by force
    show "js_difMin ?s = 999999 \<or> (\<exists>x\<in>set (es @ [e]). seg_size x \<noteq> f \<and> js_difMin ?s = segment_number (de_name x))"
      using f(4) df(2) by auto
    show "(\<forall>x\<in>set (es @ [e]). seg_size x = f) \<or> (\<exists>x\<in>set (es @ [e]). seg_size x \<noteq> f \<and> js_difSize ?s = seg_size x)"
      using f(5) ds by auto
  qed (use f(1) in simp)
qed

lemma join_scan_result:
  "\<forall>e\<in>set es. is_fragment e \<and> segment_number (de_name e) \<ge> 0 \<Longrightarrow> scan_ok f es (foldl (join_step f) join_init es)"
  by (induction es rule: rev_induct) (auto simp: scan_ok_def [of _ "[]"] join_init_def join_step_ok)


lemma find_unique:
  assumes "x \<in> set xs" "P x" "\<And>y. y \<in> set xs \<Longrightarrow> P y \<Longrightarrow> y = x"
  shows "find P xs = Some x"
proof (cases "find P xs")
  case None
  then show ?thesis using assms(1,2) by (auto simp: find_None_iff)
next
  case (Some y)
  then obtain i where "i < length xs" "P (xs ! i)" "y = xs ! i" by (auto simp: find_Some_iff)
  then show ?thesis using assms(3) [of y] Some by simp
qed

text \<open>The fragments of a split file.\<close>

definition fragment :: "cstring \<Rightarrow> cstring list \<Rightarrow> nat \<Rightarrow> dir_entry" where
  "fragment base parts i = \<lparr>de_name = fragment_name base i, de_isDir = False, de_content = parts ! (i - 1)\<rparr>"

lemma join_loop_all:
  "\<forall>i\<in>set is. find_entry (fragment_name base i) dir = Some (fragment base parts i) \<Longrightarrow>
   join_loop dir base is = (concat (map (\<lambda>i. parts ! (i - 1)) is), map (fragment_name base) is)"
  by (induction "is") (simp_all add: fragment_def)

lemma concat_from_one: "concat (map (\<lambda>i. parts ! (i - 1)) [1..<Suc (length parts)]) = concat parts"
proof -
  have "map (\<lambda>i. parts ! (i - 1)) [1..<Suc (length parts)] = parts"
    by (rule nth_equalityI) (simp_all add: nth_append del: upt_Suc)
  then show ?thesis by simp
qed

lemma scan_consecutive:
  assumes "scan_ok f es s" "set es = g ` {1..n}" "length es = n" "2 \<le> n" "n < 1000"
    and num: "\<And>i. i \<in> {1..n} \<Longrightarrow> segment_number (de_name (g i)) = int i"
    and other: "\<And>i. i \<in> {1..n} \<Longrightarrow> seg_size (g i) \<noteq> f \<longleftrightarrow> i = n"
  shows "js_count s = int n" "js_min s = 1" "js_max s = int n" "js_difMin s = int n" "js_difSize s = seg_size (g n)"
proof -
  have ne: "es \<noteq> []" using assms(3,4) by auto
  have ok: "js_count s = int n" "\<exists>i\<in>{1..n}. js_min s = int i" "\<forall>i\<in>{1..n}. js_min s \<le> int i"
    "\<forall>i\<in>{1..n}. int i \<le> js_max s" "js_max s = -1 \<or> (\<exists>i\<in>{1..n}. js_max s = int i)"
    "\<forall>i\<in>{1..n}. i = n \<longrightarrow> js_difMin s \<le> int i" "js_difMin s = 999999 \<or> (\<exists>i\<in>{1..n}. i = n \<and> js_difMin s = int i)"
    "(\<forall>i\<in>{1..n}. seg_size (g i) = f) \<or> (\<exists>i\<in>{1..n}. i = n \<and> js_difSize s = seg_size (g i))"
  proof -
    have "js_count s = int n \<and> ((\<exists>i\<in>{1..n}. js_min s = int i) \<and> (\<forall>i\<in>{1..n}. js_min s \<le> int i)) \<and>
      (\<forall>i\<in>{1..n}. int i \<le> js_max s) \<and> (js_max s = -1 \<or> (\<exists>i\<in>{1..n}. js_max s = int i)) \<and>
      (\<forall>i\<in>{1..n}. i = n \<longrightarrow> js_difMin s \<le> int i) \<and>
      (js_difMin s = 999999 \<or> (\<exists>i\<in>{1..n}. i = n \<and> js_difMin s = int i)) \<and>
      ((\<forall>i\<in>{1..n}. seg_size (g i) = f) \<or> (\<exists>i\<in>{1..n}. i = n \<and> js_difSize s = seg_size (g i)))"
      using assms(1) ne num other unfolding scan_ok_def assms(2,3)
      by (simp only: ball_simps bex_simps if_False cong: ball_cong bex_cong) blast
    then show "js_count s = int n" "\<exists>i\<in>{1..n}. js_min s = int i" "\<forall>i\<in>{1..n}. js_min s \<le> int i"
      "\<forall>i\<in>{1..n}. int i \<le> js_max s" "js_max s = -1 \<or> (\<exists>i\<in>{1..n}. js_max s = int i)"
      "\<forall>i\<in>{1..n}. i = n \<longrightarrow> js_difMin s \<le> int i" "js_difMin s = 999999 \<or> (\<exists>i\<in>{1..n}. i = n \<and> js_difMin s = int i)"
      "(\<forall>i\<in>{1..n}. seg_size (g i) = f) \<or> (\<exists>i\<in>{1..n}. i = n \<and> js_difSize s = seg_size (g i))"
      by blast+
  qed
  show "js_count s = int n" by (rule ok)
  have one: "1 \<in> {1..n}" "n \<in> {1..n}" using assms(4) by simp_all
  have "js_min s \<le> int 1" using ok(3) one(1) by (rule bspec)
  moreover have "js_min s \<ge> 1" using ok(2) by auto
  ultimately show "js_min s = 1" by simp
  have "int n \<le> js_max s" using ok(4) one(2) by (rule bspec)
  moreover have "js_max s \<le> int n" using ok(5) by auto
  ultimately show "js_max s = int n" by simp
  have "js_difMin s \<le> int n" using ok(6) one(2) by blast
  then show "js_difMin s = int n" using ok(7) assms(5) by auto
  show "js_difSize s = seg_size (g n)" using ok(8) one(2) other [of n] by blast
qed

text \<open>C35: Joining works for a complete set: when the directory holds, in any order and among other files, the
  fragments 001 to n of one split file and no other fragments, all of the same size but the last one,
  which is smaller, then the joined file is their contents in the order of their numbers, and all
  of them are reported as used.\<close>

theorem join_file_correct:
  assumes base: "is_split (fragment_name base 1)" and n: "2 \<le> length parts" "length parts < 1000"
    and sizes: "0 < sz" "\<forall>p\<in>set (butlast parts). length p = sz" "length (last parts) < sz"
    and dir: "mset (filter (\<lambda>e. \<not> de_isDir e \<and> is_split (de_name e)) dir) = mset (map (fragment base parts) [1..<Suc (length parts)])"
  shows "join_file False dir (fragment_name base 1) =
    Some ((base, concat parts), map (fragment_name base) [1..<Suc (length parts)])"
proof -
  let ?n = "length parts"
  let ?es = "filter is_fragment dir"
  have set: "set ?es = fragment base parts ` {1..?n}"
    using arg_cong [OF dir, of set_mset] by (simp add: atLeastLessThanSuc_atLeastAtMost del: upt_Suc)
  have len: "length ?es = ?n" using mset_eq_length [OF dir] by (simp del: upt_Suc)
  have entry: "find_entry (fragment_name base i) dir = Some (fragment base parts i)" if i: "i \<in> {1..?n}" for i
    unfolding find_entry_def
  proof (rule find_unique)
    show "fragment base parts i \<in> set dir" using set i by auto
    show "de_name (fragment base parts i) = fragment_name base i \<and> \<not> de_isDir (fragment base parts i)"
      by (simp add: fragment_def)
    fix e assume e: "e \<in> set dir" "de_name e = fragment_name base i \<and> \<not> de_isDir e"
    then have "e \<in> set ?es" using is_split_fragment [OF base] by simp
    then obtain j where j: "j \<in> {1..?n}" "e = fragment base parts j" unfolding set by blast
    then have "fragment_name base j = fragment_name base i" using e by (simp add: fragment_def)
    then have "j = i" using fragment_name_inj i j(1) n(2) by (metis atLeastAtMost_iff le_less_trans)
    then show "e = fragment base parts i" using j by simp
  qed
  define s where "s = foldl (join_step (int sz)) join_init dir"
  have num: "segment_number (de_name (fragment base parts i)) = int i" if "i \<in> {1..?n}" for i
    using that n(2) by (simp add: fragment_def)
  have size: "seg_size (fragment base parts i) = (if i = ?n then int (length (last parts)) else int sz)" if "i \<in> {1..?n}" for i
  proof (cases "i = ?n")
    case True
    have "parts \<noteq> []" using n(1) by auto
    then show ?thesis using True by (simp add: fragment_def last_conv_nth)
  next
    case False
    then have "butlast parts ! (i - 1) \<in> set (butlast parts)" "butlast parts ! (i - 1) = parts ! (i - 1)"
      using that by (auto intro!: nth_mem simp: nth_butlast)
    then show ?thesis using False sizes(2) by (simp add: fragment_def)
  qed
  have "scan_ok (int sz) ?es s" unfolding s_def join_scan_filter [of _ _ dir]
    by (rule join_scan_result) (use set num in auto)
  then have scan: "js_count s = int ?n" "js_min s = 1" "js_max s = int ?n" "js_difMin s = int ?n"
      "js_difSize s = int (length (last parts))"
    using scan_consecutive [of "int sz" ?es s "fragment base parts" ?n] set len n num size sizes(3) by simp_all
  have fs: "find_entry (fragment_name base 1) dir = Some (fragment base parts 1)" using entry n(1) by simp
  have f1: "seg_size (fragment base parts 1) = int sz" using size [of 1] n(1) by simp
  have "join_loop dir base [nat (js_min s)..<Suc (nat (js_max s))] =
      (concat parts, map (fragment_name base) [1..<Suc ?n])"
    using join_loop_all [of "[1..<Suc ?n]" base dir parts] entry concat_from_one [of parts] scan by (simp del: upt_Suc)
  moreover have "0 < int sz * (int ?n - 1)" using sizes(1) n(1) by simp
  then have "\<not> int sz * (int ?n - 1) + int (length (last parts)) \<le> 0" by linarith
  ultimately show ?thesis
    using fs f1 scan n(1) sizes by (simp add: join_file_def Let_def trim_fragment s_def [symmetric] join_refused_def del: upt_Suc)
qed

text \<open>The scan counts the fragments of all split files of the directory: a file whose last fragment is missing is
  joined without it when another file has a fragment with that number, and two complete files in
  one directory are both refused.\<close>

definition plain_file :: "cstring \<Rightarrow> cstring \<Rightarrow> dir_entry" where
  "plain_file name content = \<lparr>de_name = name, de_isDir = False, de_content = content\<rparr>"

text \<open>The fragments of all split files of the directory are counted together: an incomplete file is joined when
  another one has the number it misses, and two complete files are refused.\<close>

theorem joining_mixes_split_files:
  "join_file False [plain_file ''a.avi.001'' ''abcd'', plain_file ''a.avi.002'' ''efgh'', plain_file ''b.avi.003'' ''x''] ''a.avi.001'' =
     Some ((''a.avi'', ''abcdefgh''), [''a.avi.001'', ''a.avi.002'']) \<and>
   join_split_files False
     [plain_file ''a.avi.001'' ''abcd'', plain_file ''a.avi.002'' ''ef'', plain_file ''b.avi.001'' ''qrst'', plain_file ''b.avi.002'' ''u'']
     [plain_file ''a.avi.001'' ''abcd'', plain_file ''a.avi.002'' ''ef'', plain_file ''b.avi.001'' ''qrst'', plain_file ''b.avi.002'' ''u''] =
     ([], [], False)"
  by code_simp

theorem join_file_correct_witness:
  "join_file False [plain_file ''a.avi.002'' ''xy'', plain_file ''a.nfo'' ''text'', plain_file ''a.avi.001'' ''abcd''] ''a.avi.001'' =
     Some ((''a.avi'', ''abcdxy''), [''a.avi.001'', ''a.avi.002''])"
proof -
  let ?dir = "[plain_file ''a.avi.002'' ''xy'', plain_file ''a.nfo'' ''text'', plain_file ''a.avi.001'' ''abcd'']"
  have names: "fragment_name ''a.avi'' 1 = ''a.avi.001''" "fragment_name ''a.avi'' 2 = ''a.avi.002''"
    "fragment_name ''a.avi'' (Suc (Suc 0)) = ''a.avi.002''" "is_split ''a.avi.001''" "is_split ''a.avi.002''" "\<not> is_split ''a.nfo''" by code_simp+
  have "mset (filter (\<lambda>e. \<not> de_isDir e \<and> is_split (de_name e)) ?dir) =
      mset (map (fragment ''a.avi'' [''abcd'', ''xy'']) [1..<Suc (length [''abcd'', ''xy''])])"
    by (simp add: plain_file_def fragment_def names names [simplified])
  from join_file_correct [OF _ _ _ _ _ _ this, of 4] show ?thesis
    by (simp add: names names [simplified])
qed

end
