(* ===== verification/Unpack.thy ===== *)
theory Unpack
  imports Archives
begin

text \<open>
  One unpack job (\<open>UnpackController\<close> of \<open>daemon/postprocess/UnpackController.cpp\<close>): running the unpackers with
  the passwords, reading what they print, and what the job leaves in the download and in its
  post-processing record. The external programs, the file system and the clock are in
  \<open>unpack_env\<close>; messages and progress are left out.
\<close>

section \<open>State\<close>

datatype unpacker = upUnrar | upSevenZip

text \<open>\<open>ue_run n\<close> is the n-th run of a program: the lines it prints (with the prefix the log puts before them),
  whether the user stops the job meanwhile, and the exit code. \<open>ue_passwords\<close> are the lines of the
  password file if it can be opened, \<open>ue_moved\<close> tells whether all unpacked files could be moved.\<close>

record unpack_env =
  ue_dir :: "dir_entry list"
  ue_hasPars :: bool
  ue_exists :: "cstring \<Rightarrow> bool"
  ue_extracted :: "cstring list"
  ue_startable :: "unpacker \<Rightarrow> bool"
  ue_run :: "nat \<Rightarrow> unpacker \<Rightarrow> bool \<Rightarrow> cstring \<Rightarrow> cstring list \<times> bool \<times> int"
  ue_moved :: bool
  ue_seconds :: int
  ue_names :: name_options
  ue_passFile :: cstring
  ue_passwords :: "cstring list option"
  ue_ignoreExt :: cstring
  ue_useTempDir :: bool
  ue_cleanupDisk :: bool
  ue_parRename :: bool

record unpack_state =
  up_password :: cstring
  up_scan :: archive_scan
  up_finalDir :: cstring
  up_finalDirCreated :: bool
  up_unpackDirCreated :: bool
  up_ok :: bool
  up_startError :: bool
  up_spaceError :: bool
  up_decryptError :: bool
  up_passwordError :: bool
  up_allOk :: bool
  up_terminated :: bool
  up_autoTerminated :: bool
  up_stopped :: bool
  up_passListTried :: bool
  up_runs :: nat
  up_joined :: "cstring list"

definition unpack_init :: unpack_state where
  "unpack_init = \<lparr>up_password = [], up_scan = no_archives, up_finalDir = [], up_finalDirCreated = False,
     up_unpackDirCreated = False, up_ok = True, up_startError = False, up_spaceError = False, up_decryptError = False,
     up_passwordError = False, up_allOk = False, up_terminated = False, up_autoTerminated = False, up_stopped = False,
     up_passListTried = False, up_runs = 0, up_joined = []\<rparr>"

section \<open>Reading the output\<close>

text \<open>\<open>AddMessage\<close>: the lines that tell errors, a cancelled job, and success. \<open>strncmp\<close> compares as many
  characters as the code says.\<close>

definition says :: "cstring \<Rightarrow> cstring \<Rightarrow> bool" where
  "says msg txt \<longleftrightarrow> strstr txt msg \<noteq> None"

definition decrypt_line :: "unpacker \<Rightarrow> cstring \<Rightarrow> bool" where
  "decrypt_line u txt \<longleftrightarrow>
     (u = upUnrar \<and> (starts_with (take 42 ''Unrar: Checksum error in the encrypted file'') txt \<or>
        starts_with (take 39 ''Unrar: CRC failed in the encrypted file'') txt)) \<or>
     (u = upSevenZip \<and> (says ''Cannot open encrypted archive. Wrong password?'' txt \<or>
        says ''Data Error in encrypted file. Wrong password?'' txt \<or> says ''CRC Failed in encrypted file. Wrong password?'' txt))"

definition password_line :: "unpacker \<Rightarrow> cstring \<Rightarrow> bool" where
  "password_line u txt \<longleftrightarrow> u = upUnrar \<and>
     (starts_with (take 43 ''Unrar: The specified password is incorrect.'') txt \<or>
      starts_with (take 29 ''Unrar: Incorrect password for'') txt)"

definition damage_line :: "cstring \<Rightarrow> bool" where
  "damage_line txt \<longleftrightarrow>
     says '' : packed data CRC failed in volume'' txt \<or> says '' : packed data checksum error in volume'' txt \<or>
     (length txt > 13 \<and> tail_of 13 txt = '' - CRC failed'') \<or> (length txt > 18 \<and> tail_of 18 txt = '' - checksum failed'') \<or>
     starts_with (take 67 ''Unrar: WARNING: You need to start extraction from a previous volume'') txt"

definition ok_line :: "unpacker \<Rightarrow> cstring \<Rightarrow> bool" where
  "ok_line u txt \<longleftrightarrow> (u = upUnrar \<and> starts_with (take 13 ''Unrar: All OK'') txt) \<or>
     (u = upSevenZip \<and> starts_with (take 23 ''7-Zip: Everything is Ok'') txt)"

definition unpack_add_message :: "unpacker \<Rightarrow> cstring \<Rightarrow> unpack_state \<Rightarrow> unpack_state" where
  "unpack_add_message u txt st =
     (let st = st\<lparr>up_decryptError := up_decryptError st \<or> decrypt_line u txt,
                  up_passwordError := up_passwordError st \<or> password_line u txt\<rparr>;
          st = (if \<not> up_stopped st \<and> (up_decryptError st \<or> up_passwordError st \<or> damage_line txt)
                then st\<lparr>up_autoTerminated := True, up_stopped := True, up_terminated := True\<rparr> else st)
      in if ok_line u txt then st\<lparr>up_allOk := True\<rparr> else st)"

definition read_output :: "unpacker \<Rightarrow> cstring list \<Rightarrow> unpack_state \<Rightarrow> unpack_state" where
  "read_output u lines st = foldl (\<lambda>st txt. if up_terminated st then st else unpack_add_message u txt st) st lines"

section \<open>Running the unpackers\<close>

text \<open>\<open>ExecuteUnrar\<close>, \<open>ExecuteSevenZip\<close>.\<close>

definition execute_unpack :: "unpack_env \<Rightarrow> unpacker \<Rightarrow> bool \<Rightarrow> cstring \<Rightarrow> unpack_state \<Rightarrow> unpack_state" where
  "execute_unpack ue u multi password st =
     (if \<not> ue_startable ue u then st\<lparr>up_ok := False, up_startError := True\<rparr>
      else case ue_run ue (up_runs st) u multi password of
        (lines, userStop, exitCode) \<Rightarrow>
          let st = read_output u lines (st\<lparr>up_allOk := False, up_runs := up_runs st + 1\<rparr>);
              st = (if userStop then st\<lparr>up_stopped := True, up_terminated := True\<rparr> else st);
              st = st\<lparr>up_ok := exitCode = 0 \<and> up_allOk st \<and> \<not> up_terminated st,
                      up_startError := exitCode = -1 \<and> \<not> up_autoTerminated st\<rparr>
          in if u = upUnrar
             then st\<lparr>up_spaceError := exitCode = 5, up_passwordError := up_passwordError st \<or> exitCode = 11\<rparr>
             else st)"

text \<open>The loop over the password file.\<close>

definition trim_newline :: "cstring \<Rightarrow> cstring" where
  "trim_newline s = rev (dropWhile (\<lambda>c. c = lf \<or> c = cr) (rev s))"

abbreviation password_wanted :: "unpack_state \<Rightarrow> bool" where
  "password_wanted st \<equiv> \<not> up_ok st \<and> \<not> up_startError st \<and> \<not> up_spaceError st \<and> (up_decryptError st \<or> up_passwordError st)"

definition resume :: "unpack_state \<Rightarrow> unpack_state" where
  "resume st = (if up_stopped st \<and> up_autoTerminated st then st\<lparr>up_terminated := False, up_stopped := False\<rparr> else st)"

fun try_passwords :: "unpack_env \<Rightarrow> unpacker \<Rightarrow> bool \<Rightarrow> cstring list \<Rightarrow> unpack_state \<Rightarrow> unpack_state" where
  "try_passwords ue u multi [] st = st"
| "try_passwords ue u multi (line # lines) st =
     (if password_wanted st
      then let password = trim_newline line
           in if password = [] then try_passwords ue u multi lines st
              else try_passwords ue u multi lines
                     (execute_unpack ue u multi password
                        ((resume st)\<lparr>up_decryptError := False, up_passwordError := False, up_autoTerminated := False\<rparr>))
      else st)"

definition rank_of_status :: "unpack_status \<Rightarrow> int" where
  "rank_of_status s = int (unpack_status_rank s)"

text \<open>\<open>UnpackArchives\<close>.\<close>

definition with_password_file :: "unpack_env \<Rightarrow> unpacker \<Rightarrow> bool \<Rightarrow> unpack_state \<Rightarrow> unpack_state" where
  "with_password_file ue u multi st =
     (if password_wanted st \<and> (\<not> up_terminated st \<or> up_autoTerminated st) \<and> up_password st = [] \<and> ue_passFile ue \<noteq> []
      then case ue_passwords ue of
             None \<Rightarrow> st
           | Some lines \<Rightarrow>
               let st = try_passwords ue u multi lines st
               in st\<lparr>up_passListTried := \<not> up_stopped st \<or> up_autoTerminated st\<rparr>
      else st)"

definition unpack_archives :: "unpack_env \<Rightarrow> post_info \<Rightarrow> nzb_info \<Rightarrow> unpacker \<Rightarrow> bool \<Rightarrow> unpack_state \<Rightarrow> unpack_state" where
  "unpack_archives ue pi nz u multi st =
     (if \<not> pi_unpackTried pi \<or> pi_parRepaired pi
      then let st = execute_unpack ue u multi (up_password st) st
           in if \<not> up_ok st \<and> ue_hasPars ue \<and> \<not> up_passwordError st \<and> nz_parStatus nz \<le> psSkipped then st
              else with_password_file ue u multi st
      else with_password_file ue u multi
             (st\<lparr>up_ok := False, up_decryptError := pi_lastUnpackStatus pi = rank_of_status usPassword\<rparr>))"

section \<open>The job\<close>

definition want_unpack :: "nzb_info \<Rightarrow> bool" where
  "want_unpack nz \<longleftrightarrow>
     \<not> (case find_parameter ''*Unpack:'' (nz_ppParameters nz) of None \<Rightarrow> False | Some p \<Rightarrow> strcase_eq (np_value p) ''no'')"

definition unpack_password :: "nzb_info \<Rightarrow> cstring" where
  "unpack_password nz = (case find_parameter ''*Unpack:Password'' (nz_ppParameters nz) of None \<Rightarrow> [] | Some p \<Rightarrow> np_value p)"

definition in_inter_dir :: "cstring \<Rightarrow> nzb_info \<Rightarrow> bool" where
  "in_inter_dir interDir nz \<longleftrightarrow>
     interDir \<noteq> [] \<and> starts_with interDir (nz_destDir nz) \<and> peek (drop (length interDir) (nz_destDir nz)) = CHR ''/''"

text \<open>\<open>CreateUnpackDir\<close>.\<close>

definition create_unpack_dir :: "unpack_env \<Rightarrow> nzb_info \<Rightarrow> unpack_state \<Rightarrow> nzb_info \<times> unpack_state" where
  "create_unpack_dir ue nz st =
     (let (nz, st) =
            (if in_inter_dir (no_interDir (ue_names ue)) nz \<and> up_finalDir st = []
             then let d = build_final_dir_name (ue_names ue) nz
                  in (nz\<lparr>nz_finalDir := d\<rparr>, st\<lparr>up_finalDir := d, up_finalDirCreated := \<not> ue_exists ue d\<rparr>)
             else (nz, st));
          dest = (if up_finalDir st \<noteq> [] then up_finalDir st else nz_destDir nz);
          dir = (if ue_useTempDir ue then dest @ ''/_unpack'' else dest)
      in (nz, st\<lparr>up_unpackDirCreated := \<not> ue_exists ue dir\<rparr>))"

text \<open>\<open>Cleanup\<close>: whether the unpacked files are in place, and the archives that are deleted then.\<close>

definition cleanup_ok :: "unpack_env \<Rightarrow> unpack_state \<Rightarrow> bool" where
  "cleanup_ok ue st \<longleftrightarrow> \<not> (up_ok st \<and> ue_useTempDir ue) \<or> ue_moved ue"

definition deleted_archives :: "unpack_env \<Rightarrow> unpack_state \<Rightarrow> cstring list" where
  "deleted_archives ue st =
     (if up_ok st \<and> cleanup_ok ue st \<and> ue_cleanupDisk ue
      then map de_name (filter (\<lambda>e. \<not> de_isDir e \<and> \<not> (ue_useTempDir ue \<and> de_name e \<in> set (ue_extracted ue)) \<and>
             (is_rar (de_name e) \<or> is_seven_zip (de_name e) \<or> is_seven_zip_multi (de_name e) \<or>
              (is_rar_volume (de_name e) \<and> has_rar_signature (de_content e)) \<or>
              (as_split (up_scan st) \<and> is_split (de_name e) \<and> de_name e \<in> set (up_joined st)))) (ue_dir ue))
      else [])"

text \<open>\<open>RequestParCheck\<close> and \<open>Completed\<close>.\<close>

definition failure_status :: "unpack_state \<Rightarrow> unpack_status" where
  "failure_status st =
     (if up_spaceError st then usSpace else if up_passwordError st \<or> up_decryptError st then usPassword else usFailure)"

definition request_par_check :: "bool \<Rightarrow> unpack_state \<Rightarrow> post_info \<Rightarrow> post_info" where
  "request_par_check forceRepair st pi = pi\<lparr>pi_requestParCheck := True, pi_forceRepair := forceRepair,
     pi_unpackTried := True, pi_passListTried := up_passListTried st, pi_lastUnpackStatus := rank_of_status (failure_status st)\<rparr>"

definition unpack_completed :: "unpack_env \<Rightarrow> unpack_state \<Rightarrow> post_info \<times> nzb_info \<Rightarrow> post_info \<times> nzb_info" where
  "unpack_completed ue st job =
     (case job of (pi, nz) \<Rightarrow>
        if up_ok st \<and> cleanup_ok ue st
        then let nz = nz\<lparr>nz_unpackStatus := usSuccess, nz_unpackCleanedUpDisk := ue_cleanupDisk ue\<rparr>
             in (pi, if ue_parRename ue then nz\<lparr>nz_parRenameStatus := rsNone\<rparr> else nz)
        else if \<not> up_ok st \<and> (nz_parStatus nz \<le> psSkipped \<or> \<not> nz_parFull nz) \<and> \<not> up_startError st \<and>
                \<not> up_spaceError st \<and> \<not> up_passwordError st \<and> (\<not> up_terminated st \<or> up_autoTerminated st) \<and> ue_hasPars ue
        then (request_par_check
               (up_password st \<noteq> [] \<or> ue_passFile ue = [] \<or> up_passListTried st \<or>
                \<not> (up_decryptError st \<or> up_passwordError st) \<or> nz_parStatus nz > psSkipped) st pi, nz)
        else (pi, nz\<lparr>nz_unpackStatus := failure_status st\<rparr>))"

text \<open>\<open>Run\<close>. \<open>Completed\<close> is a second attempt only if the par-check repaired something or there are passwords left to
  try.\<close>

definition second_attempt_useless :: "unpack_env \<Rightarrow> cstring \<Rightarrow> post_info \<Rightarrow> bool" where
  "second_attempt_useless ue password pi \<longleftrightarrow>
     pi_unpackTried pi \<and> \<not> pi_parRepaired pi \<and> (password \<noteq> [] \<or> ue_passFile ue = [] \<or> pi_passListTried pi)"

definition status_of_rank :: "int \<Rightarrow> unpack_status" where
  "status_of_rank r =
     (if r = 1 then usSkipped else if r = 2 then usFailure else if r = 3 then usSuccess else if r = 4 then usSpace
      else if r = 5 then usPassword else usNone)"

definition rar_phase :: "unpack_env \<Rightarrow> post_info \<Rightarrow> nzb_info \<Rightarrow> unpack_state \<Rightarrow> post_info \<times> unpack_state" where
  "rar_phase ue pi nz st =
     (if as_rar (up_scan st) \<and> (as_notUnpackedRar (up_scan st) \<or> up_unpackDirCreated st)
      then (pi\<lparr>pi_extractedArchives := []\<rparr>, unpack_archives ue pi nz upUnrar False st) else (pi, st))"

definition seven_zip_phase :: "unpack_env \<Rightarrow> post_info \<Rightarrow> nzb_info \<Rightarrow> bool \<Rightarrow> unpack_state \<Rightarrow> unpack_state" where
  "seven_zip_phase ue pi nz multi st =
     (if (if multi then as_sevenZipMulti (up_scan st) else as_sevenZip (up_scan st)) \<and> up_ok st
      then unpack_archives ue pi nz upSevenZip multi st else st)"

definition join_phase :: "unpack_env \<Rightarrow> nzb_info \<Rightarrow> unpack_state \<Rightarrow> unpack_state" where
  "join_phase ue nz st =
     (if as_split (up_scan st) \<and> up_ok st
      then case join_split_files (nz_parStatus nz = psSuccess) (ue_dir ue) (ue_dir ue) of
             (_, joined, ok) \<Rightarrow> st\<lparr>up_ok := ok, up_joined := joined\<rparr>
      else st)"

definition unpack_all :: "unpack_env \<Rightarrow> post_info \<times> nzb_info \<Rightarrow> unpack_state \<Rightarrow> (post_info \<times> nzb_info) \<times> unpack_state" where
  "unpack_all ue job st =
     (case job of (pi, nz) \<Rightarrow>
        case create_unpack_dir ue nz st of (nz, st) \<Rightarrow>
        case rar_phase ue pi nz st of (pi, st) \<Rightarrow>
          ((pi, nz), join_phase ue nz (seven_zip_phase ue pi nz True (seven_zip_phase ue pi nz False st))))"

definition nothing_to_unpack :: "unpack_env \<Rightarrow> unpack_state \<Rightarrow> post_info \<times> nzb_info \<Rightarrow> post_info \<times> nzb_info" where
  "nothing_to_unpack ue st job =
     (case job of (pi, nz) \<Rightarrow>
        if nz_parStatus nz \<le> psSkipped \<and> (nz_parRenameStatus nz = rsNone \<or> nz_parRenameStatus nz = rsSkipped) \<and> ue_hasPars ue
        then (request_par_check False st pi, nz)
        else if as_renamed (up_scan st) then (pi, nz\<lparr>nz_unpackStatus := usFailure\<rparr>)
        else (pi, nz\<lparr>nz_unpackStatus := usSkipped\<rparr>))"

definition unpack_start :: "unpack_env \<Rightarrow> post_info \<Rightarrow> nzb_info \<Rightarrow> unpack_state" where
  "unpack_start ue pi nz = unpack_init\<lparr>up_password := unpack_password nz, up_finalDir := nz_finalDir nz,
     up_scan := (if want_unpack nz then check_archive_files (ue_ignoreExt ue) (pi_extractedArchives pi) (ue_dir ue)
                 else no_archives)\<rparr>"

definition unpack_run :: "unpack_env \<Rightarrow> post_info \<times> nzb_info \<Rightarrow> post_info \<times> nzb_info" where
  "unpack_run ue job =
     (case job of (pi, nz) \<Rightarrow>
        let st = unpack_start ue pi nz;
            job = (if second_attempt_useless ue (up_password st) pi
                   then (pi, nz\<lparr>nz_unpackStatus := status_of_rank (pi_lastUnpackStatus pi)\<rparr>)
                   else if want_unpack nz \<and> has_archives (up_scan st)
                   then case unpack_all ue job st of (job, st) \<Rightarrow> unpack_completed ue st job
                   else if want_unpack nz then nothing_to_unpack ue st job
                   else (pi, nz\<lparr>nz_unpackStatus := usSkipped\<rparr>))
        in case job of (pi, nz) \<Rightarrow> (pi\<lparr>pi_working := False\<rparr>, nz\<lparr>nz_unpackSec := nz_unpackSec nz + ue_seconds ue\<rparr>))"

section \<open>When an archive counts as unpacked\<close>

definition reported_ok :: "unpack_env \<Rightarrow> unpacker \<Rightarrow> bool \<Rightarrow> bool" where
  "reported_ok ue u multi \<longleftrightarrow> (\<exists>n password. case ue_run ue n u multi password of
     (lines, userStop, exitCode) \<Rightarrow> exitCode = 0 \<and> \<not> userStop \<and> (\<exists>l\<in>set lines. ok_line u l))"

lemma unpack_add_message_allOk: "up_allOk (unpack_add_message u txt st) \<longleftrightarrow> up_allOk st \<or> ok_line u txt"
  by (simp add: unpack_add_message_def Let_def)

lemma read_output_allOk: "up_allOk (read_output u lines st) \<Longrightarrow> up_allOk st \<or> (\<exists>l\<in>set lines. ok_line u l)"
  unfolding read_output_def
proof (induction lines arbitrary: st)
  case (Cons l lines)
  then show ?case by (cases "up_terminated st") (fastforce simp: unpack_add_message_allOk)+
qed simp

lemma execute_ok: "up_ok (execute_unpack ue u multi password st) \<Longrightarrow> reported_ok ue u multi"
proof -
  assume ok: "up_ok (execute_unpack ue u multi password st)"
  obtain lines stop code where r: "ue_run ue (up_runs st) u multi password = (lines, stop, code)" by (cases "ue_run ue (up_runs st) u multi password") auto
  let ?st = "read_output u lines (st\<lparr>up_allOk := False, up_runs := up_runs st + 1\<rparr>)"
  have "code = 0" "\<not> stop" "up_allOk ?st"
    using ok by (auto simp: execute_unpack_def r Let_def split: if_splits)
  moreover from read_output_allOk [OF this(3)] have "\<exists>l\<in>set lines. ok_line u l" by simp
  ultimately show ?thesis unfolding reported_ok_def by (intro exI [of _ "up_runs st"] exI [of _ password]) (simp add: r)
qed

lemma try_passwords_ok: "up_ok (try_passwords ue u multi lines st) \<Longrightarrow> up_ok st \<or> reported_ok ue u multi"
proof (induction lines arbitrary: st)
  case (Cons l lines)
  then show ?case by (auto simp: Let_def dest: execute_ok split: if_splits)
qed simp

lemma with_password_file_ok: "up_ok (with_password_file ue u multi st) \<Longrightarrow> up_ok st \<or> reported_ok ue u multi"
  by (auto simp: with_password_file_def Let_def split: if_splits option.splits dest: try_passwords_ok)

lemma unpack_archives_ok: "up_ok (unpack_archives ue pi nz u multi st) \<Longrightarrow> reported_ok ue u multi"
  by (auto simp: unpack_archives_def Let_def split: if_splits dest: execute_ok dest!: with_password_file_ok)

lemma read_output_scan [simp]: "up_scan (read_output u lines st) = up_scan st"
  unfolding read_output_def by (induction lines arbitrary: st) (simp_all add: unpack_add_message_def Let_def)

lemma execute_scan [simp]: "up_scan (execute_unpack ue u multi password st) = up_scan st"
  by (simp add: execute_unpack_def Let_def split: prod.split)

lemma try_passwords_scan [simp]: "up_scan (try_passwords ue u multi lines st) = up_scan st"
  by (induction lines arbitrary: st) (simp_all add: Let_def resume_def)

lemma with_password_file_scan [simp]: "up_scan (with_password_file ue u multi st) = up_scan st"
  by (simp add: with_password_file_def Let_def split: option.split)

lemma unpack_archives_scan [simp]: "up_scan (unpack_archives ue pi nz u multi st) = up_scan st"
  by (simp add: unpack_archives_def Let_def)

lemma create_unpack_dir_keeps:
  assumes "create_unpack_dir ue nz st = (nz', st')"
  shows "up_scan st' = up_scan st" "\<exists>d. nz' = nz \<or> nz' = nz\<lparr>nz_finalDir := d\<rparr>"
proof -
  have "up_scan (snd (create_unpack_dir ue nz st)) = up_scan st"
    "fst (create_unpack_dir ue nz st) = nz \<or> fst (create_unpack_dir ue nz st) =
       nz\<lparr>nz_finalDir := build_final_dir_name (ue_names ue) nz\<rparr>"
    by (simp_all add: create_unpack_dir_def Let_def)
  then show "up_scan st' = up_scan st" "\<exists>d. nz' = nz \<or> nz' = nz\<lparr>nz_finalDir := d\<rparr>"
    unfolding assms fst_conv snd_conv by blast+
qed

lemma rar_phase_keeps:
  assumes "rar_phase ue pi nz st = (pi', st')"
  shows "up_scan st' = up_scan st" "pi' = pi \<or> pi' = pi\<lparr>pi_extractedArchives := []\<rparr>"
proof -
  have "up_scan (snd (rar_phase ue pi nz st)) = up_scan st"
    "fst (rar_phase ue pi nz st) = pi \<or> fst (rar_phase ue pi nz st) = pi\<lparr>pi_extractedArchives := []\<rparr>"
    by (simp_all add: rar_phase_def)
  then show "up_scan st' = up_scan st" "pi' = pi \<or> pi' = pi\<lparr>pi_extractedArchives := []\<rparr>"
    unfolding assms fst_conv snd_conv by blast+
qed

lemma seven_zip_phase_scan [simp]: "up_scan (seven_zip_phase ue pi nz multi st) = up_scan st"
  by (simp add: seven_zip_phase_def)

lemma rar_phase_ok:
  "rar_phase ue pi nz st = (pi', st') \<Longrightarrow> up_ok st' \<Longrightarrow> as_rar (up_scan st) \<and> as_notUnpackedRar (up_scan st) \<Longrightarrow>
   reported_ok ue upUnrar False"
  by (auto simp: rar_phase_def split: if_splits dest: unpack_archives_ok)

lemma seven_zip_phase_ok:
  assumes "up_ok (seven_zip_phase ue pi nz multi st)"
  shows "up_ok st" "(if multi then as_sevenZipMulti (up_scan st) else as_sevenZip (up_scan st)) \<Longrightarrow> reported_ok ue upSevenZip multi"
  using assms by (auto simp: seven_zip_phase_def split: if_splits dest: unpack_archives_ok)

lemma join_phase_ok: "up_ok (join_phase ue nz st) \<Longrightarrow> up_ok st"
  by (auto simp: join_phase_def split: if_splits)

definition all_reported :: "unpack_env \<Rightarrow> archive_scan \<Rightarrow> bool" where
  "all_reported ue scan \<longleftrightarrow> (as_rar scan \<and> as_notUnpackedRar scan \<longrightarrow> reported_ok ue upUnrar False) \<and>
    (as_sevenZip scan \<longrightarrow> reported_ok ue upSevenZip False) \<and> (as_sevenZipMulti scan \<longrightarrow> reported_ok ue upSevenZip True)"

lemma unpack_all_ok:
  assumes "unpack_all ue (pi, nz) st = (job, st')" "up_ok st'"
  shows "all_reported ue (up_scan st)"
proof -
  obtain nz1 st1 pi2 st2 where c: "create_unpack_dir ue nz st = (nz1, st1)" "rar_phase ue pi nz1 st1 = (pi2, st2)" by fastforce
  let ?st3 = "seven_zip_phase ue pi2 nz1 False st2"
  let ?st4 = "seven_zip_phase ue pi2 nz1 True ?st3"
  have "st' = join_phase ue nz1 ?st4" using assms(1) by (simp add: unpack_all_def c)
  then have ok: "up_ok ?st4" using assms(2) join_phase_ok by blast
  then have ok3: "up_ok ?st3" by (rule seven_zip_phase_ok)
  then have ok2: "up_ok st2" by (rule seven_zip_phase_ok)
  have scan: "up_scan st1 = up_scan st" "up_scan st2 = up_scan st" using create_unpack_dir_keeps(1) [OF c(1)] rar_phase_keeps(1) [OF c(2)] by simp_all
  then show ?thesis using rar_phase_ok [OF c(2) ok2] seven_zip_phase_ok(2) [OF ok3] seven_zip_phase_ok(2) [OF ok]
    by (auto simp: all_reported_def)
qed

lemma unpack_all_keeps:
  assumes "unpack_all ue (pi, nz) st = ((pi', nz'), st')"
  shows "\<exists>d. nz' = nz \<or> nz' = nz\<lparr>nz_finalDir := d\<rparr>" "pi' = pi \<or> pi' = pi\<lparr>pi_extractedArchives := []\<rparr>"
proof -
  obtain nz1 st1 pi2 st2 where c: "create_unpack_dir ue nz st = (nz1, st1)" "rar_phase ue pi nz1 st1 = (pi2, st2)" by fastforce
  have "pi' = pi2" "nz' = nz1" using assms by (simp_all add: unpack_all_def c)
  then show "\<exists>d. nz' = nz \<or> nz' = nz\<lparr>nz_finalDir := d\<rparr>" "pi' = pi \<or> pi' = pi\<lparr>pi_extractedArchives := []\<rparr>"
    using create_unpack_dir_keeps(2) [OF c(1)] rar_phase_keeps(2) [OF c(2)] by simp_all
qed


definition one_archive_env :: unpack_env where
  "one_archive_env = \<lparr>ue_dir = [plain_file ''a.7z'' []], ue_hasPars = False, ue_exists = (\<lambda>_. False), ue_extracted = [],
     ue_startable = (\<lambda>_. True), ue_run = (\<lambda>_ _ _ _. ([''7-Zip: Everything is Ok''], False, 0)), ue_moved = True, ue_seconds = 3,
     ue_names = \<lparr>no_interDir = [], no_destDir = [], no_category = (\<lambda>_. None), no_appendCategoryDir = False, no_valid = (\<lambda>_ s. s)\<rparr>,
     ue_passFile = [], ue_passwords = None, ue_ignoreExt = [], ue_useTempDir = True, ue_cleanupDisk = True, ue_parRename = False\<rparr>"


end
