(* ===== verification/PostJob.thy ===== *)
theory PostJob
  imports Unpack NzbHealth
begin

text \<open>
  The stages of one post-processing job: the choice of the next stage and the requests for a par-check
  (\<open>daemon/postprocess/PrePostProcessor.cpp\<close>), and what the controller of each stage leaves in the download
  and its post-processing record (\<open>Rename.cpp\<close>, \<open>Repair.cpp\<close>, \<open>ParChecker.cpp\<close>, \<open>Cleanup.cpp\<close>,
  \<open>PostUnpackRenamer.cpp\<close> and \<open>daemon/extension/PostScript.cpp\<close>). What a stage finds out with the par2
  library, the file system and the scripts is in \<open>post_outcome\<close>; messages and progress are left out.
\<close>

section \<open>State\<close>

type_synonym post_job = "post_info \<times> nzb_info"

datatype par_scan = scLimited | scExtended | scFull | scDupe

record post_env =
  pe_he :: history_env
  pe_parScan :: par_scan
  pe_parQuick :: bool
  pe_parRename :: bool
  pe_rarRename :: bool
  pe_renameAfterUnpack :: bool
  pe_extCleanupDisk :: cstring
  pe_scripts :: "cstring list"

datatype par_result = prFailed | prRepairPossible | prRepaired | prRepairNotNeeded

text \<open>\<open>po_parRun quick\<close> lists for the main par-files the result of their check, and whether files were taken as good
  because of their checksums alone.\<close>

record post_outcome =
  po_renamed :: int
  po_damagedPars :: bool
  po_missedFiles :: bool
  po_parRun :: "bool \<Rightarrow> (par_result \<times> bool) list"
  po_stopped :: bool
  po_parSeconds :: int
  po_downloadSec :: int
  po_ok :: bool
  po_obfuscated :: bool
  po_exitCode :: "cstring \<Rightarrow> int"

section \<open>Choosing the stage\<close>

definition enter_stage :: "post_stage \<Rightarrow> post_info \<Rightarrow> post_info" where
  "enter_stage stage pi = pi\<lparr>pi_working := True, pi_stage := stage\<rparr>"

definition start_clock :: "int \<Rightarrow> post_info \<Rightarrow> post_info" where
  "start_clock now pi = pi\<lparr>pi_startTime := (if pi_startTime pi = 0 then now else pi_startTime pi), pi_stageTime := now,
     pi_stageProgress := 0, pi_fileProgress := 0, pi_progressLabel := []\<rparr>"

definition hopeless :: "post_env \<Rightarrow> nzb_info \<Rightarrow> bool" where
  "hopeless pe nz \<longleftrightarrow> (pe_parScan pe \<noteq> scDupe \<and> calc_health nz < calc_critical_health False nz \<and>
     calc_critical_health False nz < 1000) \<or> calc_health nz = 0"

definition want_cleanup :: "post_env \<Rightarrow> nzb_info \<Rightarrow> bool" where
  "want_cleanup pe nz \<longleftrightarrow> want_unpack nz \<and> nz_cleanupStatus nz = csNone \<and> pe_extCleanupDisk pe \<noteq> [] \<and>
     ((nz_parStatus nz = psSuccess \<and> nz_unpackStatus nz \<noteq> usFailure \<and> nz_unpackStatus nz \<noteq> usSpace \<and>
         nz_unpackStatus nz \<noteq> usPassword) \<or>
      (nz_unpackStatus nz = usSuccess \<and> nz_parStatus nz \<noteq> psFailure) \<or>
      ((nz_unpackStatus nz = usNone \<or> nz_unpackStatus nz = usSkipped) \<and>
         (nz_parStatus nz = psNone \<or> nz_parStatus nz = psSkipped) \<and> calc_health nz = 1000))"

definition unpack_failed :: "nzb_info \<Rightarrow> bool" where
  "unpack_failed nz \<longleftrightarrow> nz_unpackStatus nz = usFailure \<or> nz_unpackStatus nz = usSpace \<or> nz_unpackStatus nz = usPassword"

definition want_move :: "post_env \<Rightarrow> nzb_info \<Rightarrow> bool" where
  "want_move pe nz \<longleftrightarrow> nz_moveStatus nz = msNone \<and> \<not> unpack_failed nz \<and> nz_parStatus nz \<noteq> psFailure \<and>
     nz_parStatus nz \<noteq> psManual \<and> nz_deleteStatus nz = dsNone \<and>
     \<not> ((nz_unpackStatus nz = usNone \<or> nz_unpackStatus nz = usSkipped) \<and>
        (nz_parStatus nz = psNone \<or> nz_parStatus nz = psSkipped) \<and> calc_health nz < 1000) \<and>
     in_inter_dir (no_interDir (he_names (pe_he pe))) nz"

definition want_post_rename :: "post_env \<Rightarrow> nzb_info \<Rightarrow> bool" where
  "want_post_rename pe nz \<longleftrightarrow> pe_renameAfterUnpack pe \<and> nz_postUnpackRenamingStatus nz = purNone \<and> nz_name nz \<noteq> None \<and>
     \<not> unpack_failed nz \<and> nz_parStatus nz \<noteq> psFailure \<and> nz_parStatus nz \<noteq> psManual \<and> nz_moveStatus nz = msSuccess"

text \<open>The parts of \<open>StartJob\<close>: par-rename and par-check, the requests in between, and the last stages. \<open>None\<close> is
  a part that leaves the job to the next one.\<close>

definition start_par :: "post_env \<Rightarrow> bool \<Rightarrow> post_job \<Rightarrow> post_job option" where
  "start_par pe allowPar job =
     (case job of (pi, nz) \<Rightarrow>
        if nz_parRenameStatus nz = rsNone \<and> nz_deleteStatus nz = dsNone \<and> pe_parRename pe
        then Some (enter_stage ptParRenaming pi, nz)
        else if nz_parStatus nz = psNone \<and> nz_deleteStatus nz = dsNone
        then Some (if has_main_pars (pe_he pe) nz
                   then if allowPar then ((enter_stage ptLoadingPars pi)\<lparr>pi_needParCheck := False\<rparr>, nz)
                        else (pi\<lparr>pi_needParCheck := True\<rparr>, nz)
                   else (pi, nz\<lparr>nz_parStatus := psSkipped\<rparr>))
        else if nz_parStatus nz = psSkipped \<and> hopeless pe nz \<and> has_main_pars (pe_he pe) nz
        then Some (pi, nz\<lparr>nz_parStatus := psFailure\<rparr>)
        else if nz_parStatus nz = psSkipped \<and> nz_failedSize nz - nz_parFailedSize nz > 0 \<and> has_main_pars (pe_he pe) nz
        then Some (pi\<lparr>pi_requestParCheck := True\<rparr>, nz)
        else None)"

definition unpack_pending :: "nzb_info \<Rightarrow> bool" where
  "unpack_pending nz \<longleftrightarrow> want_unpack nz \<and> nz_unpackStatus nz = usNone \<and> nz_deleteStatus nz = dsNone"

definition par_failed :: "nzb_info \<Rightarrow> bool" where
  "par_failed nz \<longleftrightarrow> nz_parStatus nz = psFailure \<or> nz_parStatus nz = psRepairPossible \<or> nz_parStatus nz = psManual"

definition start_rar :: "post_env \<Rightarrow> post_job \<Rightarrow> post_job option" where
  "start_rar pe job =
     (case job of (pi, nz) \<Rightarrow>
        if nz_rarRenameStatus nz = rsNone \<and> unpack_pending nz \<and> pe_rarRename pe
        then Some (enter_stage ptRarRenaming pi, nz)
        else if nz_parStatus nz = psSkipped \<and> nz_deleteStatus nz = dsNone \<and> he_parCheck (pe_he pe) = pcAuto \<and>
                \<not> has_completed_archive_files nz \<and> has_main_pars (pe_he pe) nz
        then Some (pi\<lparr>pi_requestParCheck := True\<rparr>, nz)
        else None)"

definition start_last :: "post_env \<Rightarrow> post_job \<Rightarrow> post_job" where
  "start_last pe job =
     (case job of (pi, nz) \<Rightarrow>
        let unpack = unpack_pending nz;
            cleanup = \<not> unpack \<and> want_cleanup pe nz;
            moveInter = \<not> unpack \<and> want_move pe nz;
            skip = unpack \<and> par_failed nz;
            nz = (if skip then nz\<lparr>nz_unpackStatus := usSkipped\<rparr> else nz);
            stage = (if unpack \<and> \<not> skip then ptUnpacking
                     else if cleanup then ptCleaningUp
                     else if moveInter then ptMoving
                     else if want_post_rename pe nz then ptPostUnpackRenaming
                     else ptExecutingScript)
        in (enter_stage stage pi, nz))"

definition start_job :: "post_env \<Rightarrow> bool \<Rightarrow> post_job \<Rightarrow> post_job" where
  "start_job pe allowPar job =
     (let job = apfst (start_clock (he_now (pe_he pe))) job
      in case start_par pe allowPar job of
           Some job' \<Rightarrow> job'
         | None \<Rightarrow> (case start_rar pe job of Some job' \<Rightarrow> job' | None \<Rightarrow> start_last pe job))"

section \<open>The end of a stage\<close>

text \<open>\<open>RenameCompleted\<close>. Only the par-rename looks for missed files and damaged par-files.\<close>

definition asks_for_pars :: "post_outcome \<Rightarrow> nzb_info \<Rightarrow> bool" where
  "asks_for_pars out nz \<longleftrightarrow> po_renamed out = 0 \<and> po_damagedPars out \<and> nz_remainingParCount nz > 0"

definition par_rename_completed :: "post_outcome \<Rightarrow> post_job \<Rightarrow> post_job" where
  "par_rename_completed out job =
     (case job of (pi, nz) \<Rightarrow>
        let nz = nz\<lparr>nz_parRenameStatus := (if po_renamed out > 0 then rsSuccess else rsNothing)\<rparr>;
            nz = (if asks_for_pars out nz
                  then let nz = pause_extra_pars (pause_files False nz)
                       in if nz_remainingSize nz > 0 then nz\<lparr>nz_parRenameStatus := rsNone\<rparr> else nz
                  else nz)
        in (pi\<lparr>pi_requestParCheck := pi_requestParCheck pi \<or> (po_missedFiles out \<and> nz_parStatus nz \<le> psSkipped),
               pi_working := False\<rparr>, nz))"

definition rar_rename_completed :: "post_outcome \<Rightarrow> post_job \<Rightarrow> post_job" where
  "rar_rename_completed out job =
     (case job of (pi, nz) \<Rightarrow>
        (pi\<lparr>pi_working := False\<rparr>, nz\<lparr>nz_rarRenameStatus := (if po_renamed out > 0 then rsSuccess else rsNothing)\<rparr>))"

text \<open>\<open>ParChecker::Execute\<close>: the worst result of the main par-files counts, and the check is full if no file was
  taken as good by its checksum. A quick check that finds nothing is repeated if the repair is forced.\<close>

fun worse :: "par_result \<Rightarrow> par_result \<Rightarrow> par_result" where
  "worse prFailed r = prFailed"
| "worse prRepairPossible r = (if r = prFailed then prFailed else prRepairPossible)"
| "worse prRepaired r = (if r = prRepairNotNeeded then prRepaired else r)"
| "worse prRepairNotNeeded r = r"

definition run_par_check_all :: "post_outcome \<Rightarrow> bool \<Rightarrow> par_result \<times> bool" where
  "run_par_check_all out quick =
     (foldl worse prRepairNotNeeded (map fst (po_parRun out quick)), \<not> (quick \<and> (\<exists>r\<in>set (po_parRun out quick). snd r)))"

definition par_execute :: "post_outcome \<Rightarrow> bool \<Rightarrow> bool \<Rightarrow> par_result \<times> bool" where
  "par_execute out quick forceRepair =
     (let r = run_par_check_all out quick
      in if fst r = prRepairNotNeeded \<and> quick \<and> forceRepair \<and> \<not> po_stopped out then run_par_check_all out False else r)"

definition par_check_completed :: "post_env \<Rightarrow> post_outcome \<Rightarrow> post_job \<Rightarrow> post_job" where
  "par_check_completed pe out job =
     (case job of (pi, nz) \<Rightarrow>
        case par_execute out (pe_parQuick pe \<and> \<not> pi_forceParFull pi) (pi_forceRepair pi) of (res, full) \<Rightarrow>
          let good = (res = prRepaired \<or> res = prRepairNotNeeded) \<and> nz_parStatus nz \<le> psSkipped;
              pi = (if good then pi\<lparr>pi_parRepaired := (res = prRepaired)\<rparr> else pi);
              wait = nz_downloadSec nz - po_downloadSec out
          in (pi\<lparr>pi_startTime := pi_startTime pi + wait, pi_working := False\<rparr>,
              nz\<lparr>nz_parStatus := (if good then psSuccess
                    else if res = prRepairPossible \<and> nz_parStatus nz \<noteq> psFailure then psRepairPossible else psFailure),
                 nz_parSec := nz_parSec nz + (po_parSeconds out - wait), nz_parFull := full\<rparr>))"

definition move_completed :: "post_env \<Rightarrow> post_outcome \<Rightarrow> post_job \<Rightarrow> post_job" where
  "move_completed pe out job =
     (case job of (pi, nz) \<Rightarrow>
        let dest = (if nz_finalDir nz = [] then build_final_dir_name (he_names (pe_he pe)) nz else nz_finalDir nz)
        in (pi\<lparr>pi_working := False\<rparr>,
            if po_ok out then nz\<lparr>nz_destDir := dest, nz_finalDir := [], nz_moveStatus := msSuccess\<rparr>
            else nz\<lparr>nz_moveStatus := msFailure\<rparr>))"

definition cleanup_completed :: "post_outcome \<Rightarrow> post_job \<Rightarrow> post_job" where
  "cleanup_completed out job =
     (case job of (pi, nz) \<Rightarrow>
        (pi\<lparr>pi_working := False\<rparr>, nz\<lparr>nz_cleanupStatus := (if po_ok out then csSuccess else csFailure)\<rparr>))"

definition post_rename_completed :: "post_outcome \<Rightarrow> post_job \<Rightarrow> post_job" where
  "post_rename_completed out job =
     (case job of (pi, nz) \<Rightarrow>
        (pi\<lparr>pi_working := False\<rparr>, nz\<lparr>nz_postUnpackRenamingStatus :=
           (if po_obfuscated out then purSkipped else if po_ok out then purSuccess else purFailure)\<rparr>))"

text \<open>The scripts (\<open>PostScriptController\<close>): those the parameters of the download choose, in their order.\<close>

definition chosen_scripts :: "nzb_info \<Rightarrow> cstring list" where
  "chosen_scripts nz = tokens '',;'' (concat (map (\<lambda>p. butlast (np_name p) @ '','') (filter (\<lambda>p. np_name p \<noteq> [] \<and>
     hd (np_name p) \<noteq> CHR ''*'' \<and> last (np_name p) = CHR '':'' \<and>
     (strcase_eq (np_value p) ''yes'' \<or> strcase_eq (np_value p) ''on'' \<or> strcase_eq (np_value p) ''1''))
     (nz_ppParameters nz))))"

definition analyse_exit_code :: "par_status \<Rightarrow> int \<Rightarrow> script_status \<times> bool" where
  "analyse_exit_code ps code =
     (if code = 93 then (srSuccess, False)
      else if code = 94 \<or> code = -1 then (srFailure, False)
      else if code = 95 then (srNone, False)
      else if code = 92 then if ps > psSkipped then (srFailure, False) else (srSuccess, True)
      else (srFailure, False))"

definition execute_script :: "post_env \<Rightarrow> post_outcome \<Rightarrow> post_job \<Rightarrow> cstring \<Rightarrow> post_job" where
  "execute_script pe out job name =
     (case job of (pi, nz) \<Rightarrow>
        if name \<notin> set (pe_scripts pe) \<or> pi_requestParCheck pi then (pi, nz)
        else case analyse_exit_code (nz_parStatus nz) (po_exitCode out name) of (status, request) \<Rightarrow>
          (if request then pi\<lparr>pi_requestParCheck := True, pi_forceRepair := True\<rparr> else pi,
           nz\<lparr>nz_scriptStatuses := nz_scriptStatuses nz @ [status]\<rparr>))"

definition scripts_completed :: "post_env \<Rightarrow> post_outcome \<Rightarrow> post_job \<Rightarrow> post_job" where
  "scripts_completed pe out job =
     (case job of (pi, nz) \<Rightarrow>
        if nz_skipScriptProcessing nz then (pi, nz)
        else apfst (\<lambda>pi. pi\<lparr>pi_stage := ptFinished, pi_working := False\<rparr>)
               (foldl (execute_script pe out) (pi, nz\<lparr>nz_scriptStatuses := []\<rparr>) (chosen_scripts nz)))"

text \<open>The thread of a job, by the stage it was started in.\<close>

definition job_end :: "post_env \<Rightarrow> unpack_env \<Rightarrow> post_outcome \<Rightarrow> post_job \<Rightarrow> post_job" where
  "job_end pe ue out job =
     (case pi_stage (fst job) of
        ptParRenaming \<Rightarrow> par_rename_completed out job
      | ptLoadingPars \<Rightarrow> par_check_completed pe out job
      | ptRarRenaming \<Rightarrow> rar_rename_completed out job
      | ptUnpacking \<Rightarrow> unpack_run ue job
      | ptCleaningUp \<Rightarrow> cleanup_completed out job
      | ptMoving \<Rightarrow> move_completed pe out job
      | ptPostUnpackRenaming \<Rightarrow> post_rename_completed out job
      | ptExecutingScript \<Rightarrow> scripts_completed pe out job
      | _ \<Rightarrow> job)"

section \<open>Requests and the end of a job\<close>

text \<open>\<open>CheckRequestPar\<close> for one job.\<close>

definition check_request_par :: "post_env \<Rightarrow> post_job \<Rightarrow> post_job" where
  "check_request_par pe job =
     (case job of (pi, nz) \<Rightarrow>
        if pi_requestParCheck pi \<and> (nz_parStatus nz \<le> psSkipped \<or> (pi_forceRepair pi \<and> \<not> nz_parFull nz)) \<and>
           he_parCheck (pe_he pe) \<noteq> pcManual
        then (pi\<lparr>pi_forceParFull := nz_parStatus nz > psSkipped, pi_requestParCheck := False, pi_working := False\<rparr>,
              nz\<lparr>nz_parStatus := psNone, nz_scriptStatuses := []\<rparr>)
        else if pi_requestParCheck pi \<and> nz_parStatus nz \<le> psSkipped \<and> he_parCheck (pe_he pe) = pcManual
        then let nz = nz\<lparr>nz_parStatus := psManual\<rparr>; pi = pi\<lparr>pi_requestParCheck := False, pi_working := False\<rparr>
             in if nz_fileList nz \<noteq> [] then (pi\<lparr>pi_stage := ptFinished\<rparr>, pause_files False nz) else (pi, nz)
        else (pi, nz))"

text \<open>\<open>CleanupJobs\<close> for one job whose thread has ended; the flag tells that the job is completed.\<close>

definition finish_job :: "int \<Rightarrow> post_job \<Rightarrow> bool \<times> post_job" where
  "finish_job now job =
     (case job of (pi, nz) \<Rightarrow>
        if pi_working pi then (False, job)
        else
          let nz = (if pi_startTime pi > 0 then nz\<lparr>nz_postTotalSec := nz_postTotalSec nz + (now - pi_startTime pi)\<rparr> else nz);
              pi = pi\<lparr>pi_stageTime := 0, pi_stageProgress := 0, pi_fileProgress := 0, pi_progressLabel := [],
                      pi_startTime := (if pi_startTime pi > 0 then 0 else pi_startTime pi)\<rparr>
          in if pi_stage pi = ptFinished \<or> pi_deleted pi then (True, (pi, nz)) else (False, (pi\<lparr>pi_stage := ptQueued\<rparr>, nz)))"

text \<open>One round of a job: a stage is chosen and, if there is something to do, its thread runs to its end; then the
  requests are looked at and the job is put back or completed.\<close>

definition post_round ::
    "post_env \<Rightarrow> unpack_env \<Rightarrow> post_outcome \<Rightarrow> bool \<Rightarrow> post_job \<Rightarrow> bool \<times> post_job" where
  "post_round pe ue out allowPar job =
     (let job = start_job pe allowPar job;
          job = (if pi_working (fst job) then job_end pe ue out job else job)
      in finish_job (he_now (pe_he pe)) (check_request_par pe job))"

section \<open>Progress\<close>

text \<open>What is left to do, as a number. A finished unpack, move or par-rename may bring par-files into the
  directory, so these come first; \<open>mp\<close> tells whether there are main par-files.\<close>

definition par_rank :: "bool \<Rightarrow> par_status \<Rightarrow> bool \<Rightarrow> bool \<Rightarrow> nat" where
  "par_rank mp ps full forceFull =
     (if mp then 80 + 16 * (if ps = psNone \<and> forceFull then 1 else if ps \<le> psSkipped then 4 else if \<not> full then 2 else 0) +
        8 * of_bool (ps = psSkipped)
      else 8 * of_bool (ps = psNone))"

definition job_high :: "nzb_info \<Rightarrow> nat" where
  "job_high nz = 4 * of_bool (nz_unpackStatus nz = usNone) + 2 * of_bool (nz_moveStatus nz = msNone) +
     of_bool (nz_parRenameStatus nz = rsNone)"

definition job_low :: "bool \<Rightarrow> post_job \<Rightarrow> nat" where
  "job_low mp job =
     (case job of (pi, nz) \<Rightarrow>
        par_rank mp (nz_parStatus nz) (nz_parFull nz) (pi_forceParFull pi) +
        4 * of_bool (nz_rarRenameStatus nz = rsNone) + 2 * of_bool (nz_cleanupStatus nz = csNone) +
        of_bool (nz_postUnpackRenamingStatus nz = purNone))"

definition rounds_left :: "bool \<Rightarrow> post_job \<Rightarrow> nat" where
  "rounds_left mp job = 320 * job_high (snd job) + 2 * job_low mp job + of_bool (\<not> pi_needParCheck (fst job))"

definition job_idle :: "post_job \<Rightarrow> bool" where
  "job_idle job \<longleftrightarrow> (case job of (pi, nz) \<Rightarrow> \<not> pi_working pi \<and> \<not> pi_requestParCheck pi \<and> pi_stage pi = ptQueued \<and>
     (pi_unpackTried pi \<longrightarrow> status_of_rank (pi_lastUnpackStatus pi) \<noteq> usNone))"

lemma par_rank_le: "par_rank mp ps full ff \<le> 152" "\<not> mp \<Longrightarrow> par_rank mp ps full ff \<le> 8" "mp \<Longrightarrow> 80 \<le> par_rank mp ps full ff"
  by (simp_all add: par_rank_def)

lemma par_rank_mono: "(mp' \<longrightarrow> mp) \<Longrightarrow> par_rank mp' ps full ff \<le> par_rank mp ps full ff"
  by (cases mp) (auto simp: par_rank_def)

lemma le_skipped: "ps \<le> psSkipped \<longleftrightarrow> ps = psNone \<or> ps = psSkipped"
  by (cases ps) (simp_all add: less_eq_par_status_def)

lemma low_digits:
  fixes r :: nat
  assumes "r \<le> 152"
  shows "r + 4 * of_bool d + 2 * of_bool e + of_bool f \<le> 159"
proof -
  have "of_bool x \<le> (1::nat)" for x by simp
  from this [of d] this [of e] this [of f] assms show ?thesis by linarith
qed

lemma job_low_bound: "job_low mp job \<le> 159"
  unfolding job_low_def by (cases job) (simp only: prod.case low_digits [OF par_rank_le(1)])

lemma job_high_bound: "job_high nz \<le> 7"
proof -
  have "of_bool x \<le> (1::nat)" for x by simp
  from this [of "nz_unpackStatus nz = usNone"] this [of "nz_moveStatus nz = msNone"] this [of "nz_parRenameStatus nz = rsNone"]
  show ?thesis unfolding job_high_def by linarith
qed

lemma rounds_left_bound: "rounds_left mp job \<le> 2559"
proof -
  have "of_bool (\<not> pi_needParCheck (fst job)) \<le> (1::nat)" by simp
  with job_low_bound [of mp job] job_high_bound [of "snd job"] show ?thesis unfolding rounds_left_def by linarith
qed

text \<open>The fields the rank looks at.\<close>

definition same_post :: "nzb_info \<Rightarrow> nzb_info \<Rightarrow> bool" where
  "same_post nz nz' \<longleftrightarrow> nz_unpackStatus nz' = nz_unpackStatus nz \<and> nz_moveStatus nz' = nz_moveStatus nz \<and>
     nz_parRenameStatus nz' = nz_parRenameStatus nz \<and> nz_parStatus nz' = nz_parStatus nz \<and> nz_parFull nz' = nz_parFull nz \<and>
     nz_rarRenameStatus nz' = nz_rarRenameStatus nz \<and> nz_cleanupStatus nz' = nz_cleanupStatus nz \<and>
     nz_postUnpackRenamingStatus nz' = nz_postUnpackRenamingStatus nz"

lemma same_post_rank: "same_post nz nz' \<Longrightarrow> job_high nz' = job_high nz \<and> job_low mp (pi, nz') = job_low mp (pi, nz)"
  by (simp add: same_post_def job_high_def job_low_def)

lemma failure_rank: "status_of_rank (rank_of_status (failure_status st)) \<noteq> usNone" "failure_status st \<noteq> usNone"
  by (simp_all add: failure_status_def rank_of_status_def status_of_rank_def)

text \<open>What an unpack job does to these fields.\<close>

definition unpack_frame :: "post_job \<Rightarrow> post_job \<Rightarrow> bool" where
  "unpack_frame job job' \<longleftrightarrow> (case (job, job') of ((pi, nz), (pi', nz')) \<Rightarrow>
     nz_moveStatus nz' = nz_moveStatus nz \<and> nz_parStatus nz' = nz_parStatus nz \<and> nz_parFull nz' = nz_parFull nz \<and>
     nz_rarRenameStatus nz' = nz_rarRenameStatus nz \<and> nz_cleanupStatus nz' = nz_cleanupStatus nz \<and>
     nz_postUnpackRenamingStatus nz' = nz_postUnpackRenamingStatus nz \<and>
     pi_forceParFull pi' = pi_forceParFull pi \<and> pi_needParCheck pi' = pi_needParCheck pi \<and> pi_stage pi' = pi_stage pi \<and>
     pi_deleted pi' = pi_deleted pi)"

definition unpack_outcome :: "unpack_env \<Rightarrow> post_job \<Rightarrow> post_job \<Rightarrow> bool" where
  "unpack_outcome ue job job' \<longleftrightarrow> (case (job, job') of ((pi, nz), (pi', nz')) \<Rightarrow>
     (nz_unpackStatus nz' \<noteq> usNone \<and> pi_requestParCheck pi' = pi_requestParCheck pi \<and>
        pi_unpackTried pi' = pi_unpackTried pi \<and> pi_lastUnpackStatus pi' = pi_lastUnpackStatus pi) \<or>
     (nz_unpackStatus nz' = nz_unpackStatus nz \<and> nz_parRenameStatus nz' = nz_parRenameStatus nz \<and> pi_requestParCheck pi' \<and>
        ue_hasPars ue \<and> (nz_parStatus nz \<le> psSkipped \<or> (pi_forceRepair pi' \<and> \<not> nz_parFull nz)) \<and>
        status_of_rank (pi_lastUnpackStatus pi') \<noteq> usNone))"

lemma unpack_completed_outcome:
  "unpack_frame job (unpack_completed ue st job)" "unpack_outcome ue job (unpack_completed ue st job)"
  by (cases job; auto simp: unpack_completed_def request_par_check_def unpack_frame_def unpack_outcome_def Let_def failure_rank)+

lemma nothing_to_unpack_outcome:
  "unpack_frame job (nothing_to_unpack ue st job)" "unpack_outcome ue job (nothing_to_unpack ue st job)"
  by (cases job; auto simp: nothing_to_unpack_def request_par_check_def unpack_frame_def unpack_outcome_def Let_def failure_rank)+

definition unpack_same :: "post_job \<Rightarrow> post_job \<Rightarrow> bool" where
  "unpack_same job job' \<longleftrightarrow> unpack_frame job job' \<and> (case (job, job') of ((pi, nz), (pi', nz')) \<Rightarrow>
     nz_unpackStatus nz' = nz_unpackStatus nz \<and> nz_parRenameStatus nz' = nz_parRenameStatus nz \<and>
     pi_requestParCheck pi' = pi_requestParCheck pi \<and> pi_unpackTried pi' = pi_unpackTried pi \<and>
     pi_lastUnpackStatus pi' = pi_lastUnpackStatus pi)"

lemma unpack_all_same: "unpack_all ue job st = (job', st') \<Longrightarrow> unpack_same job job'"
proof -
  assume a: "unpack_all ue job st = (job', st')"
  obtain pi nz pi' nz' where j: "job = (pi, nz)" "job' = (pi', nz')" by fastforce
  from unpack_all_keeps [OF a [unfolded j]] show ?thesis by (auto simp: j unpack_same_def unpack_frame_def)
qed

lemma unpack_same_trans:
  "unpack_same job job1 \<Longrightarrow> unpack_frame job1 job2 \<Longrightarrow> unpack_frame job job2"
  "unpack_same job job1 \<Longrightarrow> unpack_outcome ue job1 job2 \<Longrightarrow> unpack_outcome ue job job2"
  by (auto simp: unpack_same_def unpack_frame_def unpack_outcome_def split: prod.splits)

lemma unpack_run_outcome:
  assumes "pi_unpackTried pi \<longrightarrow> status_of_rank (pi_lastUnpackStatus pi) \<noteq> usNone"
  shows "unpack_frame (pi, nz) (unpack_run ue (pi, nz))" "unpack_outcome ue (pi, nz) (unpack_run ue (pi, nz))"
    "\<not> pi_working (fst (unpack_run ue (pi, nz)))"
proof -
  define st where "st = unpack_start ue pi nz"
  define job where "job = (if second_attempt_useless ue (up_password st) pi
                   then (pi, nz\<lparr>nz_unpackStatus := status_of_rank (pi_lastUnpackStatus pi)\<rparr>)
                   else if want_unpack nz \<and> has_archives (up_scan st)
                   then case unpack_all ue (pi, nz) st of (job, st) \<Rightarrow> unpack_completed ue st job
                   else if want_unpack nz then nothing_to_unpack ue st (pi, nz)
                   else (pi, nz\<lparr>nz_unpackStatus := usSkipped\<rparr>))"
  have run: "unpack_run ue (pi, nz) =
      ((fst job)\<lparr>pi_working := False\<rparr>, (snd job)\<lparr>nz_unpackSec := nz_unpackSec (snd job) + ue_seconds ue\<rparr>)"
    by (simp add: unpack_run_def st_def job_def split: prod.split)
  have "unpack_frame (pi, nz) job \<and> unpack_outcome ue (pi, nz) job"
  proof (cases "second_attempt_useless ue (up_password st) pi")
    case True
    then show ?thesis using assms
      by (simp add: job_def unpack_frame_def unpack_outcome_def second_attempt_useless_def)
  next
    case False
    show ?thesis
    proof (cases "want_unpack nz \<and> has_archives (up_scan st)")
      case True
      obtain job1 st1 where a: "unpack_all ue (pi, nz) st = (job1, st1)" by fastforce
      have "job = unpack_completed ue st1 job1" using False True by (simp add: job_def a)
      then show ?thesis using unpack_same_trans [OF unpack_all_same [OF a]] unpack_completed_outcome by metis
    next
      case none: False
      then show ?thesis using False nothing_to_unpack_outcome [where job = "(pi, nz)" and ue = ue and st = st]
        by (auto simp: job_def unpack_frame_def unpack_outcome_def)
    qed
  qed
  then show "unpack_frame (pi, nz) (unpack_run ue (pi, nz))" "unpack_outcome ue (pi, nz) (unpack_run ue (pi, nz))"
    "\<not> pi_working (fst (unpack_run ue (pi, nz)))"
    unfolding run by (cases job; simp add: unpack_frame_def unpack_outcome_def)+
qed


text \<open>Progress of a job: a stage that may change the directory is settled, or there is less to do otherwise.\<close>

definition dir_status :: "nzb_info \<Rightarrow> unpack_status \<times> move_status \<times> post_rename_status" where
  "dir_status nz = (nz_unpackStatus nz, nz_moveStatus nz, nz_parRenameStatus nz)"

definition progress :: "bool \<Rightarrow> post_job \<Rightarrow> post_job \<Rightarrow> bool" where
  "progress mp job job' \<longleftrightarrow> job_high (snd job') < job_high (snd job) \<or>
     (dir_status (snd job') = dir_status (snd job) \<and> job_low mp job' < job_low mp job)"

lemma check_request_cases:
  assumes "check_request_par pe (pi, nz) = (pi', nz')" "he_parCheck (pe_he pe) \<noteq> pcManual"
  obtains (same) "pi' = pi" "nz' = nz" "\<not> (pi_requestParCheck pi \<and> (nz_parStatus nz \<le> psSkipped \<or> (pi_forceRepair pi \<and> \<not> nz_parFull nz)))"
  | (served) "pi_requestParCheck pi" "nz_parStatus nz \<le> psSkipped \<or> (pi_forceRepair pi \<and> \<not> nz_parFull nz)"
     "pi' = pi\<lparr>pi_forceParFull := nz_parStatus nz > psSkipped, pi_requestParCheck := False, pi_working := False\<rparr>"
     "nz' = nz\<lparr>nz_parStatus := psNone, nz_scriptStatuses := []\<rparr>"
proof (cases "pi_requestParCheck pi \<and> (nz_parStatus nz \<le> psSkipped \<or> (pi_forceRepair pi \<and> \<not> nz_parFull nz))")
  case True
  then have "check_request_par pe (pi, nz) = (pi\<lparr>pi_forceParFull := nz_parStatus nz > psSkipped, pi_requestParCheck := False,
      pi_working := False\<rparr>, nz\<lparr>nz_parStatus := psNone, nz_scriptStatuses := []\<rparr>)"
    using assms(2) by (simp only: check_request_par_def prod.case simp_thms if_True)
  then show ?thesis using True served assms(1) by simp
next
  case False
  then have "check_request_par pe (pi, nz) = (pi, nz)"
    using assms(2) by (simp only: check_request_par_def prod.case simp_thms if_False)
  then show ?thesis using False same assms(1) by simp
qed

lemma check_request_keeps:
  assumes "check_request_par pe (pi, nz) = (pi', nz')" "he_parCheck (pe_he pe) \<noteq> pcManual"
  shows "dir_status nz' = dir_status nz \<and> job_high nz' = job_high nz \<and> pi_needParCheck pi' = pi_needParCheck pi \<and>
    pi_unpackTried pi' = pi_unpackTried pi \<and> pi_lastUnpackStatus pi' = pi_lastUnpackStatus pi \<and> pi_deleted pi' = pi_deleted pi \<and>
    pi_stage pi' = pi_stage pi \<and> (\<not> pi_working pi \<longrightarrow> \<not> pi_working pi')"
  using assms by (cases rule: check_request_cases) (simp_all add: dir_status_def job_high_def)

lemma check_request_idle:
  assumes "check_request_par pe (pi, nz) = (pi', nz')" "he_parCheck (pe_he pe) \<noteq> pcManual" "\<not> pi_requestParCheck pi"
  shows "pi' = pi \<and> nz' = nz"
  using assms(1,2) by (cases rule: check_request_cases) (use assms(3) in simp_all)

lemma job_low_par:
  assumes "nz_rarRenameStatus nz' = nz_rarRenameStatus nz" "nz_cleanupStatus nz' = nz_cleanupStatus nz"
    "nz_postUnpackRenamingStatus nz' = nz_postUnpackRenamingStatus nz"
  shows "job_low mp (pi', nz') < job_low mp (pi, nz) \<longleftrightarrow>
     par_rank mp (nz_parStatus nz') (nz_parFull nz') (pi_forceParFull pi') < par_rank mp (nz_parStatus nz) (nz_parFull nz) (pi_forceParFull pi)"
  by (simp only: job_low_def prod.case assms add_less_cancel_right)

lemma par_rank_served:
  assumes "ps = psSkipped \<or> (ps > psSkipped \<and> \<not> full)"
  shows "par_rank True psNone full (ps > psSkipped) < par_rank True ps full ff"
  using assms by (cases ps) (auto simp: par_rank_def less_par_status_def less_eq_par_status_def)

lemma check_request_served:
  assumes "check_request_par pe (pi, nz) = (pi', nz')" "he_parCheck (pe_he pe) \<noteq> pcManual"
    and "nz_parStatus nz \<le> psSkipped \<or> (pi_forceRepair pi \<and> \<not> nz_parFull nz)"
  shows "\<not> pi_requestParCheck pi'"
    "mp \<Longrightarrow> pi_requestParCheck pi \<Longrightarrow> nz_parStatus nz \<noteq> psNone \<Longrightarrow> job_low mp (pi', nz') < job_low mp (pi, nz)"
proof -
  show "\<not> pi_requestParCheck pi'" using assms(1,2) by (cases rule: check_request_cases) (use assms(3) in simp_all)
next
  assume h: mp "pi_requestParCheck pi" "nz_parStatus nz \<noteq> psNone"
  have r: "nz_parStatus nz = psSkipped \<or> (nz_parStatus nz > psSkipped \<and> \<not> nz_parFull nz)"
    using h(3) assms(3) by (auto simp: le_skipped not_le [symmetric])
  show "job_low mp (pi', nz') < job_low mp (pi, nz)" using assms(1,2)
  proof (cases rule: check_request_cases)
    case same
    then show ?thesis using h assms(3) by blast
  next
    case served
    then show ?thesis using par_rank_served [OF r] h(1) by (simp add: job_low_par)
  qed
qed

lemma finish_job_keeps:
  assumes "finish_job now (pi, nz) = (False, (pi', nz'))" "\<not> pi_working pi"
  shows "same_post nz nz' \<and> pi_forceParFull pi' = pi_forceParFull pi \<and> pi_needParCheck pi' = pi_needParCheck pi \<and>
    pi_unpackTried pi' = pi_unpackTried pi \<and> pi_lastUnpackStatus pi' = pi_lastUnpackStatus pi \<and>
    pi_requestParCheck pi' = pi_requestParCheck pi \<and> pi_stage pi' = ptQueued \<and> \<not> pi_working pi' \<and> pi_stage pi \<noteq> ptFinished"
proof (cases "pi_stage pi = ptFinished \<or> pi_deleted pi")
  case True
  then show ?thesis using assms by (simp add: finish_job_def Let_def)
next
  case False
  then have "finish_job now (pi, nz) = (False, (fst (snd (finish_job now (pi, nz))), snd (snd (finish_job now (pi, nz)))))"
    "same_post nz (snd (snd (finish_job now (pi, nz))))"
    "(\<lambda>pi'. pi_forceParFull pi' = pi_forceParFull pi \<and> pi_needParCheck pi' = pi_needParCheck pi \<and>
       pi_unpackTried pi' = pi_unpackTried pi \<and> pi_lastUnpackStatus pi' = pi_lastUnpackStatus pi \<and>
       pi_requestParCheck pi' = pi_requestParCheck pi \<and> pi_stage pi' = ptQueued \<and> \<not> pi_working pi')
     (fst (snd (finish_job now (pi, nz))))"
    using assms(2) by (simp_all add: finish_job_def Let_def same_post_def)
  then show ?thesis using False unfolding assms(1) by simp
qed

text \<open>What a round has done when its thread has ended: progress, or a request that will be served.\<close>

definition tried_ok :: "post_info \<Rightarrow> bool" where
  "tried_ok pi \<longleftrightarrow> (pi_unpackTried pi \<longrightarrow> status_of_rank (pi_lastUnpackStatus pi) \<noteq> usNone)"

definition thread_done :: "bool \<Rightarrow> post_job \<Rightarrow> post_job \<Rightarrow> bool" where
  "thread_done mp job job' \<longleftrightarrow> (case job' of (pi, nz) \<Rightarrow>
     \<not> pi_working pi \<and> tried_ok pi \<and>
     (pi_requestParCheck pi \<longrightarrow> nz_parStatus nz \<le> psSkipped \<or> (pi_forceRepair pi \<and> \<not> nz_parFull nz)) \<and>
     (job_high nz < job_high (snd job) \<or>
      (dir_status nz = dir_status (snd job) \<and>
       (if pi_requestParCheck pi then mp \<and> nz_parStatus nz \<noteq> psNone \<and> job_low mp job' \<le> job_low mp job
        else job_low mp job' < job_low mp job))))"

lemma same_post_progress: "same_post nz1 nz2 \<Longrightarrow> pi_forceParFull pi2 = pi_forceParFull pi1 \<Longrightarrow>
    dir_status nz2 = dir_status nz1 \<and> job_high nz2 = job_high nz1 \<and> job_low mp (pi2, nz2) = job_low mp (pi1, nz1)"
  by (simp add: same_post_def dir_status_def job_high_def job_low_def)

lemma dir_status_high: "dir_status nz = dir_status nz' \<Longrightarrow> job_high nz = job_high nz'"
  by (simp add: dir_status_def job_high_def)

lemma thread_done_round:
  assumes t: "thread_done mp job (pi1, nz1)" and pc: "he_parCheck (pe_he pe) \<noteq> pcManual"
    and f: "finish_job now (check_request_par pe (pi1, nz1)) = (False, (pi', nz'))"
  shows "progress mp job (pi', nz') \<and> job_idle (pi', nz')"
proof -
  obtain pi2 nz2 where c: "check_request_par pe (pi1, nz1) = (pi2, nz2)" by fastforce
  have k: "dir_status nz2 = dir_status nz1" "job_high nz2 = job_high nz1" "pi_unpackTried pi2 = pi_unpackTried pi1"
    "pi_lastUnpackStatus pi2 = pi_lastUnpackStatus pi1" "\<not> pi_working pi2"
    using check_request_keeps [OF c pc] t by (simp_all add: thread_done_def)
  have req: "\<not> pi_requestParCheck pi2"
    using check_request_served(1) [OF c pc] check_request_idle [OF c pc] t by (cases "pi_requestParCheck pi1") (auto simp: thread_done_def)
  note fk = finish_job_keeps [OF f [unfolded c] k(5)]
  have same: "dir_status nz' = dir_status nz2" "job_high nz' = job_high nz2" "job_low mp (pi', nz') = job_low mp (pi2, nz2)"
    using same_post_progress [of nz2 nz' pi' pi2 mp] fk by simp_all
  have "job_idle (pi', nz')" using fk req k t by (simp add: job_idle_def thread_done_def tried_ok_def)
  moreover have "progress mp job (pi2, nz2)"
  proof (cases "job_high nz1 < job_high (snd job)")
    case True
    then show ?thesis by (simp add: progress_def k)
  next
    case False
    with t have d: "dir_status nz1 = dir_status (snd job)"
      "if pi_requestParCheck pi1 then mp \<and> nz_parStatus nz1 \<noteq> psNone \<and> job_low mp (pi1, nz1) \<le> job_low mp job
       else job_low mp (pi1, nz1) < job_low mp job" unfolding thread_done_def prod.case by blast+
    have "job_low mp (pi2, nz2) < job_low mp job"
    proof (cases "pi_requestParCheck pi1")
      case True
      have "nz_parStatus nz1 \<le> psSkipped \<or> pi_forceRepair pi1 \<and> \<not> nz_parFull nz1" using t True by (simp add: thread_done_def)
      note served = check_request_served(2) [OF c pc this _ True]
      have r: "mp \<and> nz_parStatus nz1 \<noteq> psNone \<and> job_low mp (pi1, nz1) \<le> job_low mp job"
        using d(2) unfolding if_P [OF True] .
      from served [of mp] r show ?thesis by (blast intro: less_le_trans)
    next
      case False
      then show ?thesis using check_request_idle [OF c pc] d(2) by simp
    qed
    then show ?thesis by (simp add: progress_def k d)
  qed
  ultimately show ?thesis by (simp add: progress_def same)
qed


text \<open>The stages one by one.\<close>

lemma par_rename_done:
  assumes "nz_parRenameStatus nz = rsNone" "\<not> asks_for_pars out nz" "tried_ok pi" "\<not> pi_requestParCheck pi"
  shows "thread_done mp (pi, nz) (par_rename_completed out (enter_stage stage (start_clock now pi), nz))"
proof -
  have "\<not> asks_for_pars out (nz\<lparr>nz_parRenameStatus := s\<rparr>)" for s using assms(2) by (simp add: asks_for_pars_def)
  then show ?thesis using assms
    by (simp add: thread_done_def par_rename_completed_def enter_stage_def start_clock_def tried_ok_def job_high_def)
qed

lemma par_check_done:
  assumes "nz_parStatus nz = psNone" mp "tried_ok pi" "\<not> pi_requestParCheck pi"
  shows "thread_done mp (pi, nz) (par_check_completed pe out ((enter_stage stage (start_clock now pi))\<lparr>pi_needParCheck := False\<rparr>, nz))"
proof -
  obtain res full where e: "par_execute out (pe_parQuick pe \<and> \<not> pi_forceParFull pi) (pi_forceRepair pi) = (res, full)" by fastforce
  have full: "pi_forceParFull pi \<Longrightarrow> full"
    using e by (auto simp: par_execute_def run_par_check_all_def Let_def)
  show ?thesis using assms full
    by (auto simp: thread_done_def par_check_completed_def enter_stage_def start_clock_def tried_ok_def dir_status_def
        job_low_par par_rank_def e Let_def less_eq_par_status_def less_par_status_def)
qed

lemma rar_rename_done:
  assumes "nz_rarRenameStatus nz = rsNone" "tried_ok pi" "\<not> pi_requestParCheck pi"
  shows "thread_done mp (pi, nz) (rar_rename_completed out (enter_stage stage (start_clock now pi), nz))"
  using assms by (simp add: thread_done_def rar_rename_completed_def enter_stage_def start_clock_def tried_ok_def
      dir_status_def job_low_def)

lemma cleanup_done:
  assumes "nz_cleanupStatus nz = csNone" "tried_ok pi" "\<not> pi_requestParCheck pi"
  shows "thread_done mp (pi, nz) (cleanup_completed out (enter_stage stage (start_clock now pi), nz))"
  using assms by (simp add: thread_done_def cleanup_completed_def enter_stage_def start_clock_def tried_ok_def
      dir_status_def job_low_def)

lemma move_done:
  assumes "nz_moveStatus nz = msNone" "tried_ok pi" "\<not> pi_requestParCheck pi"
  shows "thread_done mp (pi, nz) (move_completed pe out (enter_stage stage (start_clock now pi), nz))"
  using assms by (simp add: thread_done_def move_completed_def enter_stage_def start_clock_def tried_ok_def job_high_def Let_def)

lemma post_rename_done:
  assumes "nz_postUnpackRenamingStatus nz = purNone" "tried_ok pi" "\<not> pi_requestParCheck pi"
  shows "thread_done mp (pi, nz) (post_rename_completed out (enter_stage stage (start_clock now pi), nz))"
  using assms by (simp add: thread_done_def post_rename_completed_def enter_stage_def start_clock_def tried_ok_def
      dir_status_def job_low_def)

lemma unpack_done:
  assumes "nz_unpackStatus nz = usNone" "nz_parStatus nz \<noteq> psNone" "tried_ok pi" "\<not> pi_requestParCheck pi" "ue_hasPars ue = mp"
  shows "thread_done mp (pi, nz) (unpack_run ue (enter_stage stage (start_clock now pi), nz))"
proof -
  let ?pi = "enter_stage stage (start_clock now pi)"
  obtain pi' nz' where r: "unpack_run ue (?pi, nz) = (pi', nz')" by fastforce
  have "pi_unpackTried ?pi \<longrightarrow> status_of_rank (pi_lastUnpackStatus ?pi) \<noteq> usNone"
    using assms(3) by (simp add: tried_ok_def enter_stage_def start_clock_def)
  note run = unpack_run_outcome [OF this, where ue = ue and nz = nz, unfolded r]
  have "unpack_outcome ue (?pi, nz) (pi', nz')" by (rule run(2))
  then consider (settled) "nz_unpackStatus nz' \<noteq> usNone" "\<not> pi_requestParCheck pi'" "tried_ok pi'"
    | (request) "nz_unpackStatus nz' = usNone" "nz_parRenameStatus nz' = nz_parRenameStatus nz" "pi_requestParCheck pi'" mp
        "nz_parStatus nz \<le> psSkipped \<or> (pi_forceRepair pi' \<and> \<not> nz_parFull nz)" "tried_ok pi'"
    using assms by (auto simp: unpack_outcome_def enter_stage_def start_clock_def tried_ok_def)
  then show ?thesis
  proof cases
    case settled
    have "job_high nz' < job_high nz"
      using settled(1) run(1) assms(1) by (simp add: job_high_def unpack_frame_def)
    with settled run(3) show ?thesis by (simp add: thread_done_def r)
  next
    case request
    have "nz_moveStatus nz' = nz_moveStatus nz" "nz_parStatus nz' = nz_parStatus nz" "nz_parFull nz' = nz_parFull nz"
      "job_low mp (pi', nz') = job_low mp (pi, nz)"
      using run(1) by (simp_all add: unpack_frame_def enter_stage_def start_clock_def job_low_def)
    with request assms(1,2) run(3) show ?thesis unfolding r by (simp add: thread_done_def dir_status_def)
  qed
qed

lemma not_started_done:
  assumes "tried_ok pi" "\<not> pi_requestParCheck pi" "\<not> pi_working pi"
  shows "\<not> mp \<Longrightarrow> nz_parStatus nz = psNone \<Longrightarrow> thread_done mp (pi, nz) (start_clock now pi, nz\<lparr>nz_parStatus := psSkipped\<rparr>)"
    "mp \<Longrightarrow> nz_parStatus nz = psSkipped \<Longrightarrow> thread_done mp (pi, nz) (start_clock now pi, nz\<lparr>nz_parStatus := psFailure\<rparr>)"
    "mp \<Longrightarrow> nz_parStatus nz = psSkipped \<Longrightarrow> thread_done mp (pi, nz) ((start_clock now pi)\<lparr>pi_requestParCheck := True\<rparr>, nz)"
  using assms by (simp_all add: thread_done_def tried_ok_def start_clock_def dir_status_def job_low_par,
      simp_all add: par_rank_def less_eq_par_status_def job_low_def)

text \<open>A round of an idle job: the job is completed, or there is progress, or it waits for its turn to be checked.\<close>

definition waits_for_par :: "bool \<Rightarrow> post_job \<Rightarrow> post_job \<Rightarrow> bool" where
  "waits_for_par mp job job' \<longleftrightarrow> \<not> pi_needParCheck (fst job) \<and> pi_needParCheck (fst job') \<and>
     dir_status (snd job') = dir_status (snd job) \<and> job_low mp job' = job_low mp job"

lemma scripts_finish:
  assumes "\<not> nz_skipScriptProcessing nz" "he_parCheck (pe_he pe) \<noteq> pcManual"
  shows "fst (finish_job now (check_request_par pe (scripts_completed pe out (pi, nz))))"
proof -
  obtain pi1 nz1 where s: "scripts_completed pe out (pi, nz) = (pi1, nz1)" by fastforce
  have st: "pi_stage pi1 = ptFinished" "\<not> pi_working pi1"
    using s assms(1) by (auto simp: scripts_completed_def apfst_def map_prod_def split: prod.splits)
  obtain pi2 nz2 where c: "check_request_par pe (pi1, nz1) = (pi2, nz2)" by fastforce
  have "pi_stage pi2 = ptFinished" "\<not> pi_working pi2" using check_request_keeps [OF c assms(2)] st by simp_all
  then show ?thesis by (simp add: s c finish_job_def Let_def)
qed

lemma start_last_cases:
  assumes "start_last pe (pi, nz) = (pi', nz')"
  obtains (unpack) "unpack_pending nz" "pi' = enter_stage ptUnpacking pi" "nz' = nz"
  | (skip_rename) "unpack_pending nz" "pi' = enter_stage ptPostUnpackRenaming pi" "nz' = nz\<lparr>nz_unpackStatus := usSkipped\<rparr>"
  | (skip_scripts) "unpack_pending nz" "pi' = enter_stage ptExecutingScript pi" "nz' = nz\<lparr>nz_unpackStatus := usSkipped\<rparr>"
  | (cleanup) "nz_cleanupStatus nz = csNone" "pi' = enter_stage ptCleaningUp pi" "nz' = nz"
  | (move) "nz_moveStatus nz = msNone" "pi' = enter_stage ptMoving pi" "nz' = nz"
  | (rename) "nz_postUnpackRenamingStatus nz = purNone" "pi' = enter_stage ptPostUnpackRenaming pi" "nz' = nz"
  | (scripts) "pi' = enter_stage ptExecutingScript pi" "nz' = nz"
proof -
  let ?skip = "unpack_pending nz \<and> par_failed nz"
  have e: "start_last pe (pi, nz) = (enter_stage (if unpack_pending nz \<and> \<not> ?skip then ptUnpacking
                     else if \<not> unpack_pending nz \<and> want_cleanup pe nz then ptCleaningUp
                     else if \<not> unpack_pending nz \<and> want_move pe nz then ptMoving
                     else if want_post_rename pe (if ?skip then nz\<lparr>nz_unpackStatus := usSkipped\<rparr> else nz) then ptPostUnpackRenaming
                     else ptExecutingScript) pi, if ?skip then nz\<lparr>nz_unpackStatus := usSkipped\<rparr> else nz)"
    by (simp only: start_last_def prod.case Let_def)
  let ?nz = "nz\<lparr>nz_unpackStatus := usSkipped\<rparr>"
  have w: "want_cleanup pe nz \<Longrightarrow> nz_cleanupStatus nz = csNone" "want_move pe nz \<Longrightarrow> nz_moveStatus nz = msNone"
    "want_post_rename pe nz \<Longrightarrow> nz_postUnpackRenamingStatus nz = purNone"
    by (simp_all add: want_cleanup_def want_move_def want_post_rename_def)
  consider (p) "unpack_pending nz" "\<not> par_failed nz" | (s) "unpack_pending nz" "par_failed nz" "want_post_rename pe ?nz"
    | (t) "unpack_pending nz" "par_failed nz" "\<not> want_post_rename pe ?nz"
    | (c) "\<not> unpack_pending nz" "want_cleanup pe nz" | (m) "\<not> unpack_pending nz" "\<not> want_cleanup pe nz" "want_move pe nz"
    | (r) "\<not> unpack_pending nz" "\<not> want_cleanup pe nz" "\<not> want_move pe nz" "want_post_rename pe nz"
    | (x) "\<not> unpack_pending nz" "\<not> want_cleanup pe nz" "\<not> want_move pe nz" "\<not> want_post_rename pe nz" by blast
  then show ?thesis
  proof cases
    case p then show ?thesis using e assms by (intro unpack) simp_all
  next
    case s then show ?thesis using e assms by (intro skip_rename) simp_all
  next
    case t then show ?thesis using e assms by (intro skip_scripts) simp_all
  next
    case c then show ?thesis using e assms w by (intro cleanup) simp_all
  next
    case m then show ?thesis using e assms w by (intro move) simp_all
  next
    case r then show ?thesis using e assms w by (intro rename) simp_all
  next
    case x then show ?thesis using e assms by (intro scripts) simp_all
  qed
qed

lemma skipped_rename_done:
  assumes "nz_unpackStatus nz = usNone" "tried_ok pi" "\<not> pi_requestParCheck pi"
  shows "thread_done mp (pi, nz) (post_rename_completed out (enter_stage stage (start_clock now pi), nz\<lparr>nz_unpackStatus := usSkipped\<rparr>))"
  using assms by (simp add: thread_done_def post_rename_completed_def enter_stage_def start_clock_def tried_ok_def job_high_def)

lemma stage_working [simp]: "pi_working (enter_stage stage pi)" "pi_stage (enter_stage stage pi) = stage"
  by (simp_all add: enter_stage_def)

lemma start_clock_working [simp]: "pi_working (start_clock now pi) = pi_working pi"
  by (simp add: start_clock_def)

definition after_thread :: "post_env \<Rightarrow> unpack_env \<Rightarrow> post_outcome \<Rightarrow> post_job \<Rightarrow> post_job" where
  "after_thread pe ue out job = (if pi_working (fst job) then job_end pe ue out job else job)"

text \<open>The last stages: there is progress or the scripts have run.\<close>

lemma start_last_done:
  assumes "start_last pe (start_clock now pi, nz) = (pi', nz')" "nz_parStatus nz \<noteq> psNone \<or> nz_deleteStatus nz \<noteq> dsNone"
    and idle: "tried_ok pi" "\<not> pi_requestParCheck pi" and mp: "ue_hasPars ue = mp"
  shows "thread_done mp (pi, nz) (after_thread pe ue out (pi', nz')) \<or>
    (pi_stage pi' = ptExecutingScript \<and> pi_working pi' \<and> nz_skipScriptProcessing nz' = nz_skipScriptProcessing nz)"
  using assms(1)
proof (cases rule: start_last_cases)
  case unpack
  then have "nz_unpackStatus nz = usNone" "nz_parStatus nz \<noteq> psNone" using assms(2) by (auto simp: unpack_pending_def)
  from unpack_done [OF this idle mp] show ?thesis using unpack by (simp add: after_thread_def job_end_def)
next
  case skip_rename
  then have "nz_unpackStatus nz = usNone" by (simp add: unpack_pending_def)
  from skipped_rename_done [OF this idle] show ?thesis using skip_rename by (simp add: after_thread_def job_end_def)
next
  case cleanup
  from cleanup_done [OF cleanup(1) idle] show ?thesis using cleanup by (simp add: after_thread_def job_end_def)
next
  case move
  from move_done [OF move(1) idle] show ?thesis using move by (simp add: after_thread_def job_end_def)
next
  case rename
  from post_rename_done [OF rename(1) idle] show ?thesis using rename by (simp add: after_thread_def job_end_def)
qed simp_all

lemma start_rar_done:
  assumes "start_rar pe (start_clock now pi, nz) = Some job"
    and idle: "tried_ok pi" "\<not> pi_requestParCheck pi" "\<not> pi_working pi" and mp: "has_main_pars (pe_he pe) nz = mp"
  shows "thread_done mp (pi, nz) (after_thread pe ue out job)"
proof (cases "nz_rarRenameStatus nz = rsNone \<and> unpack_pending nz \<and> pe_rarRename pe")
  case True
  then have "nz_rarRenameStatus nz = rsNone" by simp
  from rar_rename_done [OF this idle(1,2)] show ?thesis using True assms(1)
    by (auto simp: start_rar_def after_thread_def job_end_def)
next
  case False
  then have "nz_parStatus nz = psSkipped" mp "job = ((start_clock now pi)\<lparr>pi_requestParCheck := True\<rparr>, nz)"
    using assms(1) mp by (simp_all add: start_rar_def split: if_splits)
  with not_started_done(3) [OF idle this(2,1)] idle(3) show ?thesis by (simp add: after_thread_def)
qed

lemma start_par_done:
  assumes "start_par pe allowPar (start_clock now pi, nz) = Some job"
    and idle: "tried_ok pi" "\<not> pi_requestParCheck pi" "\<not> pi_working pi" and mp: "has_main_pars (pe_he pe) nz = mp"
    and asks: "\<not> asks_for_pars out nz"
  shows "thread_done mp (pi, nz) (after_thread pe ue out job) \<or>
    (\<not> allowPar \<and> job = ((start_clock now pi)\<lparr>pi_needParCheck := True\<rparr>, nz))"
proof -
  define r1 where "r1 = (enter_stage ptParRenaming (start_clock now pi), nz)"
  define r2 where "r2 = ((enter_stage ptLoadingPars (start_clock now pi))\<lparr>pi_needParCheck := False\<rparr>, nz)"
  define r3 where "r3 = ((start_clock now pi)\<lparr>pi_needParCheck := True\<rparr>, nz)"
  define r4 where "r4 = (start_clock now pi, nz\<lparr>nz_parStatus := psSkipped\<rparr>)"
  define r5 where "r5 = (start_clock now pi, nz\<lparr>nz_parStatus := psFailure\<rparr>)"
  define r6 where "r6 = ((start_clock now pi)\<lparr>pi_requestParCheck := True\<rparr>, nz)"
  note e = start_par_def [of pe allowPar "(start_clock now pi, nz)", unfolded prod.case, folded r1_def r2_def r3_def r4_def r5_def r6_def]
  consider (rename) "nz_parRenameStatus nz = rsNone" "job = r1" | (check) "nz_parStatus nz = psNone" mp "job = r2"
    | (wait) "\<not> allowPar" "job = r3" | (skip) "nz_parStatus nz = psNone" "\<not> mp" "job = r4"
    | (fail) "nz_parStatus nz = psSkipped" mp "job = r5" | (request) "nz_parStatus nz = psSkipped" mp "job = r6"
    using assms(1) mp unfolding e by (auto split: if_splits)
  then show ?thesis
  proof cases
    case rename
    with par_rename_done [OF rename(1) asks idle(1,2)] show ?thesis by (simp add: after_thread_def job_end_def r1_def)
  next
    case check
    with par_check_done [OF check(1,2) idle(1,2)] show ?thesis
      by (simp add: after_thread_def job_end_def enter_stage_def r2_def)
  next
    case skip
    with not_started_done(1) [OF idle skip(2,1)] idle(3) show ?thesis by (simp add: after_thread_def r4_def)
  next
    case fail
    with not_started_done(2) [OF idle fail(2,1)] idle(3) show ?thesis by (simp add: after_thread_def r5_def)
  next
    case request
    with not_started_done(3) [OF idle request(2,1)] idle(3) show ?thesis by (simp add: after_thread_def r6_def)
  qed (simp add: r3_def)
qed

lemma post_round_after: "post_round pe ue out allowPar job =
    finish_job (he_now (pe_he pe)) (check_request_par pe (after_thread pe ue out (start_job pe allowPar job)))"
  by (simp add: post_round_def after_thread_def Let_def)

lemma waiting_round:
  assumes "job_idle (pi, nz)" "\<not> pi_needParCheck pi" "he_parCheck (pe_he pe) \<noteq> pcManual"
    and "finish_job now (check_request_par pe ((start_clock t pi)\<lparr>pi_needParCheck := True\<rparr>, nz)) = (False, (pi', nz'))"
  shows "job_idle (pi', nz') \<and> waits_for_par mp (pi, nz) (pi', nz')"
proof -
  let ?pi = "(start_clock t pi)\<lparr>pi_needParCheck := True\<rparr>"
  have "check_request_par pe (?pi, nz) = (?pi, nz)"
    using assms(1) by (simp add: check_request_par_def job_idle_def start_clock_def)
  with assms(4) have f: "finish_job now (?pi, nz) = (False, (pi', nz'))" by simp
  have w: "\<not> pi_working ?pi" using assms(1) by (simp add: job_idle_def)
  note k = finish_job_keeps [OF f w]
  have "job_idle (pi', nz')" using k assms(1) by (simp add: job_idle_def start_clock_def)
  moreover have "dir_status nz' = dir_status nz \<and> job_high nz' = job_high nz \<and> job_low mp (pi', nz') = job_low mp (pi, nz)"
    using k by (intro same_post_progress) (simp_all add: start_clock_def)
  ultimately show ?thesis using k assms(2) by (simp add: waits_for_par_def)
qed

lemma post_round_progress:
  assumes idle: "job_idle (pi, nz)" and pc: "he_parCheck (pe_he pe) \<noteq> pcManual" and scr: "\<not> nz_skipScriptProcessing nz"
    and mp: "has_main_pars (pe_he pe) nz = mp" "ue_hasPars ue = mp" and need: "allowPar \<or> \<not> pi_needParCheck pi"
    and asks: "\<not> asks_for_pars out nz" and r: "post_round pe ue out allowPar (pi, nz) = (False, (pi', nz'))"
  shows "job_idle (pi', nz') \<and> (progress mp (pi, nz) (pi', nz') \<or> waits_for_par mp (pi, nz) (pi', nz'))"
proof -
  let ?now = "he_now (pe_he pe)"
  let ?job = "start_job pe allowPar (pi, nz)"
  have i: "tried_ok pi" "\<not> pi_requestParCheck pi" "\<not> pi_working pi" using idle by (simp_all add: job_idle_def tried_ok_def)
  obtain pi1 nz1 where a: "after_thread pe ue out ?job = (pi1, nz1)" by fastforce
  have f: "finish_job ?now (check_request_par pe (pi1, nz1)) = (False, (pi', nz'))" using r by (simp add: post_round_after a)
  have settled: ?thesis if "thread_done mp (pi, nz) (pi1, nz1)" using thread_done_round [OF that pc f] by blast
  show ?thesis
  proof (cases "start_par pe allowPar (start_clock ?now pi, nz)")
    case (Some job)
    then have j: "?job = job" by (simp add: start_job_def)
    from start_par_done [OF Some i mp(1) asks, of ue] a show ?thesis unfolding j
    proof (elim disjE conjE)
      assume w: "\<not> allowPar" "job = ((start_clock ?now pi)\<lparr>pi_needParCheck := True\<rparr>, nz)"
      then have "pi1 = (start_clock ?now pi)\<lparr>pi_needParCheck := True\<rparr>" "nz1 = nz" using a [unfolded j] i(3) by (simp_all add: after_thread_def)
      with waiting_round [OF idle _ pc] f need w(1) show ?thesis by blast
    qed (use settled in simp)
  next
    case par: None
    show ?thesis
    proof (cases "start_rar pe (start_clock ?now pi, nz)")
      case (Some job)
      then have "?job = job" using par by (simp add: start_job_def)
      with start_rar_done [OF Some i mp(1), of ue out] a settled show ?thesis by simp
    next
      case None
      then have j: "?job = start_last pe (start_clock ?now pi, nz)" using par by (simp add: start_job_def)
      obtain pi2 nz2 where l: "start_last pe (start_clock ?now pi, nz) = (pi2, nz2)" by fastforce
      have "nz_parStatus nz \<noteq> psNone \<or> nz_deleteStatus nz \<noteq> dsNone" using par by (auto simp: start_par_def split: if_splits)
      from start_last_done [OF l this i(1,2) mp(2), of out] show ?thesis
      proof
        assume "pi_stage pi2 = ptExecutingScript \<and> pi_working pi2 \<and> nz_skipScriptProcessing nz2 = nz_skipScriptProcessing nz"
        then have "scripts_completed pe out (pi2, nz2) = (pi1, nz1)" "\<not> nz_skipScriptProcessing nz2"
          using a scr by (simp_all add: j l after_thread_def job_end_def)
        with scripts_finish [OF this(2) pc, of ?now out pi2] f show ?thesis by simp
      qed (use settled a in \<open>simp add: j l\<close>)
    qed
  qed
qed

text \<open>Rounds of a job, while the download is complete: in between, the download may change, but the post-processing
  does not; main par-files turn up only when one of the stages that may change the directory has just been settled.\<close>

inductive post_step :: "bool \<times> post_job \<Rightarrow> bool \<times> post_job \<Rightarrow> bool" where
  round: "he_parCheck (pe_he pe) \<noteq> pcManual \<Longrightarrow> \<not> nz_skipScriptProcessing nz \<Longrightarrow> has_main_pars (pe_he pe) nz = mp \<Longrightarrow>
    ue_hasPars ue = mp \<Longrightarrow> allowPar \<or> \<not> pi_needParCheck pi \<Longrightarrow> \<not> asks_for_pars out nz \<Longrightarrow>
    post_round pe ue out allowPar (pi, nz) = (False, (pi', nz1)) \<Longrightarrow> same_post nz1 nz' \<Longrightarrow>
    (mp' \<longrightarrow> mp) \<or> dir_status nz' \<noteq> dir_status nz \<Longrightarrow> post_step (mp, (pi, nz)) (mp', (pi', nz'))"

lemma job_low_mono: "(mp' \<longrightarrow> mp) \<Longrightarrow> job_low mp' job \<le> job_low mp job"
  by (cases job) (simp only: job_low_def prod.case add_le_cancel_right par_rank_mono)

lemma post_step_decreases:
  assumes "post_step (mp, job) (mp', job')" "job_idle job"
  shows "job_idle job' \<and> rounds_left mp' job' < rounds_left mp job"
  using assms(1)
proof cases
  case (round pe nz ue allowPar pi out pi' nz1 nz')
  note r = post_round_progress [OF assms(2) [unfolded round(1)] round(3-9)]
  have same: "dir_status nz' = dir_status nz1" "job_high nz' = job_high nz1" "job_low m (pi', nz') = job_low m (pi', nz1)" for m
    using same_post_progress [OF round(10), of pi' pi'] by simp_all
  have idle: "job_idle job'" using r by (simp add: round(2) job_idle_def)
  have one: "of_bool b \<le> (1::nat)" for b by simp
  show ?thesis
  proof (cases "job_high nz1 < job_high nz")
    case True
    have "rounds_left mp' job' < rounds_left mp job"
      using True job_low_bound [of mp' job'] one [of "\<not> pi_needParCheck pi'"] by (simp add: rounds_left_def round(1,2) same)
    with idle show ?thesis by blast
  next
    case False
    then have d: "dir_status nz1 = dir_status nz" using r by (auto simp: progress_def waits_for_par_def)
    then have "mp' \<longrightarrow> mp" using round(11) same by simp
    from job_low_mono [OF this, of "(pi', nz')"] have le: "job_low mp' (pi', nz') \<le> job_low mp (pi', nz1)" by (simp add: same)
    have h: "job_high nz' = job_high nz" using dir_status_high [OF d] same by simp
    from r False have "job_low mp (pi', nz1) < job_low mp (pi, nz) \<or> (\<not> pi_needParCheck pi \<and> pi_needParCheck pi' \<and>
        job_low mp (pi', nz1) = job_low mp (pi, nz))" by (auto simp: progress_def waits_for_par_def)
    then have "rounds_left mp' job' < rounds_left mp job"
      using le one [of "\<not> pi_needParCheck pi'"] one [of "\<not> pi_needParCheck pi"] by (auto simp: rounds_left_def round(1,2) h)
    with idle show ?thesis by blast
  qed
qed

text \<open>C30: Post-processing of a download comes to its end: from an idle job there are at most 2559 rounds in a row that
  do not complete it, if the par-check is not manual, the scripts are not switched off and the par-rename does not ask
  for more par-files.\<close>

theorem post_processing_ends:
  assumes "(post_step ^^ n) (mp, job) (mp', job')" "job_idle job"
  shows "n + rounds_left mp' job' \<le> rounds_left mp job \<and> rounds_left mp job \<le> 2559"
proof -
  have "n + rounds_left mp' job' \<le> rounds_left mp job \<and> job_idle job'" using assms
  proof (induction n arbitrary: mp' job')
    case 0 then show ?case by simp
  next
    case (Suc n)
    then obtain mp1 job1 where s: "(post_step ^^ n) (mp, job) (mp1, job1)" "post_step (mp1, job1) (mp', job')" by auto
    from Suc.IH [OF s(1) Suc.prems(2)] have "n + rounds_left mp1 job1 \<le> rounds_left mp job" "job_idle job1" by simp_all
    with post_step_decreases [OF s(2)] show ?case by simp
  qed
  then show ?thesis using rounds_left_bound [of mp job] by simp
qed

section \<open>What the stages may rely on\<close>

text \<open>What holds of a download when a stage is entered.\<close>

definition stage_ready :: "post_env \<Rightarrow> post_stage \<Rightarrow> nzb_info \<Rightarrow> bool" where
  "stage_ready pe stage nz \<longleftrightarrow>
     (case stage of
        ptLoadingPars \<Rightarrow> nz_parStatus nz = psNone \<and> has_main_pars (pe_he pe) nz
      | ptUnpacking \<Rightarrow> unpack_pending nz \<and> \<not> par_failed nz \<and> nz_parStatus nz \<noteq> psNone
      | ptMoving \<Rightarrow> nz_moveStatus nz = msNone \<and> \<not> unpack_failed nz \<and> nz_parStatus nz \<noteq> psFailure \<and> \<not> unpack_pending nz
      | ptExecutingScript \<Rightarrow> nz_deleteStatus nz \<noteq> dsNone \<or>
          ((nz_parRenameStatus nz \<noteq> rsNone \<or> \<not> pe_parRename pe) \<and> nz_parStatus nz \<noteq> psNone \<and> \<not> unpack_pending nz)
      | _ \<Rightarrow> True)"

lemma start_par_none:
  assumes "start_par pe allowPar (pi, nz) = None"
  shows "nz_deleteStatus nz \<noteq> dsNone \<or> ((nz_parRenameStatus nz \<noteq> rsNone \<or> \<not> pe_parRename pe) \<and> nz_parStatus nz \<noteq> psNone)"
  using assms by (auto simp: start_par_def split: if_splits)


section \<open>Examples\<close>

definition plain_env :: post_env where
  "plain_env = \<lparr>pe_he = \<lparr>he_now = 100, he_dir = (\<lambda>_. None), he_size = (\<lambda>_. None), he_load = (\<lambda>_. None),
       he_loadState = (\<lambda>_. None), he_parse = (\<lambda>_. None), he_sort = (\<lambda>_ xs. xs), he_names = ue_names one_archive_env,
       he_keepHistory = 30, he_dupeCheck = True, he_parCheck = pcAuto, he_reorderFiles = False\<rparr>,
     pe_parScan = scExtended, pe_parQuick = True, pe_parRename = False, pe_rarRename = False, pe_renameAfterUnpack = False,
     pe_extCleanupDisk = [], pe_scripts = [''notify'']\<rparr>"

definition plain_outcome :: "int \<Rightarrow> post_outcome" where
  "plain_outcome code = \<lparr>po_renamed = 0, po_damagedPars = False, po_missedFiles = False, po_parRun = (\<lambda>_. []), po_stopped = False,
     po_parSeconds = 0, po_downloadSec = 0, po_ok = True, po_obfuscated = False, po_exitCode = (\<lambda>_. code)\<rparr>"


text \<open>A job whose scripts are switched off stays working in its last stage.\<close>

theorem skipped_scripts_never_end:
  "(case post_round plain_env one_archive_env (plain_outcome 93) True
      (post_init, nzb_init\<lparr>nz_parStatus := psSkipped, nz_unpackStatus := usSkipped, nz_skipScriptProcessing := True\<rparr>) of
     (completed, (pi, nz)) \<Rightarrow> (completed, pi_working pi, pi_stage pi)) = (False, True, ptExecutingScript)"
  by code_simp

theorem post_processing_ends_witness:
  "1 + rounds_left False (snd (post_round plain_env one_archive_env (plain_outcome 93) True (post_init, nzb_init))) \<le>
     rounds_left False (post_init, nzb_init)"
proof -
  let ?r = "post_round plain_env one_archive_env (plain_outcome 93) True (post_init, nzb_init)"
  obtain b pi nz where r: "?r = (b, (pi, nz))" by (metis prod.collapse)
  have "\<not> fst ?r" by code_simp
  with r have r: "?r = (False, (pi, nz))" by simp
  have "post_step (False, (post_init, nzb_init)) (False, (pi, nz))"
    by (rule round [OF _ _ _ _ _ _ r])
      (simp_all add: plain_env_def plain_outcome_def one_archive_env_def has_main_pars_def asks_for_pars_def same_post_def nzb_init_def)
  then have "(post_step ^^ 1) (False, (post_init, nzb_init)) (False, (pi, nz))" by (simp add: relcompp_apply)
  moreover have "job_idle (post_init, nzb_init)" by (simp add: job_idle_def post_init_def)
  ultimately have "1 + rounds_left False (pi, nz) \<le> rounds_left False (post_init, nzb_init)" using post_processing_ends by blast
  then show ?thesis by (simp only: r snd_conv)
qed


end
