(* ===== verification/QuickVerify.thy ===== *)
theory QuickVerify
  imports YEncoder NzbInfo
begin

text \<open>
  Quick verification of downloaded files against a par2 set (\<open>VerifyDataFile\<close> and what it calls in
  \<open>daemon/postprocess/ParChecker.cpp\<close>, \<open>FindFileCrc\<close> of \<open>Repair.cpp\<close>): the checksums computed during the
  download are combined and compared with those of the blocks, instead of reading the file. The par2
  library is not part of the sources: its packets, its table of block checksums and its \<open>CRCUpdateBlock\<close>
  are arguments.
\<close>

section \<open>Reading a range of the file\<close>

definition file_range :: "cstring \<Rightarrow> int \<Rightarrow> int \<Rightarrow> cstring" where
  "file_range file start stop = file_read file (nat start) (nat (stop - start + 1))"

text \<open>\<open>DumbCalcFileRangeCrc\<close>, in blocks of 64 KB; \<open>cnt\<close> is the number of bytes the last read returned. The
  range is inclusive, \<open>None\<close> is a position that cannot be sought.\<close>

function dumb_loop :: "(cstring \<Rightarrow> u32 \<Rightarrow> u32) \<Rightarrow> cstring \<Rightarrow> int \<Rightarrow> int \<Rightarrow> int \<Rightarrow> u32 \<Rightarrow> u32" where
  "dumb_loop eng file start stop cnt crc =
     (if cnt = 65536 \<and> start < stop
      then let needBytes = (if stop - start + 1 > 65536 then 65536 else stop - start + 1);
               block = file_read file (nat start) (nat needBytes)
           in dumb_loop eng file (start + int (length block)) stop (int (length block)) (crc_append eng block crc)
      else crc)"
  by pat_completeness auto
termination
  by (relation "measure (\<lambda>(_, _, start, stop, cnt, _). nat (stop - start) + (if cnt = 65536 then 1 else 0))") auto

declare dumb_loop.simps [simp del]

definition dumb_calc :: "(cstring \<Rightarrow> u32 \<Rightarrow> u32) \<Rightarrow> cstring \<Rightarrow> int \<Rightarrow> int \<Rightarrow> u32 option" where
  "dumb_calc eng file start stop =
     (if start < 0 then None else Some (crc_finish (dumb_loop eng file start stop 65536 crc_reset)))"

section \<open>The checksum of a range from the segments\<close>

record par_segment =
  sg_success :: bool
  sg_offset :: int
  sg_size :: int
  sg_crc :: u32

abbreviation sg_end :: "par_segment \<Rightarrow> int" where
  "sg_end s \<equiv> sg_offset s + sg_size s"

text \<open>\<open>SmartCalcFileRangeCrc\<close>.\<close>

fun smart_loop ::
    "(cstring \<Rightarrow> u32 \<Rightarrow> u32) \<Rightarrow> cstring \<Rightarrow> int \<Rightarrow> int \<Rightarrow> bool \<Rightarrow> u32 \<Rightarrow> par_segment list \<Rightarrow> u32 option" where
  "smart_loop eng file start stop started crc [] = Some crc"
| "smart_loop eng file start stop started crc (s # segs) =
     (let head = \<not> started \<and> sg_offset s > start
      in case (if head then dumb_calc eng file start (sg_offset s - 1) else Some crc) of
           None \<Rightarrow> None
         | Some crc \<Rightarrow>
             if head \<and> sg_end s \<ge> stop then Some crc
             else
               let started = started \<or> head;
                   inside = sg_offset s \<ge> start \<and> sg_end s \<le> stop;
                   crc = (if inside
                          then if \<not> started then sg_crc s else crc32_combine crc (sg_crc s) (word_of_int (sg_size s))
                          else crc)
               in if sg_end s = stop then Some crc
                  else if sg_end s > stop
                  then map_option (\<lambda>part. crc32_combine crc part (word_of_int (stop - sg_offset s + 1)))
                         (dumb_calc eng file (sg_offset s) stop)
                  else smart_loop eng file start stop (started \<or> inside) crc segs)"

definition smart_calc :: "(cstring \<Rightarrow> u32 \<Rightarrow> u32) \<Rightarrow> cstring \<Rightarrow> int \<Rightarrow> int \<Rightarrow> par_segment list \<Rightarrow> u32 option" where
  "smart_calc eng file start stop segs = smart_loop eng file start stop False 0 segs"

section \<open>The verification of a file\<close>

text \<open>\<open>VerifySuccessDataFile\<close>: \<open>zeros crc n\<close> is the \<open>CRCUpdateBlock\<close> of the library, \<open>crcs\<close> the checksums of the blocks.\<close>

definition extend_crc :: "(u32 \<Rightarrow> nat \<Rightarrow> u32) \<Rightarrow> u32 \<Rightarrow> nat \<Rightarrow> u32" where
  "extend_crc zeros crc n = zeros (crc XOR 0xFFFFFFFF) n XOR 0xFFFFFFFF"

definition combine_blocks :: "int \<Rightarrow> u32 list \<Rightarrow> u32" where
  "combine_blocks blocksize crcs =
     (case crcs of [] \<Rightarrow> 0 | c # cs \<Rightarrow> foldl (\<lambda>parCrc c. crc32_combine parCrc c (word_of_int blocksize)) c cs)"

definition verify_success :: "(u32 \<Rightarrow> nat \<Rightarrow> u32) \<Rightarrow> int \<Rightarrow> int \<Rightarrow> u32 list \<Rightarrow> u32 \<Rightarrow> bool" where
  "verify_success zeros blocksize fileSize crcs downloadCrc \<longleftrightarrow>
     combine_blocks blocksize crcs =
       extend_crc zeros downloadCrc (nat (blocksize * int (length crcs) - fileSize))"

text \<open>\<open>VerifyPartialDataFile\<close>: the blocks that lie in successful articles, and the comparison of the checksums range
  by range; the end marker closes the last range.\<close>

fun block_loop :: "int \<Rightarrow> int \<Rightarrow> bool \<Rightarrow> int \<Rightarrow> par_segment list \<Rightarrow> bool" where
  "block_loop blockStart blockEnd ok cur [] = False"
| "block_loop blockStart blockEnd ok cur (s # segs) =
     (let first = \<not> ok \<and> sg_success s \<and> sg_offset s \<le> blockStart \<and> sg_end s \<ge> blockStart;
          cur = (if first then sg_offset s else cur)
      in if ok \<or> first
         then if \<not> (sg_success s \<and> sg_offset s = cur) then False
              else if sg_end s \<ge> blockEnd then True
              else block_loop blockStart blockEnd True (sg_end s) segs
         else block_loop blockStart blockEnd False cur segs)"

definition valid_block :: "int \<Rightarrow> int \<Rightarrow> par_segment list \<Rightarrow> nat \<Rightarrow> bool" where
  "valid_block blocksize fileSize segs i =
     (let blockStart = int i * blocksize
      in block_loop blockStart (if blockStart + blocksize < fileSize - 1 then blockStart + blocksize else fileSize - 1)
           False 0 segs)"

definition range_agrees ::
    "(cstring \<Rightarrow> u32 \<Rightarrow> u32) \<Rightarrow> (u32 \<Rightarrow> nat \<Rightarrow> u32) \<Rightarrow> cstring \<Rightarrow> int \<Rightarrow> par_segment list \<Rightarrow> nat \<Rightarrow> nat \<Rightarrow> u32 \<Rightarrow> bool" where
  "range_agrees eng zeros file blocksize segs blockStart blockEnd parCrc \<longleftrightarrow>
     (let fileSize = int (length file); bytesStart = int blockStart * blocksize;
          bytesEnd = int blockEnd * blocksize + blocksize - 1
      in case smart_calc eng file bytesStart (if bytesEnd < fileSize - 1 then bytesEnd else fileSize - 1) segs of
           None \<Rightarrow> False
         | Some downloadCrc \<Rightarrow>
             (if bytesEnd > fileSize - 1 then extend_crc zeros downloadCrc (nat (bytesEnd - (fileSize - 1))) else downloadCrc) = parCrc)"

fun range_loop ::
    "(nat \<Rightarrow> nat \<Rightarrow> u32 \<Rightarrow> bool) \<Rightarrow> int \<Rightarrow> nat \<Rightarrow> (nat \<times> u32) option \<Rightarrow> (bool \<times> u32) list \<Rightarrow> bool" where
  "range_loop agrees blocksize i open_range [] = True"
| "range_loop agrees blocksize i open_range ((valid, crc) # blocks) =
     (if valid
      then range_loop agrees blocksize (Suc i)
             (Some (case open_range of None \<Rightarrow> (i, crc)
                    | Some (start, parCrc) \<Rightarrow> (start, crc32_combine parCrc crc (word_of_int blocksize)))) blocks
      else (case open_range of
              None \<Rightarrow> range_loop agrees blocksize (Suc i) None blocks
            | Some (start, parCrc) \<Rightarrow> agrees start (i - 1) parCrc \<and> range_loop agrees blocksize (Suc i) None blocks))"

definition verify_partial ::
    "(cstring \<Rightarrow> u32 \<Rightarrow> u32) \<Rightarrow> (u32 \<Rightarrow> nat \<Rightarrow> u32) \<Rightarrow> cstring \<Rightarrow> int \<Rightarrow> u32 list \<Rightarrow> par_segment list \<Rightarrow> bool list \<times> bool" where
  "verify_partial eng zeros file blocksize crcs segs =
     (let valid = map (valid_block blocksize (int (length file)) segs) [0..<length crcs]
      in (valid, range_loop (range_agrees eng zeros file blocksize segs) blocksize 0 None
                   (zip valid crcs @ [(False, 0)])))"

datatype file_status = fsUnknown | fsSuccess | fsPartial | fsFailure

text \<open>\<open>FindFileCrc\<close>: the completed file and, for a partial one, the articles of its saved state.\<close>

definition segment_of :: "article_info \<Rightarrow> par_segment" where
  "segment_of a = \<lparr>sg_success = (ai_status a = aiFinished), sg_offset = ai_segmentOffset a, sg_size = ai_segmentSize a,
     sg_crc = ai_crc a\<rparr>"

definition find_file_crc ::
    "(int \<Rightarrow> article_info list option) \<Rightarrow> nzb_info \<Rightarrow> cstring \<Rightarrow> file_status \<times> u32 \<times> par_segment list" where
  "find_file_crc loadState nz filename =
     (case find (\<lambda>cf. strcase_eq (cf_filename cf) filename) (nz_completedFiles nz) of
        None \<Rightarrow> (fsUnknown, 0, [])
      | Some cf \<Rightarrow>
          (let wanted = cf_status cf = cfPartial \<and> cf_id cf > 0 \<and> \<not> nz_reprocess nz
           in case (if wanted then loadState (cf_id cf) else Some []) of
                None \<Rightarrow> (fsUnknown, cf_crc cf, [])
              | Some articles \<Rightarrow>
                  (if cf_status cf = cfSuccess then fsSuccess
                   else if cf_status cf = cfFailure \<and> \<not> nz_reprocess nz then fsFailure
                   else if cf_status cf = cfPartial \<and> articles \<noteq> [] \<and> \<not> nz_reprocess nz then fsPartial
                   else fsUnknown, cf_crc cf, map segment_of articles)))"

text \<open>Attaching the blocks. \<open>own crc\<close> tells whether the table of the library has an entry of this file for the checksum;
  the list holds the entries that are set. \<open>None\<close> is a block without a free entry, after which all entries set here
  are released.\<close>

fun attach_blocks :: "(u32 \<Rightarrow> bool) \<Rightarrow> u32 list \<Rightarrow> u32 list \<Rightarrow> u32 list option" where
  "attach_blocks own taken [] = Some taken"
| "attach_blocks own taken (c # cs) =
     (if \<not> own c \<or> c \<in> set taken then None else attach_blocks own (c # taken) cs)"

text \<open>\<open>VerifyDataFile\<close> while the sources are verified: the status and, if the file was taken as verified, the checksums
  of its blocks found and their number.\<close>

definition verify_data_file ::
    "(cstring \<Rightarrow> u32 \<Rightarrow> u32) \<Rightarrow> (u32 \<Rightarrow> nat \<Rightarrow> u32) \<Rightarrow> (u32 \<Rightarrow> bool) \<Rightarrow> u32 list \<Rightarrow> int \<Rightarrow> u32 list option \<Rightarrow> cstring \<Rightarrow>
     file_status \<times> u32 \<times> par_segment list \<Rightarrow> file_status \<times> u32 list \<times> nat" where
  "verify_data_file eng zeros own taken blocksize packet file found =
     (case packet of
        None \<Rightarrow> (fsUnknown, taken, 0)
      | Some crcs \<Rightarrow>
          if file = [] \<and> crcs \<noteq> [] then (fsFailure, taken, 0)
          else
            (case found of (status, downloadCrc, segs) \<Rightarrow>
               if status = fsFailure \<or> status = fsUnknown then (status, taken, 0)
               else
                 (let (valid, ok) = (if status = fsSuccess
                        then (map (\<lambda>_. True) crcs, verify_success zeros blocksize (int (length file)) crcs downloadCrc)
                        else verify_partial eng zeros file blocksize crcs segs);
                      blocks = map snd (filter fst (zip valid crcs))
                  in if \<not> ok then (fsUnknown, taken, 0)
                     else case attach_blocks own taken blocks of
                            None \<Rightarrow> (fsUnknown, taken, 0)
                          | Some taken' \<Rightarrow> (status, taken', length blocks))))"
section \<open>What is read and combined\<close>

text \<open>The block function of the library continues a CRC-32.\<close>

definition crc_function :: "(cstring \<Rightarrow> u32 \<Rightarrow> u32) \<Rightarrow> bool" where
  "crc_function eng \<longleftrightarrow> eng = crc32_update"

lemma file_read_append: "file_read file a n @ file_read file (a + n) m = file_read file a (n + m)"
  by (simp add: file_read_def take_add [of n m "drop a file"] add.commute [of n a])

lemma file_read_length: "a + n \<le> length file \<Longrightarrow> length (file_read file a n) = n"
  by (simp add: file_read_def)

lemma file_range_append:
  assumes "0 \<le> a" "a \<le> b" "b \<le> c + 1"
  shows "file_range file a (b - 1) @ file_range file b c = file_range file a c"
proof -
  have "nat b = nat a + nat (b - a)" "nat (c - a + 1) = nat (b - a) + nat (c - b + 1)" using assms by linarith+
  then show ?thesis using file_read_append [of "file" "nat a" "nat (b - a)" "nat (c - b + 1)"] by (simp add: file_range_def)
qed

lemma file_range_length:
  assumes "0 \<le> a" "a \<le> b + 1" "b < int (length file)"
  shows "int (length (file_range file a b)) = b - a + 1"
  using assms file_read_length [of "nat a" "nat (b - a + 1)" "file"] by (simp add: file_range_def)

text \<open>What the loop reads: the range, but not its last byte when that is alone in the last block.\<close>

definition bytes_read :: "cstring \<Rightarrow> int \<Rightarrow> int \<Rightarrow> cstring" where
  "bytes_read file start stop = file_range file start (if (stop - start + 1) mod 65536 = 1 then stop - 1 else stop)"

lemma dumb_loop_reads:
  assumes "0 \<le> start" "start \<le> stop + 1" "stop < int (length file)"
  shows "dumb_loop crc32_update file start stop 65536 crc = crc32_update (bytes_read file start stop) crc"
  using assms
proof (induction "nat (stop - start + 1)" arbitrary: start crc rule: less_induct)
  case less
  show ?case
  proof (cases "start < stop")
    case False
    then have "start = stop \<or> start = stop + 1" using less.prems by linarith
    then show ?thesis using False
      by (auto simp: dumb_loop.simps [of _ _ start] bytes_read_def file_range_def file_read_def crc32_update_Nil)
  next
    case True
    define n where "n = (if stop - start + 1 > 65536 then 65536 else stop - start + 1)"
    define block where "block = file_read file (nat start) (nat n)"
    have n: "2 \<le> n" "n \<le> 65536" "n \<le> stop - start + 1" using True by (simp_all add: n_def)
    have len: "int (length block) = n" unfolding block_def using less.prems n by (subst file_read_length) simp_all
    have blk: "block = file_range file start (start + n - 1)" by (simp add: block_def file_range_def)
    have step: "dumb_loop crc32_update file start stop 65536 crc =
        dumb_loop crc32_update file (start + n) stop n (crc32_update block crc)"
      using True by (subst dumb_loop.simps) (simp only: Let_def n_def [symmetric] block_def [symmetric] crc_append_def len simp_thms if_True)
    show ?thesis
    proof (cases "n = 65536")
      case True
      have "nat (stop - (start + n) + 1) < nat (stop - start + 1)" using n by linarith
      from less.hyps [OF this, of "crc32_update block crc"] less.prems n
      have "dumb_loop crc32_update file (start + n) stop n (crc32_update block crc) =
          crc32_update (bytes_read file (start + n) stop) (crc32_update block crc)" by (simp add: True)
      moreover have "block @ bytes_read file (start + n) stop = bytes_read file start stop"
      proof -
        have m: "(stop - (start + 65536) + 1) mod 65536 = (stop - start + 1) mod (65536::int)"
          using mod_add_self2 [of "stop - (start + 65536) + 1" "65536::int"] by (simp add: algebra_simps)
        have ne: "(stop - start + 1) mod 65536 = 1 \<Longrightarrow> stop - start + 1 \<noteq> 65536" by auto
        have "65536 \<le> stop - start + 1" using n True by simp
        then have "start + 65536 \<le> (if (stop - start + 1) mod 65536 = 1 then stop - 1 else stop) + 1"
        proof (cases "(stop - start + 1) mod 65536 = 1")
          case True
          with ne have "stop - start + 1 \<noteq> 65536" by blast
          with \<open>65536 \<le> stop - start + 1\<close> have "start + 65536 \<le> stop" by linarith
          then show ?thesis by (simp add: True)
        qed simp
        then show ?thesis unfolding bytes_read_def blk True m
          by (intro file_range_append) (use less.prems in linarith)+
      qed
      ultimately show ?thesis unfolding step using crc32_update_append by metis
    next
      case False
      then have e: "n = stop - start + 1" by (simp add: n_def split: if_splits)
      then have "(stop - start + 1) mod 65536 = stop - start + 1" using n False by simp
      then have "bytes_read file start stop = block" using n e by (simp add: bytes_read_def blk)
      then show ?thesis unfolding step using False by (subst dumb_loop.simps) simp
    qed
  qed
qed

lemma dumb_calc_reads:
  assumes "0 \<le> start" "start \<le> stop + 1" "stop < int (length file)"
  shows "dumb_calc crc32_update file start stop = Some (crc32 (bytes_read file start stop))"
  using assms by (simp add: dumb_calc_def dumb_loop_reads crc_finish_def crc_reset_def)

text \<open>The checksum of a range read from the file misses the last byte when the length of the range is one more than a
  multiple of the block size: the loop ends as soon as one byte is left.\<close>

theorem dumb_calc_misses_last_byte:
  "dumb_calc crc32_update ''abc'' 1 1 = Some (crc32 []) \<and> dumb_calc crc32_update ''abc'' 0 2 = Some (crc32 ''abc'') \<and>
   crc32 ''b'' \<noteq> crc32 []"
proof -
  have "dumb_calc crc32_update ''abc'' 1 1 = Some (crc32 [])" "dumb_calc crc32_update ''abc'' 0 2 = Some (crc32 ''abc'')"
    by (simp_all add: dumb_calc_reads bytes_read_def file_range_def file_read_def)
  moreover have "crc32 ''b'' \<noteq> crc32 []" by code_simp
  ultimately show ?thesis by simp
qed

text \<open>A segment that was downloaded as it should be, and segments one after the other.\<close>

definition seg_intact :: "cstring \<Rightarrow> par_segment \<Rightarrow> bool" where
  "seg_intact file s \<longleftrightarrow> 0 \<le> sg_offset s \<and> 0 < sg_size s \<and> sg_size s < 2 ^ 31 \<and> sg_end s \<le> int (length file) \<and>
     sg_crc s = crc32 (file_range file (sg_offset s) (sg_end s - 1))"

fun chained :: "int \<Rightarrow> par_segment list \<Rightarrow> bool" where
  "chained from [] = True"
| "chained from (s # segs) = (sg_offset s = from \<and> chained (sg_end s) segs)"

lemma combine_append:
  assumes "length ys < 2 ^ 32"
  shows "crc32_combine (crc32 xs) (crc32 ys) (word_of_int (int (length ys))) = crc32 (xs @ ys)"
  using crc32_combine_segments [of "[ys]" xs] assms by simp

lemma combine_range:
  assumes "0 \<le> a" "a \<le> b" "b \<le> c + 1" "c < int (length file)" "c - b + 1 < 2 ^ 32"
  shows "crc32_combine (crc32 (file_range file a (b - 1))) (crc32 (file_range file b c)) (word_of_int (c - b + 1)) =
    crc32 (file_range file a c)"
proof -
  have len: "int (length (file_range file b c)) = c - b + 1" using assms by (intro file_range_length) simp_all
  then have "length (file_range file b c) < 2 ^ 32" using assms(5) by simp
  from combine_append [OF this, of "file_range file a (b - 1)"] show ?thesis
    using file_range_append [OF assms(1-3)] by (simp only: len)
qed

lemma empty_range: "b < a \<Longrightarrow> file_range file a b = []"
  by (simp add: file_range_def file_read_def)

definition one_left :: "int \<Rightarrow> int \<Rightarrow> bool" where
  "one_left start stop \<longleftrightarrow> (stop - start + 1) mod 65536 = 1"

lemma dumb_calc_range:
  assumes "0 \<le> start" "start \<le> stop + 1" "stop < int (length file)" "\<not> one_left start stop"
  shows "dumb_calc crc32_update file start stop = Some (crc32 (file_range file start stop))"
  using assms by (simp add: dumb_calc_reads bytes_read_def one_left_def)

lemma smart_loop_covers:
  assumes "chained from (mid @ [l])" "\<forall>s\<in>set mid. seg_intact file s \<and> sg_end s < stop"
    and "sg_offset l \<le> stop" "stop < sg_end l" "\<not> one_left (sg_offset l) stop" "stop - sg_offset l + 1 < 2 ^ 32"
    and "0 \<le> start" "start \<le> from" "stop < int (length file)" "started \<or> from = start"
  shows "smart_loop crc32_update file start stop started (crc32 (file_range file start (from - 1))) (mid @ l # post) =
    Some (crc32 (file_range file start stop))"
  using assms
proof (induction mid arbitrary: started "from")
  case Nil
  then have off: "sg_offset l = from" by simp
  have d: "dumb_calc crc32_update file from stop = Some (crc32 (file_range file from stop))"
    using Nil off by (intro dumb_calc_range) simp_all
  have "crc32_combine (crc32 (file_range file start (from - 1))) (crc32 (file_range file from stop)) (word_of_int (stop - from + 1)) =
      crc32 (file_range file start stop)"
    using Nil off by (intro combine_range) simp_all
  then show ?case using Nil.prems off d by (auto simp: Let_def)
next
  case (Cons s mid)
  have off: "sg_offset s = from" "chained (sg_end s) (mid @ [l])" using Cons.prems(1) by auto
  have s: "seg_intact file s" "sg_end s < stop" using Cons.prems(2) by simp_all
  then have b: "0 < sg_size s" "sg_end s \<le> int (length file)" "sg_size s < 2 ^ 31" "sg_crc s = crc32 (file_range file from (sg_end s - 1))"
    by (simp_all add: seg_intact_def off)
  have IH: "smart_loop crc32_update file start stop True (crc32 (file_range file start (sg_end s - 1))) (mid @ l # post) =
      Some (crc32 (file_range file start stop))"
    using Cons.prems off b by (intro Cons.IH) simp_all
  have "crc32_combine (crc32 (file_range file start (from - 1))) (crc32 (file_range file from (sg_end s - 1))) (word_of_int ((sg_end s - 1) - from + 1)) =
      crc32 (file_range file start (sg_end s - 1))"
    using Cons.prems(7,8) b off by (intro combine_range) simp_all
  then have c: "crc32_combine (crc32 (file_range file start (from - 1))) (sg_crc s) (word_of_int (sg_size s)) = crc32 (file_range file start (sg_end s - 1))"
    using b(4) off by simp
  have c0: "sg_crc s = crc32 (file_range file start (sg_end s - 1))" if "\<not> started" using that b(4) Cons.prems(10) by simp
  show ?case using Cons.prems(8,10) s(2) off c c0 IH by (cases started) (simp_all add: Let_def)
qed

lemma smart_loop_before:
  assumes "\<forall>s\<in>set pre. sg_offset s < start \<and> sg_end s < stop"
  shows "smart_loop eng file start stop False crc (pre @ segs) = smart_loop eng file start stop False crc segs"
  using assms by (induction pre) (simp_all add: Let_def)

text \<open>C32: The checksum of a range is computed without reading the segments inside it. It is right when the articles around
  the range are intact, and
  - one of them begins where the range begins, or there is at least one that lies inside the range and another one behind
    it before the range ends;
  - none ends with the byte before the last one of the range;
  - the parts read from the file do not leave a single byte for the last block.\<close>

theorem smart_calc_correct:
  assumes "crc_function eng" "\<forall>s\<in>set pre. sg_offset s < start \<and> sg_end s < stop" "chained from (mid @ [l])"
    and "\<forall>s\<in>set mid. seg_intact file s \<and> sg_end s < stop"
    and "sg_offset l \<le> stop" "stop < sg_end l" "\<not> one_left (sg_offset l) stop" "stop - sg_offset l + 1 < 2 ^ 32"
    and "0 \<le> start" "stop < int (length file)"
    and "from = start \<or> start < from \<and> mid \<noteq> [] \<and> \<not> one_left start (from - 1)"
  shows "smart_calc eng file start stop (pre @ mid @ l # post) = Some (crc32 (file_range file start stop))"
proof -
  have eng: "eng = crc32_update" using assms(1) by (simp add: crc_function_def)
  have z: "0 = crc32 (file_range file start (start - 1))" by (simp add: empty_range crc32_update_Nil)
  show ?thesis
  proof (cases "from = start")
    case True
    from smart_loop_covers [OF assms(3-9) _ assms(10), of False post] True
    show ?thesis by (simp add: smart_calc_def eng smart_loop_before [OF assms(2)] z [symmetric] True)
  next
    case False
    then have f: "start < from" "mid \<noteq> []" "\<not> one_left start (from - 1)" using assms(11) by simp_all
    then obtain m ms where m: "mid = m # ms" by (cases mid) auto
    have off: "sg_offset m = from" using assms(3) m by simp
    have i: "seg_intact file m" "sg_end m < stop" using assms(4) m by simp_all
    have "dumb_calc crc32_update file start (from - 1) = Some (crc32 (file_range file start (from - 1)))"
      using f assms(9) i off by (intro dumb_calc_range) (simp_all add: seg_intact_def)
    then have "smart_loop crc32_update file start stop False 0 (mid @ l # post) =
        smart_loop crc32_update file start stop True (crc32 (file_range file start (from - 1))) (mid @ l # post)"
      using f(1) i(2) off by (simp add: m Let_def)
    with smart_loop_covers [OF assms(3-9) _ assms(10), of True post] f(1)
    show ?thesis by (simp add: smart_calc_def eng smart_loop_before [OF assms(2)])
  qed
qed

definition letters_in_threes :: "par_segment list" where
  "letters_in_threes = map (\<lambda>(o1, d). \<lparr>sg_success = True, sg_offset = o1, sg_size = int (length d), sg_crc = crc32 d\<rparr>)
     [(0, ''abc''), (3, ''def''), (6, ''gh'')]"

text \<open>Ranges for which the loop gives the checksum of something else: a range that begins in one article and ends in the
  next one (here the bytes 1 to 4, of which those in the second article are left out), one inside a single article (the bytes
  4 and 5, to which the byte before is added), and one whose last byte is the first of an article (the bytes 0 to 3, of which the
  last is left out). The comparison then fails for intact data, and the file is read in full.\<close>

theorem smart_calc_misses_ranges:
  "smart_calc crc32_update ''abcdefgh'' 1 4 letters_in_threes = Some (crc32 ''bc'') \<and>
   smart_calc crc32_update ''abcdefgh'' 4 5 letters_in_threes = Some (crc32 ''def'') \<and>
   smart_calc crc32_update ''abcdefgh'' 0 3 letters_in_threes = Some (crc32 ''abc'')"
proof -
  have d: "dumb_calc crc32_update ''abcdefgh'' 1 2 = Some (crc32 ''bc'')" "dumb_calc crc32_update ''abcdefgh'' 3 5 = Some (crc32 ''def'')"
    by (simp_all add: dumb_calc_reads bytes_read_def file_range_def file_read_def)
  have "crc32_combine 0 (crc32 ''def'') 3 = crc32 ''def''"
    using combine_append [of "''def''" "[]"] by (simp add: crc32_update_Nil)
  with d show ?thesis by (simp add: smart_calc_def letters_in_threes_def Let_def)
qed

lemma combine_blocks_concat:
  assumes "\<forall>b\<in>set blocks. int (length b) = blocksize" "0 < blocksize" "blocksize < 2 ^ 32"
  shows "combine_blocks blocksize (map crc32 blocks) = crc32 (concat blocks)"
proof (cases blocks)
  case Nil
  then show ?thesis by (simp add: combine_blocks_def crc32_update_Nil)
next
  case (Cons b bs)
  have len: "length s < 2 ^ 32" "word_of_int blocksize = (word_of_nat (length s) :: u32)" if "s \<in> set bs" for s
  proof -
    have l: "int (length s) = blocksize" using assms(1) that Cons by simp
    then show "length s < 2 ^ 32" using assms(3) by simp
    show "word_of_int blocksize = (word_of_nat (length s) :: u32)" by (simp add: l [symmetric])
  qed
  have "foldl (\<lambda>c s. crc32_combine c (crc32 s) (word_of_int blocksize)) c bs =
      foldl (\<lambda>c s. crc32_combine c (crc32 s) (word_of_nat (length s))) c bs" for c
    by (rule foldl_cong) (simp_all add: len)
  then show ?thesis using crc32_combine_segments [of bs b] len(1) Cons
    by (simp add: combine_blocks_def foldl_map)
qed

definition zero_filler :: "(u32 \<Rightarrow> nat \<Rightarrow> u32) \<Rightarrow> bool" where
  "zero_filler zeros \<longleftrightarrow> zeros = (\<lambda>c n. crc_raw c (replicate n (CHR 0x00)))"

lemma extend_crc_zeros:
  assumes "zero_filler zeros"
  shows "extend_crc zeros (crc32 data) n = crc32 (data @ replicate n (CHR 0x00))"
proof -
  have x: "w XOR 0xFFFFFFFF = NOT w" for w :: u32
  proof -
    have "(0xFFFFFFFF :: u32) = - 1" by simp
    then show ?thesis by (metis bit.xor_one_right)
  qed
  show ?thesis using assms by (simp add: extend_crc_def zero_filler_def x crc32_update_append [of data] crc32_update_def [of "replicate n (CHR 0x00)"])
qed

text \<open>C33: The quick check of a good file: it succeeds if and only if the checksum of the blocks of the par2 set is that of the
  downloaded data filled with zeros to full blocks.\<close>

theorem verify_success_correct:
  assumes "zero_filler zeros" "\<forall>b\<in>set blocks. int (length b) = blocksize" "0 < blocksize" "blocksize < 2 ^ 32"
    and "int (length data) \<le> blocksize * int (length blocks)"
  shows "verify_success zeros blocksize (int (length data)) (map crc32 blocks) (crc32 data) \<longleftrightarrow>
    crc32 (concat blocks) = crc32 (data @ replicate (nat (blocksize * int (length blocks)) - length data) (CHR 0x00))"
proof -
  have "nat (blocksize * int (length blocks) - int (length data)) = nat (blocksize * int (length blocks)) - length data"
    using assms(5) by simp
  then show ?thesis
    by (simp add: verify_success_def combine_blocks_concat [OF assms(2-4)] extend_crc_zeros [OF assms(1)])
qed

text \<open>A block counts as valid only if successful articles that follow one another cover it; of the last block of the file the
  last byte need not be covered.\<close>

lemma block_loop_run:
  "block_loop blockStart blockEnd True cur segs \<Longrightarrow>
   \<exists>run post. segs = run @ post \<and> run \<noteq> [] \<and> list_all sg_success run \<and> chained cur run \<and> sg_end (last run) \<ge> blockEnd"
proof (induction segs arbitrary: cur)
  case (Cons s segs)
  then have s: "sg_success s" "sg_offset s = cur" "sg_end s \<ge> blockEnd \<or> block_loop blockStart blockEnd True (sg_end s) segs"
    by (auto simp: Let_def split: if_splits)
  show ?case
  proof (cases "sg_end s \<ge> blockEnd")
    case True
    then show ?thesis using s by (intro exI [of _ "[s]"] exI [of _ segs]) simp
  next
    case False
    with s(3) have "block_loop blockStart blockEnd True (sg_end s) segs" by simp
    from Cons.IH [OF this] obtain run post where "segs = run @ post" "run \<noteq> []" "list_all sg_success run" "chained (sg_end s) run"
      "sg_end (last run) \<ge> blockEnd" by blast
    then show ?thesis using s by (intro exI [of _ "s # run"] exI [of _ post]) simp
  qed
qed simp

lemma block_loop_covered:
  "block_loop blockStart blockEnd False cur segs \<Longrightarrow>
   \<exists>pre run post. segs = pre @ run @ post \<and> run \<noteq> [] \<and> list_all sg_success run \<and> chained (sg_offset (hd run)) run \<and>
     sg_offset (hd run) \<le> blockStart \<and> sg_end (last run) \<ge> blockEnd"
proof (induction segs arbitrary: cur)
  case (Cons s segs)
  show ?case
  proof (cases "sg_success s \<and> sg_offset s \<le> blockStart \<and> sg_end s \<ge> blockStart")
    case True
    then have "block_loop blockStart blockEnd True (sg_offset s) (s # segs)" using Cons.prems by (simp add: Let_def split: if_splits)
    from block_loop_run [OF this] obtain run post where r: "s # segs = run @ post" "run \<noteq> []" "list_all sg_success run"
      "chained (sg_offset s) run" "sg_end (last run) \<ge> blockEnd" by blast
    then have "hd run = s" by (cases run) simp_all
    then show ?thesis using r True by (intro exI [of _ "[]"] exI [of _ run] exI [of _ post]) simp
  next
    case False
    then have "block_loop blockStart blockEnd False cur segs" using Cons.prems by (auto simp: Let_def split: if_splits)
    from Cons.IH [OF this] obtain pre run post where "segs = pre @ run @ post" "run \<noteq> []" "list_all sg_success run"
      "chained (sg_offset (hd run)) run" "sg_offset (hd run) \<le> blockStart" "sg_end (last run) \<ge> blockEnd" by blast
    then show ?thesis by (intro exI [of _ "s # pre"] exI [of _ run] exI [of _ post]) simp
  qed
qed simp

theorem valid_block_covered:
  assumes "valid_block blocksize fileSize segs i"
  shows "\<exists>pre run post. segs = pre @ run @ post \<and> run \<noteq> [] \<and> list_all sg_success run \<and> chained (sg_offset (hd run)) run \<and>
     sg_offset (hd run) \<le> int i * blocksize \<and> sg_end (last run) \<ge> min (int (Suc i) * blocksize) (fileSize - 1)"
proof -
  have m: "(if int i * blocksize + blocksize < fileSize - 1 then int i * blocksize + blocksize else fileSize - 1) =
      min (int (Suc i) * blocksize) (fileSize - 1)" by (simp add: algebra_simps min_def)
  show ?thesis using block_loop_covered [OF assms [unfolded valid_block_def Let_def m]] by blast
qed

text \<open>A verified file has exactly its valid blocks attached, each to an entry of its own that was free before; in every other
  case no entry stays set.\<close>

lemma attach_blocks_some:
  assumes "attach_blocks own taken crcs = Some taken'"
  shows "taken' = rev crcs @ taken \<and> distinct crcs \<and> list_all own crcs \<and> set crcs \<inter> set taken = {}"
  using assms
proof (induction crcs arbitrary: taken)
  case (Cons c crcs)
  then have c: "own c" "c \<notin> set taken" "attach_blocks own (c # taken) crcs = Some taken'" by (simp_all split: if_splits)
  from Cons.IH [OF c(3)] c(1,2) show ?case by auto
qed simp

theorem verify_data_file_attaches:
  assumes "verify_data_file eng zeros own taken blocksize packet file found = (status, taken', n)"
  shows "if status = fsSuccess \<or> status = fsPartial
    then \<exists>blocks. taken' = rev blocks @ taken \<and> n = length blocks \<and> distinct blocks \<and> list_all own blocks \<and>
      set blocks \<inter> set taken = {}
    else taken' = taken \<and> n = 0"
proof (cases packet)
  case None
  then show ?thesis using assms by (simp add: verify_data_file_def)
next
  case (Some crcs)
  obtain st downloadCrc segs where f: "found = (st, downloadCrc, segs)" by (cases found)
  obtain valid ok where v: "(if st = fsSuccess
      then (map (\<lambda>_. True) crcs, verify_success zeros blocksize (int (length file)) crcs downloadCrc)
      else verify_partial eng zeros file blocksize crcs segs) = (valid, ok)" by (metis prod.collapse)
  let ?blocks = "map snd (filter fst (zip valid crcs))"
  have e: "verify_data_file eng zeros own taken blocksize packet file found =
      (if file = [] \<and> crcs \<noteq> [] then (fsFailure, taken, 0)
       else if st = fsFailure \<or> st = fsUnknown then (st, taken, 0)
       else if \<not> ok then (fsUnknown, taken, 0)
       else case attach_blocks own taken ?blocks of None \<Rightarrow> (fsUnknown, taken, 0) | Some taken' \<Rightarrow> (st, taken', length ?blocks))"
    by (simp add: verify_data_file_def Some f v Let_def)
  show ?thesis
  proof (cases "attach_blocks own taken ?blocks")
    case None
    then show ?thesis using assms unfolding e by (auto split: if_splits)
  next
    case (Some t)
    note a = attach_blocks_some [OF Some]
    show ?thesis using assms unfolding e Some option.case
      by (cases st) (use a in \<open>auto split: if_splits\<close>)
  qed
qed

section \<open>Examples\<close>

theorem smart_calc_correct_witness:
  "smart_calc crc32_update ''abcdefgh'' 3 7 letters_in_threes = Some (crc32 (file_range ''abcdefgh'' 3 7)) \<and>
   file_range ''abcdefgh'' 3 7 = ''defgh''"
proof -
  let ?s = "\<lambda>i. letters_in_threes ! i"
  have s: "?s 0 = \<lparr>sg_success = True, sg_offset = 0, sg_size = 3, sg_crc = crc32 ''abc''\<rparr>"
    "?s 1 = \<lparr>sg_success = True, sg_offset = 3, sg_size = 3, sg_crc = crc32 ''def''\<rparr>"
    "?s 2 = \<lparr>sg_success = True, sg_offset = 6, sg_size = 2, sg_crc = crc32 ''gh''\<rparr>" by (simp_all add: letters_in_threes_def)
  have c: "chained 3 ([?s 1] @ [?s 2])" by (simp only: s) simp
  have "letters_in_threes = [?s 0] @ [?s 1] @ ?s 2 # []" by (simp add: letters_in_threes_def)
  moreover have "smart_calc crc32_update ''abcdefgh'' 3 7 ([?s 0] @ [?s 1] @ ?s 2 # []) = Some (crc32 (file_range ''abcdefgh'' 3 7))"
    by (rule smart_calc_correct [OF _ _ c])
      (simp_all only: s, simp_all add: crc_function_def seg_intact_def one_left_def file_range_def file_read_def)
  moreover have "file_range ''abcdefgh'' 3 7 = ''defgh''" by (simp add: file_range_def file_read_def)
  ultimately show ?thesis by simp
qed

theorem verify_success_correct_witness:
  "verify_success (\<lambda>c n. crc_raw c (replicate n (CHR 0x00))) 2 3 (map crc32 [''ab'', [CHR ''c'', CHR 0x00]]) (crc32 ''abc'')"
  using verify_success_correct [of "\<lambda>c n. crc_raw c (replicate n (CHR 0x00))" "[''ab'', [CHR ''c'', CHR 0x00]]" 2 "''abc''"]
  by (simp add: zero_filler_def)

theorem valid_block_covered_witness:
  "\<exists>pre run post. letters_in_threes = pre @ run @ post \<and> run \<noteq> [] \<and> list_all sg_success run \<and>
     chained (sg_offset (hd run)) run \<and> sg_offset (hd run) \<le> 4 \<and> sg_end (last run) \<ge> 7"
proof -
  have "valid_block 4 8 letters_in_threes 1" by (simp add: valid_block_def letters_in_threes_def Let_def)
  from valid_block_covered [OF this] show ?thesis by simp
qed

end
