(* ===== verification/ParBlocks.thy ===== *)
theory ParBlocks
  imports History
begin

text \<open>
  Requesting more recovery blocks (\<open>RequestMorePars\<close> and \<open>FindPars\<close> of \<open>daemon/postprocess/Repair.cpp\<close>):
  which par2 volumes of the queue are unpaused for a repair. A file is its position in the file list of the
  download; \<open>std::sort\<close> is an argument.
\<close>

section \<open>Finding the volumes\<close>

type_synonym par_block = "nat \<times> int"

definition base_matches :: "cstring \<Rightarrow> bool \<Rightarrow> bool \<Rightarrow> cstring \<Rightarrow> file_info \<Rightarrow> bool" where
  "base_matches parFilename strictParName exactParName mainBase fi =
     (if exactParName then same_par_collection (fi_filename fi) (base_file_name parFilename) (fi_filenameConfirmed fi)
      else if strictParName
      then strstr (lower_copy (fi_filename fi)) (mainBase @ ''.par2'') \<noteq> None \<or>
           strstr (lower_copy (fi_filename fi)) (mainBase @ ''.vol'') \<noteq> None
      else True)"

definition find_step ::
    "cstring \<Rightarrow> bool \<Rightarrow> bool \<Rightarrow> cstring \<Rightarrow> file_info list \<Rightarrow> par_block list \<times> int \<Rightarrow> nat \<Rightarrow> par_block list \<times> int" where
  "find_step parFilename strictParName exactParName mainBase fs acc i =
     (case acc of (blocks, blockFound) \<Rightarrow>
        case parse_par_filename (fi_filenameConfirmed (fs ! i)) (fi_filename (fs ! i)) of
          None \<Rightarrow> (blocks, blockFound)
        | Some (_, blockCount) \<Rightarrow>
            if blockCount > 0 \<and> base_matches parFilename strictParName exactParName mainBase (fs ! i) \<and> i \<notin> fst ` set blocks
            then (blocks @ [(i, blockCount)], blockFound + blockCount)
            else (blocks, blockFound))"

definition find_pars :: "nzb_info \<Rightarrow> cstring \<Rightarrow> bool \<Rightarrow> bool \<Rightarrow> par_block list \<Rightarrow> par_block list \<times> int" where
  "find_pars nz parFilename strictParName exactParName blocks =
     (case parse_par_filename True (base_file_name parFilename) of
        None \<Rightarrow> (blocks, 0)
      | Some (mainBaseLen, _) \<Rightarrow>
          foldl (find_step parFilename strictParName exactParName
                  (lower_copy (take mainBaseLen (base_file_name parFilename))) (nz_fileList nz))
            (blocks, 0) [0..<length (nz_fileList nz)])"

text \<open>Volumes of the same collection, then of a collection with the same base name, then any.\<close>

definition available_blocks :: "nzb_info \<Rightarrow> cstring \<Rightarrow> int \<Rightarrow> par_block list \<times> int" where
  "available_blocks nz parFilename blockNeeded =
     (case find_pars nz parFilename True True [] of
        (blocks, found) \<Rightarrow>
          case (if found < blockNeeded
                then case find_pars nz parFilename True False blocks of (blocks, extra) \<Rightarrow> (blocks, found + extra)
                else (blocks, found)) of
            (blocks, found) \<Rightarrow>
              if found < blockNeeded
              then case find_pars nz parFilename False False blocks of (blocks, extra) \<Rightarrow> (blocks, found + extra)
              else (blocks, found))"

section \<open>Choosing among them\<close>

text \<open>The smallest first, until they are enough; then, beginning with the largest, those that are not needed are
  left out again.\<close>

fun collect_blocks :: "int \<Rightarrow> par_block list \<Rightarrow> par_block list \<Rightarrow> int \<times> par_block list" where
  "collect_blocks blockNeeded selected [] = (blockNeeded, selected)"
| "collect_blocks blockNeeded selected (b # bs) =
     (if blockNeeded > 0 then collect_blocks (blockNeeded - snd b) (b # selected) bs else (blockNeeded, selected))"

fun discard_blocks :: "int \<Rightarrow> par_block list \<Rightarrow> int \<times> par_block list" where
  "discard_blocks blockNeeded [] = (blockNeeded, [])"
| "discard_blocks blockNeeded (b # bs) =
     (if blockNeeded + snd b \<le> 0 then discard_blocks (blockNeeded + snd b) bs
      else case discard_blocks blockNeeded bs of (need, kept) \<Rightarrow> (need, b # kept))"

definition unpause_block :: "nzb_info \<Rightarrow> par_block \<Rightarrow> nzb_info" where
  "unpause_block nz b =
     (if fi_paused (nz_fileList nz ! fst b)
      then nz_file_set_extra_priority True (fst b) (nz_file_set_paused False (fst b) nz) else nz)"

text \<open>\<open>RequestMorePars\<close>: the download, the number of blocks found, and whether the par-checker should go on waiting.\<close>

definition request_more_pars :: "par_block sorter \<Rightarrow> nzb_info \<Rightarrow> cstring \<Rightarrow> int \<Rightarrow> nzb_info \<times> int \<times> bool" where
  "request_more_pars srt nz parFilename blockNeeded =
     (case available_blocks nz parFilename blockNeeded of
        (blocks, blockFound) \<Rightarrow>
          let blocks = srt (\<lambda>a b. snd a < snd b) blocks;
              (need, nz) =
                (if blockFound \<ge> blockNeeded
                 then case collect_blocks blockNeeded [] blocks of (need, selected) \<Rightarrow>
                      case discard_blocks need selected of (need, selected) \<Rightarrow> (need, foldl unpause_block nz selected)
                 else (blockNeeded, nz))
          in (nz, blockFound, need \<le> 0 \<or> list_ex (\<lambda>fi. fi_parFile fi \<and> \<not> fi_paused fi) (nz_fileList nz)))"

section \<open>What is unpaused\<close>

definition blocks_of :: "par_block list \<Rightarrow> int" where
  "blocks_of bs = sum_list (map snd bs)"

lemma blocks_of_simps [simp]: "blocks_of [] = 0" "blocks_of (b # bs) = snd b + blocks_of bs" "blocks_of (bs @ cs) = blocks_of bs + blocks_of cs"
  by (simp_all add: blocks_of_def)

lemma collect_blocks_enough:
  assumes "collect_blocks need selected bs = (need', selected')"
  shows "need' + blocks_of selected' = need + blocks_of selected" "mset selected' \<subseteq># mset selected + mset bs"
    "need \<le> blocks_of bs \<Longrightarrow> need' \<le> 0"
  using assms
proof (induction bs arbitrary: need selected)
  case (Cons b bs)
  {
    case 1 then show ?case using Cons.IH(1) [of "need - snd b" "b # selected"] by (auto split: if_splits)
  next
    case 2 then show ?case using Cons.IH(2) [of "need - snd b" "b # selected"] by (auto simp: union_commute split: if_splits)
  next
    case 3 then show ?case using Cons.IH(3) [of "need - snd b" "b # selected"] by (auto split: if_splits)
  }
qed simp_all

lemma discard_blocks_enough:
  assumes "discard_blocks need bs = (need', kept)" "need \<le> 0"
  shows "need' \<le> 0" "need' + blocks_of kept = need + blocks_of bs" "mset kept \<subseteq># mset bs"
  using assms
proof (induction bs arbitrary: need kept)
  case (Cons b bs)
  {
    case 1 then show ?case using Cons.IH(1) by (auto split: if_splits prod.splits)
  next
    case 2 then show ?case using Cons.IH(2) by (fastforce split: if_splits prod.splits)
  next
    case 3
    have up: "mset ks \<subseteq># mset bs \<Longrightarrow> mset ks \<subseteq># add_mset b (mset bs)" for ks
      by (rule subset_mset.order_trans [of _ "mset bs"]) simp_all
    from 3 show ?case using Cons.IH(3) up by (auto split: if_splits prod.splits)
  }
qed simp_all

lemma discard_blocks_minimal:
  assumes "discard_blocks need bs = (need', kept)" "\<forall>b\<in>set bs. 0 < snd b"
  shows "need \<le> need'" "\<forall>b\<in>set kept. 0 < need' + snd b"
  using assms
proof (induction bs arbitrary: need kept)
  case (Cons b bs)
  {
    case 1
    then show ?case
    proof (cases "need + snd b \<le> 0")
      case True
      with 1 Cons.IH(1) [of "need + snd b" kept] show ?thesis by simp
    next
      case False
      with 1 obtain kept1 where "discard_blocks need bs = (need', kept1)" by (auto split: prod.splits)
      with 1 Cons.IH(1) show ?thesis by simp
    qed
  next
    case 2
    then show ?case
    proof (cases "need + snd b \<le> 0")
      case True
      with 2 Cons.IH(2) [of "need + snd b" kept] show ?thesis by simp
    next
      case False
      with 2 obtain kept1 where k: "discard_blocks need bs = (need', kept1)" "kept = b # kept1" by (auto split: prod.splits)
      with 2 Cons.IH [OF k(1)] False show ?thesis by auto
    qed
  }
qed simp_all

lemma find_step_blocks:
  assumes "foldl (find_step pf strict exact base fs) (bs, n) js = (bs', n')"
  shows "n' = n + blocks_of bs' - blocks_of bs"
    "(\<forall>b\<in>set bs. 0 < snd b \<and> fst b < length fs) \<Longrightarrow> set js \<subseteq> {..<length fs} \<Longrightarrow> (\<forall>b\<in>set bs'. 0 < snd b \<and> fst b < length fs)"
    "distinct (map fst bs) \<Longrightarrow> distinct (map fst bs')"
proof -
  have "n' = n + blocks_of bs' - blocks_of bs \<and>
    ((\<forall>b\<in>set bs. 0 < snd b \<and> fst b < length fs) \<longrightarrow> set js \<subseteq> {..<length fs} \<longrightarrow> (\<forall>b\<in>set bs'. 0 < snd b \<and> fst b < length fs)) \<and>
    (distinct (map fst bs) \<longrightarrow> distinct (map fst bs'))"
    using assms
  proof (induction js arbitrary: bs n)
    case (Cons j js)
    obtain bs1 n1 where s: "find_step pf strict exact base fs (bs, n) j = (bs1, n1)" by fastforce
    have c: "(bs1 = bs \<and> n1 = n) \<or> (\<exists>k. k > 0 \<and> bs1 = bs @ [(j, k)] \<and> n1 = n + k \<and> j \<notin> fst ` set bs)"
      using s by (auto simp: find_step_def split: option.splits if_splits)
    have "foldl (find_step pf strict exact base fs) (bs1, n1) js = (bs', n')" using Cons.prems s by simp
    note IH = Cons.IH [OF this]
    from c show ?case
    proof
      assume "bs1 = bs \<and> n1 = n"
      then show ?thesis using IH by simp
    next
      assume "\<exists>k. k > 0 \<and> bs1 = bs @ [(j, k)] \<and> n1 = n + k \<and> j \<notin> fst ` set bs"
      then obtain k where k: "k > 0" "bs1 = bs @ [(j, k)]" "n1 = n + k" "j \<notin> fst ` set bs" by blast
      then have "n' = n + blocks_of bs' - blocks_of bs" "distinct (map fst bs) \<longrightarrow> distinct (map fst bs')" using IH by simp_all
      moreover have "(\<forall>b\<in>set bs. 0 < snd b \<and> fst b < length fs) \<longrightarrow> set (j # js) \<subseteq> {..<length fs} \<longrightarrow>
          (\<forall>b\<in>set bs'. 0 < snd b \<and> fst b < length fs)"
      proof (intro impI)
        assume h: "\<forall>b\<in>set bs. 0 < snd b \<and> fst b < length fs" "set (j # js) \<subseteq> {..<length fs}"
        then have "\<forall>b\<in>set bs1. 0 < snd b \<and> fst b < length fs" "set js \<subseteq> {..<length fs}" using k(1,2) by auto
        with IH show "\<forall>b\<in>set bs'. 0 < snd b \<and> fst b < length fs" by blast
      qed
      ultimately show ?thesis by blast
    qed
  qed simp
  then show "n' = n + blocks_of bs' - blocks_of bs"
    "(\<forall>b\<in>set bs. 0 < snd b \<and> fst b < length fs) \<Longrightarrow> set js \<subseteq> {..<length fs} \<Longrightarrow> (\<forall>b\<in>set bs'. 0 < snd b \<and> fst b < length fs)"
    "distinct (map fst bs) \<Longrightarrow> distinct (map fst bs')" by blast+
qed

text \<open>Every list of volumes found has each file once, with a positive number of blocks, and its blocks are counted.\<close>

definition good_blocks :: "nzb_info \<Rightarrow> par_block list \<Rightarrow> bool" where
  "good_blocks nz bs \<longleftrightarrow> (\<forall>b\<in>set bs. 0 < snd b \<and> fst b < length (nz_fileList nz)) \<and> distinct (map fst bs)"

lemma find_pars_good:
  assumes "find_pars nz pf strict exact bs = (bs', n)" "good_blocks nz bs"
  shows "good_blocks nz bs'" "n = blocks_of bs' - blocks_of bs"
proof -
  have "good_blocks nz bs' \<and> n = blocks_of bs' - blocks_of bs"
  proof (cases "parse_par_filename True (base_file_name pf)")
    case None
    then show ?thesis using assms by (simp add: find_pars_def)
  next
    case (Some r)
    obtain len x where "r = (len, x)" by fastforce
    with Some assms(1) have f: "foldl (find_step pf strict exact (lower_copy (take len (base_file_name pf))) (nz_fileList nz))
        (bs, 0) [0..<length (nz_fileList nz)] = (bs', n)" by (simp add: find_pars_def)
    have "set [0..<length (nz_fileList nz)] \<subseteq> {..<length (nz_fileList nz)}" by auto
    with find_step_blocks [OF f] assms(2) show ?thesis by (simp add: good_blocks_def)
  qed
  then show "good_blocks nz bs'" "n = blocks_of bs' - blocks_of bs" by simp_all
qed

lemma available_blocks_good:
  assumes "available_blocks nz pf need = (bs, n)"
  shows "good_blocks nz bs" "n = blocks_of bs"
proof -
  obtain b1 n1 where f1: "find_pars nz pf True True [] = (b1, n1)" by fastforce
  obtain b2 n2 where f2: "find_pars nz pf True False b1 = (b2, n2)" by fastforce
  obtain c m where e2: "(if n1 < need then (b2, n1 + n2) else (b1, n1)) = (c, m)" by fastforce
  obtain b3 n3 where f3: "find_pars nz pf False False c = (b3, n3)" by fastforce
  have g0: "good_blocks nz []" by (simp add: good_blocks_def)
  note g1 = find_pars_good [OF f1 g0]
  note g2 = find_pars_good [OF f2 g1(1)]
  have gc: "good_blocks nz c" "m = blocks_of c" using e2 g1 g2 by (auto split: if_splits)
  note g3 = find_pars_good [OF f3 gc(1)]
  have "(bs, n) = (if m < need then (b3, m + n3) else (c, m))"
    using assms e2 f3 by (auto simp: available_blocks_def f1 f2 split: if_splits)
  then show "good_blocks nz bs" "n = blocks_of bs" using gc g3 by (auto split: if_splits)
qed

lemma set_flags_files:
  assumes "i < length (nz_fileList nz)"
  shows "nz_fileList (nz_file_set_extra_priority b i nz) = (nz_fileList nz)[i := (nz_fileList nz ! i)\<lparr>fi_extraPriority := b\<rparr>]"
  by (simp add: nz_file_set_extra_priority_def file_set_extra_priority_def)

lemma unpause_block_files:
  assumes "fst b < length (nz_fileList nz)"
  shows "map fi_paused (nz_fileList (unpause_block nz b)) = (map fi_paused (nz_fileList nz))[fst b := False]"
    "length (nz_fileList (unpause_block nz b)) = length (nz_fileList nz)"
  using assms by (simp_all add: unpause_block_def file_set_paused_files set_flags_files map_update list_eq_iff_nth_eq nth_list_update)

lemma unpause_blocks_files:
  assumes "\<forall>b\<in>set bs. fst b < length (nz_fileList nz)"
  shows "length (nz_fileList (foldl unpause_block nz bs)) = length (nz_fileList nz) \<and>
    (\<forall>i<length (nz_fileList nz). fi_paused (nz_fileList (foldl unpause_block nz bs) ! i) =
       (fi_paused (nz_fileList nz ! i) \<and> i \<notin> fst ` set bs))"
  using assms
proof (induction bs arbitrary: nz)
  case (Cons b bs)
  have b: "fst b < length (nz_fileList nz)" using Cons.prems by simp
  note u = unpause_block_files [OF b]
  have p: "fi_paused (nz_fileList (unpause_block nz b) ! i) = (fi_paused (nz_fileList nz ! i) \<and> i \<noteq> fst b)" if "i < length (nz_fileList nz)" for i
  proof -
    have "map fi_paused (nz_fileList (unpause_block nz b)) ! i = (map fi_paused (nz_fileList nz))[fst b := False] ! i" by (simp only: u(1))
    then show ?thesis using that u(2) b by (cases "i = fst b") simp_all
  qed
  from Cons.IH [of "unpause_block nz b"] Cons.prems show ?case by (auto simp: u(2) p)
qed simp

lemma blocks_of_mset: "blocks_of bs = (\<Sum>b\<in>#mset bs. snd b)"
  unfolding blocks_of_def by (induction bs) simp_all

lemma distinct_submset:
  assumes "mset xs \<subseteq># mset ys" "distinct ys"
  shows "distinct xs"
proof -
  have "count (mset xs) a \<le> 1" for a
  proof -
    have "count (mset ys) a \<le> 1" using assms(2) by (simp add: distinct_count_atmost_1)
    then show ?thesis using mset_subset_eq_count [OF assms(1), of a] by linarith
  qed
  then have "count (mset xs) a = (if a \<in> set xs then 1 else 0)" for a
    using count_greater_zero_iff [of "mset xs" a] by (cases "a \<in> set xs") (auto simp: le_Suc_eq not_in_iff)
  then show ?thesis by (simp add: distinct_count_atmost_1)
qed

text \<open>C34: When there are enough recovery blocks, volumes of the queue with enough blocks are unpaused, none of which
  could be left out; the other files stay as they are.\<close>

theorem request_more_pars_correct:
  assumes "\<forall>xs. mset (srt (\<lambda>a b. snd a < snd b) xs) = mset xs" "0 < blockNeeded"
    and "request_more_pars srt nz parFilename blockNeeded = (nz', blockFound, ok)" "blockNeeded \<le> blockFound"
  shows "ok \<and> (\<exists>volumes. set volumes \<subseteq> set (fst (available_blocks nz parFilename blockNeeded)) \<and> distinct (map fst volumes) \<and>
    blockNeeded \<le> blocks_of volumes \<and> list_all (\<lambda>v. blocks_of volumes - snd v < blockNeeded) volumes \<and>
    map fi_paused (nz_fileList nz') =
      map (\<lambda>i. fi_paused (nz_fileList nz ! i) \<and> i \<notin> fst ` set volumes) [0..<length (nz_fileList nz)])"
proof -
  obtain bs n where a: "available_blocks nz parFilename blockNeeded = (bs, n)" by fastforce
  note good = available_blocks_good [OF a]
  let ?bs = "srt (\<lambda>a b. snd a < snd b) bs"
  obtain need1 sel where c: "collect_blocks blockNeeded [] ?bs = (need1, sel)" by fastforce
  obtain need2 kept where d: "discard_blocks need1 sel = (need2, kept)" by fastforce
  have m: "mset ?bs = mset bs" using assms(1) by simp
  have sum: "blocks_of ?bs = blocks_of bs" by (simp add: blocks_of_mset m)
  have nf: "n = blockFound" "ok = (need2 \<le> 0 \<or> list_ex (\<lambda>fi. fi_parFile fi \<and> \<not> fi_paused fi) (nz_fileList nz'))" "nz' = foldl unpause_block nz kept"
    using assms(3,4) by (auto simp: request_more_pars_def a c d Let_def split: if_splits)
  note c1 = collect_blocks_enough [OF c]
  have n1: "need1 \<le> 0" using c1(3) sum good(2) nf(1) assms(4) by simp
  note d1 = discard_blocks_enough [OF d n1]
  have sub: "mset kept \<subseteq># mset bs" using d1(3) c1(2) m by (auto intro: subset_mset.order_trans)
  have inset: "set kept \<subseteq> set bs" using sub by (metis set_mset_mset set_mset_mono)
  have "set sel \<subseteq> set bs" using set_mset_mono [OF c1(2)] m by (metis add_0 mset.simps(1) set_mset_mset)
  then have pos: "\<forall>b\<in>set sel. 0 < snd b" using good(1) by (auto simp: good_blocks_def)
  have dist: "distinct (map fst kept)"
  proof -
    have "image_mset fst (mset kept) \<subseteq># image_mset fst (mset bs)" using sub by (rule image_mset_subseteq_mono)
    then have "mset (map fst kept) \<subseteq># mset (map fst bs)" by simp
    moreover have "distinct (map fst bs)" using good(1) by (simp add: good_blocks_def)
    ultimately show ?thesis by (rule distinct_submset)
  qed
  have eq: "need2 + blocks_of kept = blockNeeded" using d1(2) c1(1) by simp
  have enough: "blockNeeded \<le> blocks_of kept" using eq d1(1) by linarith
  have min: "list_all (\<lambda>v. blocks_of kept - snd v < blockNeeded) kept"
    using discard_blocks_minimal(2) [OF d pos] eq by (fastforce simp: list_all_iff)
  have idx: "\<forall>b\<in>set kept. fst b < length (nz_fileList nz)" using inset good(1) by (auto simp: good_blocks_def)
  have flags: "map fi_paused (nz_fileList nz') =
      map (\<lambda>i. fi_paused (nz_fileList nz ! i) \<and> i \<notin> fst ` set kept) [0..<length (nz_fileList nz)]"
    using unpause_blocks_files [OF idx] by (intro nth_equalityI) (simp_all add: nf(3))
  have "ok" using nf(2) d1(1) by simp
  then show ?thesis using inset dist enough min flags by (intro conjI exI [of _ kept]) (simp_all add: a)
qed

section \<open>Example\<close>

definition paused_volume :: "cstring \<Rightarrow> file_info" where
  "paused_volume name = file_init\<lparr>fi_filename := name, fi_filenameConfirmed := True, fi_parFile := True, fi_paused := True\<rparr>"

definition three_volumes :: nzb_info where
  "three_volumes = nzb_init\<lparr>nz_fileList := map paused_volume [''a.vol00+01.par2'', ''a.vol01+02.par2'', ''a.vol03+04.par2'']\<rparr>"

theorem request_more_pars_correct_witness:
  "\<exists>nz' n volumes. request_more_pars (\<lambda>_ xs. xs) three_volumes ''/x/a.par2'' 2 = (nz', n, True) \<and>
     2 \<le> blocks_of volumes \<and> list_all (\<lambda>v. blocks_of volumes - snd v < 2) volumes \<and>
     map fi_paused (nz_fileList nz') =
       map (\<lambda>i. fi_paused (nz_fileList three_volumes ! i) \<and> i \<notin> fst ` set volumes) [0..<length (nz_fileList three_volumes)]"
proof -
  let ?r = "request_more_pars (\<lambda>_ xs. xs) three_volumes ''/x/a.par2'' 2"
  obtain nz' n ok where r: "?r = (nz', n, ok)" by (metis prod.collapse)
  have "2 \<le> fst (snd ?r)" by code_simp
  then have "2 \<le> n" by (simp add: r)
  from request_more_pars_correct [OF _ _ r this] show ?thesis using r by auto
qed

end
