(* ===== verification/Dates.thy ===== *)
theory Dates
  imports Prelude "HOL-Library.Monad_Syntax"
begin

text \<open>
  Dates: \<open>Util::Timegm\<close> counts the seconds since 1970, and \<open>WebUtil::ParseRfc822DateTime\<close> reads the dates of feeds
  (\<open>daemon/util/Util.cpp\<close>). C divides towards zero; the years are positive, so \<open>div\<close> is the same.
\<close>

section \<open>Counting days\<close>

definition is_leap :: "int \<Rightarrow> bool" where
  "is_leap year \<longleftrightarrow> (if year mod 400 = 0 then True else if year mod 100 = 0 then False else year mod 4 = 0)"

definition days_from_0 :: "int \<Rightarrow> int" where
  "days_from_0 year = (let year = year - 1 in 365 * year + year div 400 - year div 100 + year div 4)"

definition days_from_1970 :: "int \<Rightarrow> int" where
  "days_from_1970 year = days_from_0 year - 719162"

definition days_before_month :: "bool \<Rightarrow> int list" where
  "days_before_month leap =
     (if leap then [0, 31, 60, 91, 121, 152, 182, 213, 244, 274, 305, 335]
      else [0, 31, 59, 90, 120, 151, 181, 212, 243, 273, 304, 334])"

definition days_from_1jan :: "int \<Rightarrow> int \<Rightarrow> int \<Rightarrow> int" where
  "days_from_1jan year month day = days_before_month (is_leap year) ! nat (month - 1) + day - 1"

record tm =
  tm_year :: int
  tm_mon :: int
  tm_mday :: int
  tm_hour :: int
  tm_min :: int
  tm_sec :: int

definition timegm :: "tm \<Rightarrow> int" where
  "timegm t =
     (let year = tm_year t + 1900;
          (year, month) =
            (if tm_mon t > 11 then (year + tm_mon t div 12, tm_mon t mod 12)
             else if tm_mon t < 0
             then (let d = (- tm_mon t + 11) div 12 in (year - d, tm_mon t + 12 * d))
             else (year, tm_mon t));
          days = days_from_1970 year + days_from_1jan year (month + 1) (tm_mday t)
      in 3600 * 24 * days + 3600 * tm_hour t + 60 * tm_min t + tm_sec t)"

text \<open>The reference: the calendar, a day at a time.\<close>

definition month_length :: "int \<Rightarrow> int \<Rightarrow> int" where
  "month_length year month =
     (if month = 2 then if (4 dvd year \<and> \<not> 100 dvd year) \<or> 400 dvd year then 29 else 28
      else if month \<in> {4, 6, 9, 11} then 30 else 31)"

fun next_date :: "int \<times> int \<times> int \<Rightarrow> int \<times> int \<times> int" where
  "next_date (y, m, d) =
     (if d < month_length y m then (y, m, d + 1)
      else if m < 12 then (y, m + 1, 1) else (y + 1, 1, 1))"

fun valid_date :: "int \<times> int \<times> int \<Rightarrow> bool" where
  "valid_date (y, m, d) \<longleftrightarrow> 1 \<le> y \<and> 1 \<le> m \<and> m \<le> 12 \<and> 1 \<le> d \<and> d \<le> month_length y m"

fun date_tm :: "int \<times> int \<times> int \<Rightarrow> int \<Rightarrow> tm" where
  "date_tm (y, m, d) secs =
     \<lparr>tm_year = y - 1900, tm_mon = m - 1, tm_mday = d, tm_hour = secs div 3600, tm_min = secs div 60 mod 60,
      tm_sec = secs mod 60\<rparr>"

fun date_days :: "int \<times> int \<times> int \<Rightarrow> int" where
  "date_days (y, m, d) = days_from_1970 y + days_from_1jan y m d"

lemma is_leap_dvd: "is_leap y \<longleftrightarrow> (4 dvd y \<and> \<not> 100 dvd y) \<or> 400 dvd y"
proof -
  have "400 dvd y \<Longrightarrow> 4 dvd y" "400 dvd y \<Longrightarrow> 100 dvd y" by (rule dvd_trans [rotated], assumption, simp)+
  then show ?thesis by (auto simp: is_leap_def dvd_eq_mod_eq_0)
qed

lemma next_month_days:
  assumes "1 \<le> m" and "m < 12"
  shows "days_from_1jan y (m + 1) 1 = days_from_1jan y m (month_length y m) + 1"
proof -
  have "m = 1 \<or> m = 2 \<or> m = 3 \<or> m = 4 \<or> m = 5 \<or> m = 6 \<or> m = 7 \<or> m = 8 \<or> m = 9 \<or> m = 10 \<or> m = 11"
    using assms by presburger
  then show ?thesis
    by (elim disjE) (simp_all add: days_from_1jan_def days_before_month_def month_length_def is_leap_dvd)
qed

lemma next_year_days:
  assumes "1 \<le> y"
  shows "days_from_1970 (y + 1) + days_from_1jan (y + 1) 1 1 = days_from_1970 y + days_from_1jan y 12 31 + 1"
proof -
  have d: "y div n - (y - 1) div n = (if n dvd y then 1 else 0)" if "0 < n" for n :: int
  proof (cases "n dvd y")
    case True
    then obtain k where "y = n * k" by (rule dvdE)
    moreover have "(n * k - 1) div n = k - 1"
      using int_div_pos_eq [of "n * k - 1" n "k - 1" "n - 1"] that by (simp add: right_diff_distrib')
    ultimately show ?thesis using that by simp
  next
    case False
    then have "y mod n \<noteq> 0" by (simp add: dvd_eq_mod_eq_0)
    have "y - 1 = n * (y div n) + (y mod n - 1)" by simp
    moreover have "0 \<le> y mod n - 1" "y mod n - 1 < n" using \<open>y mod n \<noteq> 0\<close> that pos_mod_sign [of n y] pos_mod_bound [of n y]
      by linarith+
    ultimately have "(y - 1) div n = y div n" by (metis int_div_pos_eq)
    then show ?thesis using False by simp
  qed
  have "days_from_0 (y + 1) = days_from_0 y + 365 + (y div 400 - (y - 1) div 400) - (y div 100 - (y - 1) div 100) +
      (y div 4 - (y - 1) div 4)"
    by (simp add: days_from_0_def Let_def)
  then have "days_from_0 (y + 1) = days_from_0 y + (if is_leap y then 366 else 365)"
    using d [of 400] d [of 100] d [of 4] dvd_trans [of 100 400 y] dvd_trans [of 4 400 y] dvd_trans [of 4 100 y]
    by (auto simp: is_leap_dvd split: if_splits)
  then show ?thesis by (simp add: days_from_1970_def days_from_1jan_def days_before_month_def)
qed

lemma date_days_next:
  assumes "valid_date x"
  shows "date_days (next_date x) = date_days x + 1" "valid_date (next_date x)"
proof -
  obtain y m d where x: "x = (y, m, d)" by (metis prod_cases3)
  have v: "1 \<le> y" "1 \<le> m" "m \<le> 12" "1 \<le> d" "d \<le> month_length y m" using assms x by auto
  have l: "1 \<le> month_length y' m'" for y' m' by (simp add: month_length_def)
  consider "d < month_length y m" | "d = month_length y m" "m < 12" | "d = month_length y m" "m = 12" using v by linarith
  then show "date_days (next_date x) = date_days x + 1"
  proof cases
    case 1
    then show ?thesis by (simp add: x days_from_1jan_def)
  next
    case 2
    then show ?thesis using next_month_days [of m y] v by (simp add: x)
  next
    case 3
    then have "d = 31" by (simp add: month_length_def)
    then show ?thesis using next_year_days [of y] v 3 by (simp add: x)
  qed
  show "valid_date (next_date x)" using v l by (auto simp: x)
qed

lemma timegm_date: "1 \<le> m \<Longrightarrow> m \<le> 12 \<Longrightarrow> timegm (date_tm (y, m, d) secs) = 86400 * date_days (y, m, d) + secs"
proof -
  assume "1 \<le> m" "m \<le> 12"
  moreover have "3600 * (secs div 3600) + 60 * (secs div 60 mod 60) + secs mod 60 = secs"
  proof -
    define q where "q = secs div 60"
    have "secs = 60 * q + secs mod 60" "q = 60 * (q div 60) + q mod 60" by (simp_all add: q_def)
    moreover have "secs div 3600 = q div 60" using zdiv_zmult2_eq [of 60 secs 60] by (simp add: q_def)
    ultimately show ?thesis unfolding q_def [symmetric] by linarith
  qed
  ultimately show ?thesis by (simp add: timegm_def)
qed

text \<open>C25: The seconds of the day that comes n days after the first of January 1970 are 86400 n and those of the time
  of day: the closed formula counts every month, leap year and century as the calendar does.\<close>

theorem timegm_counts_days: "timegm (date_tm ((next_date ^^ n) (1970, 1, 1)) secs) = 86400 * int n + secs"
proof -
  have *: "valid_date ((next_date ^^ n) (1970, 1, 1)) \<and> date_days ((next_date ^^ n) (1970, 1, 1)) = int n"
  proof (induction n)
    case 0
    show ?case
      by (simp add: days_from_1970_def days_from_0_def days_from_1jan_def days_before_month_def month_length_def)
  next
    case (Suc n)
    then show ?case using date_days_next [of "(next_date ^^ n) (1970, 1, 1)"] by simp
  qed
  obtain y m d where e: "(next_date ^^ n) (1970, 1, 1) = (y, m, d)" by (metis prod_cases3)
  show ?thesis using * timegm_date [of m y d secs] unfolding e by simp
qed

section \<open>Dates of feeds\<close>

text \<open>The conversions of \<open>sscanf\<close>: \<open>%d\<close> with or without a width, \<open>%s\<close> with a width, \<open>%*s\<close>, and a character.\<close>

definition scan_int :: "nat option \<Rightarrow> cstring \<Rightarrow> (int \<times> cstring) option" where
  "scan_int width s =
     (let t = dropWhile is_space s;
          t1 = (case width of Some n \<Rightarrow> take n t | None \<Rightarrow> t);
          signed = (peek t1 = CHR ''-'' \<or> peek t1 = CHR ''+'');
          ds = takeWhile is_digit (if signed then tl t1 else t1)
      in if ds = [] then None
         else Some (if peek t1 = CHR ''-'' then - int (digits_val ds) else int (digits_val ds),
                    drop (length ds + (if signed then 1 else 0)) t))"

definition scan_word :: "nat \<Rightarrow> cstring \<Rightarrow> (cstring \<times> cstring) option" where
  "scan_word n s =
     (let t = dropWhile is_space s; w = takeWhile (\<lambda>c. \<not> is_space c) (take n t)
      in if w = [] then None else Some (w, drop (length w) t))"

definition skip_word :: "cstring \<Rightarrow> cstring option" where
  "skip_word s =
     (let t = dropWhile is_space s in if t = [] then None else Some (dropWhile (\<lambda>c. \<not> is_space c) t))"

definition scan_char :: "char \<Rightarrow> cstring \<Rightarrow> cstring option" where
  "scan_char c s = (case s of d # t \<Rightarrow> if d = c then Some t else None | [] \<Rightarrow> None)"

definition month_names :: "cstring list" where
  "month_names = [''Jan'', ''Feb'', ''Mar'', ''Apr'', ''May'', ''Jun'', ''Jul'', ''Aug'', ''Sep'', ''Oct'', ''Nov'', ''Dec'']"

fun month_number :: "cstring list \<Rightarrow> cstring \<Rightarrow> int \<Rightarrow> int" where
  "month_number [] s n = 0"
| "month_number (m # ms) s n = (if strcase_eq s m then n else month_number ms s (n + 1))"

definition scan_date :: "cstring \<Rightarrow> (tm \<times> int \<times> int) option" where
  "scan_date s =
     do {
       s \<leftarrow> skip_word s;
       (day, s) \<leftarrow> scan_int None s;
       (month, s) \<leftarrow> scan_word 3 s;
       (year, s) \<leftarrow> scan_int None s;
       (hours, s) \<leftarrow> scan_int None s;
       s \<leftarrow> scan_char (CHR '':'') s;
       (minutes, s) \<leftarrow> scan_int None s;
       s \<leftarrow> scan_char (CHR '':'') s;
       (seconds, s) \<leftarrow> scan_int None s;
       (zonehours, s) \<leftarrow> scan_int (Some 3) s;
       (zoneminutes, s) \<leftarrow> scan_int (Some 2) s;
       Some (\<lparr>tm_year = year - 1900, tm_mon = month_number month_names month 0, tm_mday = day, tm_hour = hours,
              tm_min = minutes, tm_sec = seconds\<rparr>, zonehours, zoneminutes)
     }"

definition parse_rfc822 :: "cstring \<Rightarrow> int" where
  "parse_rfc822 s =
     (case scan_date s of
        None \<Rightarrow> 0
      | Some (t, zh, zm) \<Rightarrow> timegm t - (zh * 60 + (if zh > 0 then zm else - zm)) * 60)"


text \<open>Reading back a printed date. The zone is given by its sign, hours and minutes.\<close>

definition two_digit_text :: "nat \<Rightarrow> cstring" where
  "two_digit_text n = [chr (48 + n div 10), chr (48 + n mod 10)]"

definition zone_text :: "bool \<Rightarrow> nat \<Rightarrow> nat \<Rightarrow> cstring" where
  "zone_text west zh zm = (if west then CHR ''-'' else CHR ''+'') # two_digit_text zh @ two_digit_text zm"

fun rfc822_text :: "cstring \<Rightarrow> int \<times> int \<times> int \<Rightarrow> nat \<Rightarrow> nat \<Rightarrow> nat \<Rightarrow> cstring \<Rightarrow> cstring" where
  "rfc822_text wday (y, m, d) hh mi ss zone =
     wday @ '' '' @ to_dec (nat d) @ '' '' @ month_names ! nat (m - 1) @ '' '' @ to_dec (nat y) @ '' '' @
     two_digit_text hh @ '':'' @ two_digit_text mi @ '':'' @ two_digit_text ss @ '' '' @ zone"

lemma two_digit_text:
  assumes "n < 100"
  shows "\<forall>c\<in>set (two_digit_text n). is_digit c" "digits_val (two_digit_text n) = n" "length (two_digit_text n) = 2"
  using assms by (auto simp: two_digit_text_def digits_val_def digit_val_def is_digit_def)

lemma digits_not_space: "\<forall>c\<in>set ds. is_digit c \<Longrightarrow> ds \<noteq> [] \<Longrightarrow> dropWhile is_space (ds @ r) = ds @ r"
  using not_space_digit by (cases ds) auto

lemma digits_no_sign: "\<forall>c\<in>set ds. is_digit c \<Longrightarrow> ds \<noteq> [] \<Longrightarrow> peek (ds @ r) \<noteq> CHR ''-'' \<and> peek (ds @ r) \<noteq> CHR ''+''"
  by (cases ds) auto

lemma takeWhile_digits: "\<forall>c\<in>set ds. is_digit c \<Longrightarrow> \<not> is_digit (peek r) \<Longrightarrow> takeWhile is_digit (ds @ r) = ds"
  by (cases r) (auto simp: takeWhile_append)

lemma scan_int_digits:
  assumes "\<forall>c\<in>set ds. is_digit c" "ds \<noteq> []" "\<not> is_digit (peek r)"
  shows "scan_int None (ds @ r) = Some (int (digits_val ds), r)"
    "scan_int None (CHR '' '' # ds @ r) = Some (int (digits_val ds), r)"
proof -
  have t: "takeWhile is_digit (ds @ r) = ds" using assms takeWhile_digits by blast
  show "scan_int None (ds @ r) = Some (int (digits_val ds), r)"
    using assms digits_not_space digits_no_sign t by (simp add: scan_int_def Let_def)
  then show "scan_int None (CHR '' '' # ds @ r) = Some (int (digits_val ds), r)"
    by (simp add: scan_int_def is_space_def byte_def)
qed

lemma month_name_read:
  assumes "1 \<le> m" and "m \<le> 12"
  shows "month_number month_names (month_names ! nat (m - 1)) 0 = m - 1" "length (month_names ! nat (m - 1)) = 3"
    "\<forall>c\<in>set (month_names ! nat (m - 1)). \<not> is_space c"
proof -
  have "m = 1 \<or> m = 2 \<or> m = 3 \<or> m = 4 \<or> m = 5 \<or> m = 6 \<or> m = 7 \<or> m = 8 \<or> m = 9 \<or> m = 10 \<or> m = 11 \<or> m = 12"
    using assms by presburger
  then show "month_number month_names (month_names ! nat (m - 1)) 0 = m - 1" "length (month_names ! nat (m - 1)) = 3"
    "\<forall>c\<in>set (month_names ! nat (m - 1)). \<not> is_space c"
    by (elim disjE; simp add: month_names_def strcase_eq_def to_lower_def is_upper_def is_space_def byte_def chr_def)+
qed

lemma scan_word_month:
  assumes "length w = 3" and "\<forall>c\<in>set w. \<not> is_space c"
  shows "scan_word 3 (CHR '' '' # w @ r) = Some (w, r)"
proof -
  have s: "is_space (CHR '' '')" by (simp add: is_space_def byte_def)
  have "dropWhile is_space (w @ r) = w @ r" "w \<noteq> []" using assms by (cases w; simp)+
  moreover have "takeWhile (\<lambda>c. \<not> is_space c) w = w" using assms(2) by (simp only: takeWhile_eq_all_conv)
  ultimately show ?thesis using assms s by (simp add: scan_word_def Let_def del: takeWhile_eq_all_conv)
qed

lemma scan_zone:
  assumes "zh < 100" and "zm < 100"
  shows "scan_int (Some 3) (CHR '' '' # zone_text west zh zm) = Some (if west then - int zh else int zh, two_digit_text zm)"
    "scan_int (Some 2) (two_digit_text zm) = Some (int zm, [])"
proof -
  have s: "is_space (CHR '' '')" "\<not> is_space (CHR ''-'')" "\<not> is_space (CHR ''+'')" by (simp_all add: is_space_def byte_def)
  note h = two_digit_text [OF assms(1)] and m = two_digit_text [OF assms(2)]
  have t: "takeWhile is_digit (two_digit_text zh) = two_digit_text zh" using h(1) by simp
  have n: "two_digit_text zh \<noteq> []" "two_digit_text zm \<noteq> []" by (simp_all add: two_digit_text_def)
  show "scan_int (Some 3) (CHR '' '' # zone_text west zh zm) = Some (if west then - int zh else int zh, two_digit_text zm)"
    using s t n h by (simp add: scan_int_def zone_text_def Let_def del: takeWhile_eq_all_conv)
  have "takeWhile is_digit (two_digit_text zm) = two_digit_text zm" using m(1) by simp
  then show "scan_int (Some 2) (two_digit_text zm) = Some (int zm, [])"
    using n m digits_not_space [OF m(1), of "[]"] digits_no_sign [OF m(1), of "[]"]
    by (simp add: scan_int_def Let_def del: takeWhile_eq_all_conv)
qed

text \<open>C27: A date printed in the usual form is read as its second, in its time zone; so two texts of the same moment
  give the same time. The zones with a positive difference below one hour are the exception.\<close>

theorem parse_rfc822_text:
  assumes "valid_date (y, m, d)" and "hh < 24" and "mi < 60" and "ss < 60" and "zh < 24" and "zm < 60"
    and "wday \<noteq> []" and "\<forall>c\<in>set wday. \<not> is_space c" and "west \<or> zh > 0 \<or> zm = 0"
  shows "parse_rfc822 (rfc822_text wday (y, m, d) hh mi ss (zone_text west zh zm)) =
    86400 * date_days (y, m, d) + int (3600 * hh + 60 * mi + ss) - (if west then -1 else 1) * int (3600 * zh + 60 * zm)"
proof -
  have v: "1 \<le> y" "1 \<le> m" "m \<le> 12" "1 \<le> d" using assms(1) by auto
  note mn = month_name_read [OF v(2,3)]
  have sp: "is_space (CHR '' '')" "\<not> is_digit (CHR '' '')" "\<not> is_digit (CHR '':'')"
    by (simp_all add: is_space_def byte_def)
  define r6 where "r6 = CHR '' '' # zone_text west zh zm"
  define r5 where "r5 = two_digit_text ss @ r6"
  define r4 where "r4 = two_digit_text mi @ CHR '':'' # r5"
  define r3 where "r3 = CHR '' '' # two_digit_text hh @ CHR '':'' # r4"
  define r2 where "r2 = CHR '' '' # to_dec (nat y) @ r3"
  define r1 where "r1 = CHR '' '' # month_names ! nat (m - 1) @ r2"
  have printed: "rfc822_text wday (y, m, d) hh mi ss (zone_text west zh zm) = wday @ CHR '' '' # to_dec (nat d) @ r1"
    by (simp add: r1_def r2_def r3_def r4_def r5_def r6_def)
  have w: "skip_word (wday @ CHR '' '' # to_dec (nat d) @ r1) = Some (CHR '' '' # to_dec (nat d) @ r1)"
  proof -
    have "dropWhile is_space (wday @ u) = wday @ u" for u using assms(7,8) by (cases wday) auto
    moreover have "dropWhile (\<lambda>c. \<not> is_space c) (wday @ CHR '' '' # u) = CHR '' '' # u" for u
      using assms(8) sp(1) by (simp add: dropWhile_append3)
    ultimately show ?thesis by (simp add: skip_word_def Let_def)
  qed
  have dec: "\<forall>c\<in>set (to_dec n). is_digit c" for n using to_dec_digits by blast
  have nd: "\<not> is_digit (peek r1)" "\<not> is_digit (peek r3)" "\<not> is_digit (peek r6)"
    using sp by (simp_all add: r1_def r3_def r6_def)
  have a1: "scan_int None (CHR '' '' # to_dec (nat d) @ r1) = Some (d, r1)"
    using scan_int_digits(2) [OF dec _ nd(1), of "nat d"] v by simp
  have a2: "scan_word 3 r1 = Some (month_names ! nat (m - 1), r2)"
    unfolding r1_def by (rule scan_word_month [OF mn(2,3)])
  have a3: "scan_int None r2 = Some (y, r3)"
    using scan_int_digits(2) [OF dec _ nd(2), of "nat y"] v by (simp add: r2_def)
  have two: "scan_int None (two_digit_text n @ CHR '':'' # r) = Some (int n, CHR '':'' # r)"
    "scan_int None (CHR '' '' # two_digit_text n @ CHR '':'' # r) = Some (int n, CHR '':'' # r)"
    "scan_int None (two_digit_text n @ r6) = Some (int n, r6)" if "n < 100" for n r
    using two_digit_text [OF that] scan_int_digits [of "two_digit_text n" "CHR '':'' # r"]
      scan_int_digits [of "two_digit_text n" r6] nd sp by (auto simp: two_digit_text_def)
  have a4: "scan_int None r3 = Some (int hh, CHR '':'' # r4)" "scan_int None r4 = Some (int mi, CHR '':'' # r5)"
    "scan_int None r5 = Some (int ss, r6)"
    unfolding r3_def r4_def r5_def using assms two by auto
  have a5: "scan_int (Some 3) r6 = Some (if west then - int zh else int zh, two_digit_text zm)"
    "scan_int (Some 2) (two_digit_text zm) = Some (int zm, [])"
    unfolding r6_def using scan_zone(1) [of zh zm west] scan_zone(2) [of zh zm] assms(5,6) by simp_all
  define t where "t = \<lparr>tm_year = y - 1900, tm_mon = m - 1, tm_mday = d, tm_hour = int hh, tm_min = int mi, tm_sec = int ss\<rparr>"
  have "scan_date (wday @ CHR '' '' # to_dec (nat d) @ r1) = Some (t, if west then - int zh else int zh, int zm)"
    using w a1 a2 a3 a4 a5 mn(1) by (simp add: scan_date_def scan_char_def t_def)
  moreover have "timegm t = 86400 * date_days (y, m, d) + int (3600 * hh + 60 * mi + ss)"
    using v by (simp add: timegm_def t_def)
  ultimately show ?thesis using assms(9) unfolding printed
    by (auto simp: parse_rfc822_def algebra_simps)
qed

theorem parse_rfc822_text_witness:
  "parse_rfc822 (rfc822_text ''Wed,'' (2013, 6, 26) 1 2 54 (zone_text True 6 0)) = 1372230174"
  using parse_rfc822_text [of 2013 6 26 1 2 54 6 0 "''Wed,''" True]
  by (simp add: month_length_def is_space_def byte_def days_from_1970_def days_from_0_def days_from_1jan_def
      days_before_month_def is_leap_def)

text \<open>In a zone half an hour east the minutes are added instead of subtracted.\<close>

lemma half_hour_zone:
  "parse_rfc822 ''Wed, 1 Jan 2020 00:30:00 +0030'' = parse_rfc822 ''Wed, 1 Jan 2020 01:00:00 +0000''"
  by code_simp

end
