(* ===== verification/FeedExpr.thy ===== *)
theory FeedExpr
  imports TextUtil
begin

text \<open>
  The expressions of the feed filter (\<open>daemon/feed/FeedFilter.cpp\<close>): a rule is a text over T, F, the bar and
  braces, which \<open>MatchExpression\<close> shortens by replacing pieces until its length no longer changes.
\<close>

section \<open>Replacing pieces\<close>

text \<open>\<open>Util::ReduceStr\<close>: the first occurrence is replaced as long as there is one. The loop ends when the
  replacement is shorter, as the comment in the code demands.\<close>

partial_function (option) reduce_str :: "cstring \<Rightarrow> cstring \<Rightarrow> cstring \<Rightarrow> cstring option" where
  "reduce_str what to s =
     (case strstr s what of
        None \<Rightarrow> Some s
      | Some p \<Rightarrow> reduce_str what to (take (length s - length p) s @ to @ drop (length what) p))"

declare reduce_str.simps [code]

lemma strstr_NoneD: "strstr s p = None \<Longrightarrow> s \<noteq> u @ p @ v"
proof (induction s arbitrary: u)
  case (Cons c s)
  then show ?case by (cases u) (auto split: if_splits)
qed (auto split: if_splits)

lemma reduce_str_step:
  assumes "strstr s what = Some p"
  obtains u v where "s = u @ what @ v"
    and "take (length s - length p) s @ to @ drop (length what) p = u @ to @ v"
proof -
  obtain u where u: "s = u @ p" "starts_with what p" using strstr_SomeD [OF assms] by blast
  have "p = what @ drop (length what) p" using u(2) unfolding starts_with_def by (metis append_take_drop_id)
  then show ?thesis using that [of u "drop (length what) p"] u(1) by (metis append_eq_conv_conj length_append
    add_diff_cancel_right')
qed

text \<open>The single replacements of a list of rules.\<close>

definition rewr :: "(cstring \<times> cstring) list \<Rightarrow> (cstring \<times> cstring) set" where
  "rewr rs = {(u @ what @ v, u @ to @ v) | u v what to. (what, to) \<in> set rs}"

lemma rewr_mono: "set rs \<subseteq> set rs' \<Longrightarrow> rewr rs \<subseteq> rewr rs'"
  by (force simp: rewr_def)

text \<open>The result is reached by replacements and has the length of the text only when nothing was replaced.\<close>

lemma reduce_str_result:
  assumes "length to < length what"
  shows "\<exists>r. reduce_str what to s = Some r \<and> length r \<le> length s \<and> strstr r what = None \<and>
           (length r = length s \<longrightarrow> r = s) \<and> (s, r) \<in> (rewr [(what, to)])\<^sup>*"
proof (induction s rule: length_induct)
  case (1 s)
  show ?case
  proof (cases "strstr s what")
    case None
    then show ?thesis by (simp add: reduce_str.simps)
  next
    case (Some p)
    obtain u v where s: "s = u @ what @ v"
      and t: "take (length s - length p) s @ to @ drop (length what) p = u @ to @ v"
      by (rule reduce_str_step [OF Some])
    have l: "length (u @ to @ v) < length s" using assms s by simp
    have e: "reduce_str what to s = reduce_str what to (u @ to @ v)"
      using Some t by (simp add: reduce_str.simps [of what to s])
    have w: "(s, u @ to @ v) \<in> rewr [(what, to)]" unfolding s rewr_def by auto
    obtain r where r: "reduce_str what to (u @ to @ v) = Some r" "length r \<le> length (u @ to @ v)"
      "strstr r what = None" "(u @ to @ v, r) \<in> (rewr [(what, to)])\<^sup>*"
      using "1.IH" l by blast
    have "(s, r) \<in> (rewr [(what, to)])\<^sup>*" using w r(4) by (rule converse_rtrancl_into_rtrancl)
    moreover have "length r < length s" using r(2) l by simp
    ultimately show ?thesis using e r by simp
  qed
qed


section \<open>The expression of a rule\<close>

definition expr_rules :: "(cstring \<times> cstring) list" where
  "expr_rules =
     [(''TT'', ''T''), (''TF'', ''F''), (''FT'', ''F''), (''FF'', ''F''), (''||'', ''|''), (''(|'', ''(''),
      (''|)'', '')''), (''T|T'', ''T''), (''T|F'', ''T''), (''F|T'', ''T''), (''F|F'', ''F''), (''(T)'', ''T''),
      (''(F)'', ''F'')]"

text \<open>One round of the loop of \<open>Rule::MatchExpression\<close>, and the loop.\<close>

fun reduce_all :: "(cstring \<times> cstring) list \<Rightarrow> cstring \<Rightarrow> cstring option" where
  "reduce_all [] s = Some s"
| "reduce_all ((what, to) # rs) s = Option.bind (reduce_str what to s) (reduce_all rs)"

partial_function (option) reduce_loop :: "nat \<Rightarrow> cstring \<Rightarrow> cstring option" where
  "reduce_loop old s =
     (if length s = old then Some s else Option.bind (reduce_all expr_rules s) (reduce_loop (length s)))"

declare reduce_loop.simps [code]

definition match_expression :: "cstring \<Rightarrow> bool option" where
  "match_expression expr = map_option (\<lambda>s. s = ''T'') (reduce_loop 0 expr)"

lemma expr_rules_shorten: "\<forall>(what, to)\<in>set expr_rules. length to < length what"
  by (simp add: expr_rules_def)

lemma reduce_all_result:
  assumes "\<forall>(what, to)\<in>set rs. length to < length what"
  shows "\<exists>r. reduce_all rs s = Some r \<and> length r \<le> length s \<and>
           (length r = length s \<longrightarrow> r = s \<and> (\<forall>(what, to)\<in>set rs. strstr r what = None)) \<and>
           (s, r) \<in> (rewr rs)\<^sup>*"
  using assms
proof (induction rs arbitrary: s)
  case (Cons a rs)
  obtain what to where a: "a = (what, to)" by fastforce
  obtain t where t: "reduce_str what to s = Some t" "length t \<le> length s" "strstr t what = None"
    "length t = length s \<longrightarrow> t = s" "(s, t) \<in> (rewr [(what, to)])\<^sup>*"
    using reduce_str_result [of to what s] Cons.prems a by auto
  obtain r where r: "reduce_all rs t = Some r" "length r \<le> length t"
    "length r = length t \<longrightarrow> r = t \<and> (\<forall>(what, to)\<in>set rs. strstr r what = None)" "(t, r) \<in> (rewr rs)\<^sup>*"
    using Cons.IH [of t] Cons.prems by auto
  have "(s, t) \<in> (rewr (a # rs))\<^sup>*" "(t, r) \<in> (rewr (a # rs))\<^sup>*"
    using t(5) r(4) rewr_mono [of "[a]" "a # rs"] rewr_mono [of rs "a # rs"] a
    by (auto dest: rtrancl_mono)
  then have "(s, r) \<in> (rewr (a # rs))\<^sup>*" by (rule rtrancl_trans)
  then show ?case using t(1-4) r(1-3) a by (intro exI [of _ r]) auto
qed simp

definition irreducible :: "cstring \<Rightarrow> bool" where
  "irreducible s \<longleftrightarrow> (\<forall>(what, to)\<in>set expr_rules. strstr s what = None)"

text \<open>The loop always ends, with a text in which nothing can be replaced.\<close>

lemma reduce_loop_result:
  "old = length s \<longrightarrow> irreducible s \<Longrightarrow>
   \<exists>r. reduce_loop old s = Some r \<and> irreducible r \<and> (s, r) \<in> (rewr expr_rules)\<^sup>*"
proof (induction s arbitrary: old rule: length_induct)
  case (1 s)
  show ?case
  proof (cases "length s = old")
    case True
    then show ?thesis using "1.prems" by (simp add: reduce_loop.simps)
  next
    case False
    obtain t where t: "reduce_all expr_rules s = Some t" "length t \<le> length s"
      "length t = length s \<longrightarrow> t = s \<and> irreducible t" "(s, t) \<in> (rewr expr_rules)\<^sup>*"
      using reduce_all_result [OF expr_rules_shorten, of s] unfolding irreducible_def by blast
    have e: "reduce_loop old s = reduce_loop (length s) t"
      using False t by (simp add: reduce_loop.simps [of old s])
    show ?thesis
    proof (cases "length t = length s")
      case True
      have "reduce_loop (length t) t = Some t" by (simp add: reduce_loop.simps)
      then show ?thesis using True t(3) e by (intro exI [of _ t]) auto
    next
      case shorter: False
      then have "length t < length s" using t(2) by simp
      then obtain r where r: "reduce_loop (length s) t = Some r" "irreducible r" "(t, r) \<in> (rewr expr_rules)\<^sup>*"
        using "1.IH" shorter by metis
      show ?thesis using e r t(4) by (auto intro: rtrancl_trans)
    qed
  qed
qed

lemma irreducible_Nil: "irreducible []"
  by (simp add: irreducible_def expr_rules_def)

lemma match_expression_result:
  "\<exists>r. match_expression s = Some (r = ''T'') \<and> irreducible r \<and> (s, r) \<in> (rewr expr_rules)\<^sup>*"
  using reduce_loop_result [of 0 s] irreducible_Nil by (auto simp: match_expression_def)


section \<open>The meaning of an expression\<close>

text \<open>A text is read with a stack of open groups. A group is empty, holds one value, several values side by side,
  or values between bars; \<open>None\<close> stands for a text without meaning, as one that mixes both in a group.\<close>

datatype group = Empty | One bool | Conj bool | Wait bool | Disj bool

fun group_value :: "group \<Rightarrow> bool option" where
  "group_value (One v) = Some v"
| "group_value (Conj v) = Some v"
| "group_value (Disj v) = Some v"
| "group_value _ = None"

fun put_value :: "bool \<Rightarrow> group list \<Rightarrow> group list option" where
  "put_value b (Empty # st) = Some (One b # st)"
| "put_value b (One v # st) = Some (Conj (v \<and> b) # st)"
| "put_value b (Conj v # st) = Some (Conj (v \<and> b) # st)"
| "put_value b (Wait v # st) = Some (Disj (v \<or> b) # st)"
| "put_value b _ = None"

fun put_bar :: "group list \<Rightarrow> group list option" where
  "put_bar (One v # st) = Some (Wait v # st)"
| "put_bar (Disj v # st) = Some (Wait v # st)"
| "put_bar _ = None"

fun close_group :: "group list \<Rightarrow> group list option" where
  "close_group (g # st) = (case group_value g of Some v \<Rightarrow> put_value v st | None \<Rightarrow> None)"
| "close_group [] = None"

definition put_char :: "char \<Rightarrow> group list \<Rightarrow> group list option" where
  "put_char c st =
     (if c = CHR ''T'' then put_value True st else if c = CHR ''F'' then put_value False st
      else if c = CHR ''|'' then put_bar st else if c = CHR ''('' then Some (Empty # st)
      else if c = CHR '')'' then close_group st else None)"

fun put_text :: "cstring \<Rightarrow> group list \<Rightarrow> group list option" where
  "put_text [] st = Some st"
| "put_text (c # s) st = Option.bind (put_char c st) (put_text s)"

definition text_value :: "cstring \<Rightarrow> bool option" where
  "text_value s = (case put_text s [Empty] of Some [g] \<Rightarrow> group_value g | _ \<Rightarrow> None)"

lemma put_text_append: "put_text (s @ t) st = Option.bind (put_text s st) (put_text t)"
  by (induction s arbitrary: st) (simp_all split: Option.bind_split)

lemma bind_put_text_Nil [simp]: "Option.bind x (put_text []) = x"
  by (cases x) simp_all

text \<open>A group with one value can still become either kind of group: it stands above both.\<close>

inductive below :: "group \<Rightarrow> group \<Rightarrow> bool" where
  "below g g"
| "below (Conj v) (One v)"
| "below (Disj v) (One v)"

inductive_cases below_OneE: "below g (One v)"
inductive_cases below_cases: "below g h"

abbreviation stack_below :: "group list \<Rightarrow> group list \<Rightarrow> bool" where
  "stack_below \<equiv> list_all2 below"

definition result_below :: "group list option \<Rightarrow> group list option \<Rightarrow> bool" where
  "result_below a b \<longleftrightarrow> (\<forall>x. a = Some x \<longrightarrow> (\<exists>y. b = Some y \<and> stack_below x y))"

lemma result_below_None [simp]: "result_below None b"
  by (simp add: result_below_def)

lemma result_below_Some [simp]: "result_below (Some x) (Some y) \<longleftrightarrow> stack_below x y"
  by (simp add: result_below_def)

lemma stack_below_refl [simp]: "stack_below st st"
  by (simp add: list_all2_refl below.intros)

lemma below_value: "below g h \<Longrightarrow> group_value g = Some v \<Longrightarrow> group_value h = Some v"
  by (erule below_cases) simp_all

lemma put_value_mono: "stack_below x y \<Longrightarrow> result_below (put_value b x) (put_value b y)"
  by (cases "(b, x)" rule: put_value.cases)
    (auto simp: list_all2_Cons1 elim!: below_cases intro: below.intros)

lemma put_bar_mono: "stack_below x y \<Longrightarrow> result_below (put_bar x) (put_bar y)"
  by (cases x rule: put_bar.cases) (auto simp: list_all2_Cons1 elim!: below_cases intro: below.intros)

lemma close_group_mono:
  assumes "stack_below x y"
  shows "result_below (close_group x) (close_group y)"
proof (cases x)
  case (Cons g st)
  then obtain h st' where y: "y = h # st'" "below g h" "stack_below st st'"
    using assms by (auto simp: list_all2_Cons1)
  show ?thesis
  proof (cases "group_value g")
    case (Some v)
    then have "group_value h = Some v" using below_value y(2) by blast
    then show ?thesis using Cons Some y put_value_mono by simp
  qed (simp add: Cons)
qed simp

lemma put_char_mono: "stack_below x y \<Longrightarrow> result_below (put_char c x) (put_char c y)"
  by (simp add: put_char_def put_value_mono put_bar_mono close_group_mono below.intros)

lemma put_text_mono: "stack_below x y \<Longrightarrow> result_below (put_text s x) (put_text s y)"
proof (induction s arbitrary: x y)
  case (Cons c s)
  have m: "result_below (put_char c x) (put_char c y)" using Cons.prems by (rule put_char_mono)
  show ?case
  proof (cases "put_char c x")
    case (Some x')
    then obtain y' where "put_char c y = Some y'" "stack_below x' y'"
      using m by (auto simp: result_below_def)
    then show ?thesis using Some Cons.IH by simp
  qed simp
qed simp

text \<open>Each rule moves the state of the reader up.\<close>

lemma put_char_simps [simp]:
  "put_char (CHR ''T'') st = put_value True st" "put_char (CHR ''F'') st = put_value False st"
  "put_char (CHR ''|'') st = put_bar st" "put_char (CHR ''('') st = Some (Empty # st)"
  "put_char (CHR '')'') st = close_group st"
  by (simp_all add: put_char_def)

lemma rule_up: "(what, to) \<in> set expr_rules \<Longrightarrow> result_below (put_text what st) (put_text to st)"
  by (cases st rule: put_bar.cases) (auto simp: expr_rules_def intro: below.intros)

lemma rewr_keeps_value:
  assumes "(s, t) \<in> rewr expr_rules" and "text_value s = Some b"
  shows "text_value t = Some b"
proof -
  obtain u v what to where r: "s = u @ what @ v" "t = u @ to @ v" "(what, to) \<in> set expr_rules"
    using assms(1) by (auto simp: rewr_def)
  obtain g where g: "put_text s [Empty] = Some [g]" "group_value g = Some b"
    using assms(2) by (auto simp: text_value_def split: option.splits list.splits)
  obtain st x where st: "put_text u [Empty] = Some st" "put_text what st = Some x" "put_text v x = Some [g]"
    using g(1) r(1) by (auto simp: put_text_append bind_eq_Some_conv)
  obtain y where y: "put_text to st = Some y" "stack_below x y"
    using rule_up [OF r(3), of st] st(2) by (auto simp: result_below_def)
  obtain z where z: "put_text v y = Some z" "stack_below [g] z"
    using put_text_mono [OF y(2), of v] st(3) by (auto simp: result_below_def)
  obtain h where h: "z = [h]" "below g h" using z(2) by (auto simp: list_all2_Cons1)
  have "put_text t [Empty] = Some [h]" using st(1) y(1) z(1) h(1) r(2) by (simp add: put_text_append)
  then show ?thesis using below_value [OF h(2) g(2)] by (simp add: text_value_def)
qed

lemma rewr_star_keeps_value:
  "(s, t) \<in> (rewr expr_rules)\<^sup>* \<Longrightarrow> text_value s = Some b \<Longrightarrow> text_value t = Some b"
  by (induction rule: rtrancl_induct) (auto dest: rewr_keeps_value)


section \<open>Texts that cannot be shortened\<close>

definition truth_char :: "bool \<Rightarrow> char" where
  "truth_char b = (if b then CHR ''T'' else CHR ''F'')"

lemma irreducible_infix: "irreducible (u @ what @ v) \<Longrightarrow> (what, to) \<notin> set expr_rules"
  unfolding irreducible_def by (blast dest: strstr_NoneD)

lemma strstr_None_prefix: "strstr (s @ t) p = None \<Longrightarrow> p \<noteq> [] \<Longrightarrow> strstr s p = None"
proof (rule ccontr)
  assume n: "strstr (s @ t) p = None" and "strstr s p \<noteq> None"
  then obtain q where q: "strstr s p = Some q" by blast
  obtain u v where "s = u @ p @ v" by (rule reduce_str_step [OF q])
  then show False using strstr_NoneD [OF n, of u "v @ t"] by simp
qed

lemma irreducible_prefix: "irreducible (s @ t) \<Longrightarrow> irreducible s"
  unfolding irreducible_def
  by (auto simp: expr_rules_def dest: strstr_None_prefix)

text \<open>What an irreducible text that can be read ends with, for each kind of the innermost open group.\<close>

fun ends_like :: "cstring \<Rightarrow> group list \<Rightarrow> bool" where
  "ends_like s (Empty # st) \<longleftrightarrow> (if st = [] then s = [] else \<exists>u. s = u @ ''('')"
| "ends_like s (One v # st) \<longleftrightarrow> (if st = [] then s = [truth_char v] else \<exists>u. s = u @ [CHR ''('', truth_char v])"
| "ends_like s (Wait v # st) \<longleftrightarrow> (\<exists>u. s = u @ [truth_char v, CHR ''|''])"
| "ends_like s _ \<longleftrightarrow> False"

lemma ends_like_value:
  assumes "irreducible (s @ [truth_char b])" and "ends_like s st" and "put_value b st = Some st'"
  shows "ends_like (s @ [truth_char b]) st'"
proof (cases "(s, st)" rule: ends_like.cases)
  case (2 s' v st0)
  obtain u where u: "s = u @ [truth_char v]" using 2 assms(2) by (auto split: if_splits)
  have "s @ [truth_char b] = u @ [truth_char v, truth_char b] @ []" using u by simp
  then have "([truth_char v, truth_char b], [truth_char (v \<and> b)]) \<notin> set expr_rules"
    using irreducible_infix assms(1) by metis
  then show ?thesis by (auto simp: expr_rules_def truth_char_def split: if_splits)
next
  case (3 s' v st0)
  obtain u where u: "s = u @ [truth_char v, CHR ''|'']" using 3 assms(2) by auto
  have "s @ [truth_char b] = u @ [truth_char v, CHR ''|'', truth_char b] @ []" using u by simp
  then have "([truth_char v, CHR ''|'', truth_char b], [truth_char (v \<or> b)]) \<notin> set expr_rules"
    using irreducible_infix assms(1) by metis
  then show ?thesis by (auto simp: expr_rules_def truth_char_def split: if_splits)
qed (use assms in \<open>auto split: if_splits\<close>)

lemma ends_like_close:
  assumes "irreducible (s @ '')'')" and "ends_like s st"
  shows "close_group st = None"
proof (cases "(s, st)" rule: ends_like.cases)
  case (2 s' v st0)
  show ?thesis
  proof (cases "st0 = []")
    case False
    then obtain u where u: "s = u @ [CHR ''('', truth_char v]" using 2 assms(2) by auto
    have "s @ '')'' = u @ [CHR ''('', truth_char v, CHR '')''] @ []" using u by simp
    then have "([CHR ''('', truth_char v, CHR '')''], [truth_char v]) \<notin> set expr_rules"
      using irreducible_infix assms(1) by metis
    then show ?thesis by (auto simp: expr_rules_def truth_char_def split: if_splits)
  qed (use 2 in simp)
qed (use assms in auto)

lemma ends_like_bar:
  "ends_like s st \<Longrightarrow> put_bar st = Some st' \<Longrightarrow> ends_like (s @ ''|'') st'"
  by (cases "(s, st)" rule: ends_like.cases) (auto split: if_splits)

lemma irreducible_ends:
  "irreducible s \<Longrightarrow> put_text s [Empty] = Some st \<Longrightarrow> ends_like s st"
proof (induction s arbitrary: st rule: rev_induct)
  case (snoc c s)
  obtain x where x: "put_text s [Empty] = Some x" "put_char c x = Some st"
    using snoc.prems(2) by (auto simp: put_text_append bind_eq_Some_conv)
  have e: "ends_like s x" using snoc.IH x(1) snoc.prems(1) irreducible_prefix by blast
  consider "c = truth_char True" "put_value True x = Some st"
    | "c = truth_char False" "put_value False x = Some st" | "c = CHR ''|''" "put_bar x = Some st"
    | "c = CHR ''(''" "st = Empty # x" | "c = CHR '')''" "close_group x = Some st"
    using x(2) by (auto simp: put_char_def truth_char_def split: if_splits)
  then show ?case
  proof cases
    case 1
    then show ?thesis using ends_like_value e snoc.prems(1) by simp
  next
    case 2
    then show ?thesis using ends_like_value e snoc.prems(1) by simp
  next
    case 3
    then show ?thesis using ends_like_bar e by simp
  next
    case 4
    have "x \<noteq> []" using e by auto
    then show ?thesis using 4 by simp
  next
    case 5
    then show ?thesis using ends_like_close e snoc.prems(1) by simp
  qed
qed auto

lemma irreducible_value:
  assumes "irreducible s" and "text_value s = Some b"
  shows "s = [truth_char b]"
proof -
  obtain g where g: "put_text s [Empty] = Some [g]" "group_value g = Some b"
    using assms(2) by (auto simp: text_value_def split: option.splits list.splits)
  show ?thesis using irreducible_ends [OF assms(1) g(1)] g(2) by (cases g) auto
qed

lemma match_expression_value:
  assumes "text_value s = Some b"
  shows "match_expression s = Some b"
proof -
  obtain r where r: "match_expression s = Some (r = ''T'')" "irreducible r" "(s, r) \<in> (rewr expr_rules)\<^sup>*"
    using match_expression_result by blast
  have "r = [truth_char b]" using irreducible_value r(2) rewr_star_keeps_value [OF r(3) assms] by blast
  then show ?thesis using r(1) by (simp add: truth_char_def)
qed


section \<open>Expressions as trees\<close>

text \<open>The reference: a group holds terms and groups, either side by side (all must match) or between bars (one
  must).\<close>

datatype expr = Term bool | All "expr list" | Any "expr list"

fun expr_value :: "expr \<Rightarrow> bool" where
  "expr_value (Term b) = b"
| "expr_value (All es) = (\<forall>e\<in>set es. expr_value e)"
| "expr_value (Any es) = (\<exists>e\<in>set es. expr_value e)"

fun expr_ok :: "expr \<Rightarrow> bool" where
  "expr_ok (Term b) = True"
| "expr_ok (All es) = (es \<noteq> [] \<and> (\<forall>e\<in>set es. expr_ok e))"
| "expr_ok (Any es) = (es \<noteq> [] \<and> (\<forall>e\<in>set es. expr_ok e))"

fun bars :: "cstring list \<Rightarrow> cstring" where
  "bars [] = []"
| "bars [s] = s"
| "bars (s # ss) = s @ CHR ''|'' # bars ss"

fun expr_item :: "expr \<Rightarrow> cstring" where
  "expr_item (Term b) = [truth_char b]"
| "expr_item (All es) = CHR ''('' # concat (map expr_item es) @ '')''"
| "expr_item (Any es) = CHR ''('' # bars (map expr_item es) @ '')''"

text \<open>The text of a whole rule: the outermost group has no braces.\<close>

fun expr_text :: "expr \<Rightarrow> cstring" where
  "expr_text (Term b) = [truth_char b]"
| "expr_text (All es) = concat (map expr_item es)"
| "expr_text (Any es) = bars (map expr_item es)"

abbreviation reads_as :: "cstring \<Rightarrow> bool \<Rightarrow> bool" where
  "reads_as s b \<equiv> \<forall>st. put_text s st = put_value b st"

lemma put_char_truth [simp]: "put_char (truth_char b) st = put_value b st"
  by (simp add: truth_char_def)

lemma conj_texts:
  "\<forall>e\<in>set es. reads_as (expr_item e) (expr_value e) \<Longrightarrow>
   put_text (concat (map expr_item es)) (Conj v # st) = Some (Conj (v \<and> (\<forall>e\<in>set es. expr_value e)) # st)"
  by (induction es arbitrary: v) (auto simp: put_text_append)

lemma all_text:
  assumes "\<forall>e\<in>set es. reads_as (expr_item e) (expr_value e)" and "es \<noteq> []"
  shows "\<exists>g. put_text (concat (map expr_item es)) (Empty # st) = Some (g # st) \<and>
           group_value g = Some (\<forall>e\<in>set es. expr_value e)"
proof -
  obtain e es' where es: "es = e # es'" using assms(2) by (cases es) auto
  show ?thesis
  proof (cases es')
    case Nil
    then show ?thesis using es assms(1) by simp
  next
    case (Cons e' es'')
    then show ?thesis using es assms(1) conj_texts [of es'' "expr_value e \<and> expr_value e'" st]
      by (simp add: put_text_append)
  qed
qed

lemma disj_texts:
  "\<forall>e\<in>set es. reads_as (expr_item e) (expr_value e) \<Longrightarrow> es \<noteq> [] \<Longrightarrow>
   put_text (bars (map expr_item es)) (Wait v # st) = Some (Disj (v \<or> (\<exists>e\<in>set es. expr_value e)) # st)"
proof (induction es arbitrary: v)
  case (Cons e es)
  show ?case
  proof (cases es)
    case (Cons e' es')
    then have "bars (map expr_item (e # es)) = expr_item e @ CHR ''|'' # bars (map expr_item es)" by simp
    then show ?thesis using Cons.prems Cons.IH [of "v \<or> expr_value e"] Cons by (simp add: put_text_append disj_assoc)
  qed (use Cons.prems in simp)
qed simp

lemma any_text:
  assumes "\<forall>e\<in>set es. reads_as (expr_item e) (expr_value e)" and "es \<noteq> []"
  shows "\<exists>g. put_text (bars (map expr_item es)) (Empty # st) = Some (g # st) \<and>
           group_value g = Some (\<exists>e\<in>set es. expr_value e)"
proof -
  obtain e es' where es: "es = e # es'" using assms(2) by (cases es) auto
  show ?thesis
  proof (cases es')
    case Nil
    then show ?thesis using es assms(1) by simp
  next
    case (Cons e' es'')
    then have "bars (map expr_item es) = expr_item e @ CHR ''|'' # bars (map expr_item es')" using es by simp
    then show ?thesis using es assms(1) Cons disj_texts [of es' "expr_value e" st] by (simp add: put_text_append)
  qed
qed

lemma item_reads: "expr_ok e \<Longrightarrow> reads_as (expr_item e) (expr_value e)"
proof (induction e)
  case (All es)
  show ?case
  proof
    fix st
    obtain g where "put_text (concat (map expr_item es)) (Empty # st) = Some (g # st)"
      "group_value g = Some (\<forall>e\<in>set es. expr_value e)"
      using all_text [of es st] All by auto
    then show "put_text (expr_item (All es)) st = put_value (expr_value (All es)) st"
      by (simp add: put_text_append)
  qed
next
  case (Any es)
  show ?case
  proof
    fix st
    obtain g where "put_text (bars (map expr_item es)) (Empty # st) = Some (g # st)"
      "group_value g = Some (\<exists>e\<in>set es. expr_value e)"
      using any_text [of es st] Any by auto
    then show "put_text (expr_item (Any es)) st = put_value (expr_value (Any es)) st"
      by (simp add: put_text_append)
  qed
qed simp

lemma text_reads: "expr_ok e \<Longrightarrow> text_value (expr_text e) = Some (expr_value e)"
proof (cases e)
  case (All es)
  moreover assume "expr_ok e"
  ultimately show ?thesis using all_text [of es "[]"] item_reads by (auto simp: text_value_def)
next
  case (Any es)
  moreover assume "expr_ok e"
  ultimately show ?thesis using any_text [of es "[]"] item_reads by (auto simp: text_value_def)
qed (simp add: text_value_def)

text \<open>C18: Shortening the text of an expression by the thirteen replacements, in their fixed order, ends with the
  value of the expression, for any nesting of groups, as long as no group mixes terms side by side with bars.\<close>

theorem match_expression_correct:
  assumes "expr_ok e"
  shows "match_expression (expr_text e) = Some (expr_value e)"
  by (rule match_expression_value) (rule text_reads [OF assms])

theorem match_expression_correct_witness:
  "match_expression ''T(F|(TF)|T)'' = Some True"
  using match_expression_correct [of "All [Term True, Any [Term False, All [Term True, Term False], Term True]]"]
  by (simp add: truth_char_def)

text \<open>A group that mixes both is not an error, but its value depends on where its braces are.\<close>

lemma mixed_group: "match_expression ''T|TTF'' = Some True" "match_expression ''T|T(T)F'' = Some False"
  by (simp_all add: match_expression_def reduce_loop.simps expr_rules_def reduce_str.simps)

end
