(* ===== verification/FeedItem.thy ===== *)
theory FeedItem
  imports FeedExpr FileNames DupeCheck
begin

text \<open>
  Items of feeds (\<open>daemon/feed/FeedInfo.cpp\<close>, \<open>FeedInfo.h\<close>): their data, the season and episode taken from the
  title, duplicate keys and the duplicate status; and the regular expressions of \<open>daemon/util/Util.cpp\<close>.

  The regular expression library is a parameter \<open>regexec\<close>: for a pattern, the number of positions asked for and
  a text it gives the start and end of the match and of each group (-1 for a group that took no part), or
  nothing when the pattern is not valid or does not match.
\<close>

section \<open>Regular expressions\<close>

type_synonym regexec = "cstring \<Rightarrow> nat \<Rightarrow> cstring \<Rightarrow> (int \<times> int) list option"

text \<open>\<open>RegEx::Match\<close> and then \<open>GetMatchCount\<close>, \<open>GetMatchStart\<close> and \<open>GetMatchLen\<close>: starts and lengths of the
  groups before the first that took no part.\<close>

definition regex_match :: "regexec \<Rightarrow> cstring \<Rightarrow> nat \<Rightarrow> cstring \<Rightarrow> (int \<times> int) list option" where
  "regex_match rx pattern n s =
     map_option (\<lambda>ms. map (\<lambda>(so, eo). (so, eo - so)) (takeWhile (\<lambda>(so, eo). so > -1) (take n ms))) (rx pattern n s)"

section \<open>Numbers and letters\<close>

definition to_upper :: "char \<Rightarrow> char" where
  "to_upper c = (if is_lower c then chr (byte c - 32) else c)"

text \<open>\<open>StrToNum<int>\<close> reads a decimal number at the start of the text; \<open>%02d\<close> prints it with two digits at
  least.\<close>

definition str_to_int :: "cstring \<Rightarrow> int option" where
  "str_to_int s =
     (let t = dropWhile is_space s; u = (if peek t = CHR ''-'' \<or> peek t = CHR ''+'' then tl t else t)
      in if \<not> is_digit (peek u) \<or> atoi_c s < - (2 ^ 31) \<or> atoi_c s > 2 ^ 31 - 1 then None else Some (atoi_c s))"

definition two_digits :: "int \<Rightarrow> cstring" where
  "two_digits i = (if 0 \<le> i \<and> i < 10 then CHR ''0'' # show_int i else show_int i)"

section \<open>The data of an item\<close>

datatype item_status = isUnknown | isBacklog | isFetched | isNew
datatype match_status = msIgnored | msAccepted | msRejected

record feed_item =
  fit_title :: cstring
  fit_filename :: cstring
  fit_url :: cstring
  fit_category :: cstring
  fit_description :: cstring
  fit_season :: cstring
  fit_episode :: cstring
  fit_addCategory :: cstring
  fit_dupeKey :: cstring
  fit_dupeStatus :: cstring
  fit_time :: int
  fit_size :: int
  fit_imdbId :: int
  fit_rageId :: int
  fit_tvdbId :: int
  fit_tvmazeId :: int
  fit_seasonNum :: int
  fit_episodeNum :: int
  fit_seasonEpisodeParsed :: bool
  fit_pauseNzb :: bool
  fit_priority :: int
  fit_status :: item_status
  fit_matchStatus :: match_status
  fit_matchRule :: int
  fit_dupeScore :: int
  fit_dupeMode :: dupe_mode
  fit_helper :: bool
  fit_attributes :: "(cstring \<times> cstring) list"

definition new_item :: feed_item where
  "new_item =
     \<lparr>fit_title = [], fit_filename = [], fit_url = [], fit_category = [], fit_description = [], fit_season = [],
      fit_episode = [], fit_addCategory = [], fit_dupeKey = [], fit_dupeStatus = [], fit_time = 0, fit_size = 0,
      fit_imdbId = 0, fit_rageId = 0, fit_tvdbId = 0, fit_tvmazeId = 0, fit_seasonNum = 0, fit_episodeNum = 0,
      fit_seasonEpisodeParsed = False, fit_pauseNzb = False, fit_priority = 0, fit_status = isUnknown,
      fit_matchStatus = msIgnored, fit_matchRule = 0, fit_dupeScore = 0, fit_dupeMode = dmScore, fit_helper = False,
      fit_attributes = []\<rparr>"

text \<open>\<open>Attributes::Find\<close>: the first attribute of the name, without case.\<close>

fun find_attr :: "cstring \<Rightarrow> (cstring \<times> cstring) list \<Rightarrow> cstring option" where
  "find_attr name [] = None"
| "find_attr name ((n, v) # as) = (if strcase_eq n name then Some v else find_attr name as)"

section \<open>Season and episode\<close>

definition parse_prefixed_int :: "cstring \<Rightarrow> int" where
  "parse_prefixed_int s = atoi_c (if strchr_in ''0123456789'' (peek s) then s else tl s)"

definition set_season :: "cstring \<Rightarrow> feed_item \<Rightarrow> feed_item" where
  "set_season s it = it\<lparr>fit_season := s, fit_seasonNum := parse_prefixed_int s\<rparr>"

definition set_episode :: "cstring \<Rightarrow> feed_item \<Rightarrow> feed_item" where
  "set_episode s it = it\<lparr>fit_episode := s, fit_episodeNum := parse_prefixed_int s\<rparr>"

text \<open>\<open>ParseSeasonEpisode\<close>: the two groups of the pattern take part in every match, so their positions are there.\<close>

definition season_pattern :: cstring where
  "season_pattern = ''[^[:alnum:]]s?([0-9]+)[ex]([0-9]+(-?e[0-9]+)?)[^[:alnum:]]''"

definition season_text :: "cstring \<Rightarrow> cstring" where
  "season_text season = take 99 (''S'' @ two_digits (case str_to_int season of Some n \<Rightarrow> n | None \<Rightarrow> 0))"

definition episode_text :: "cstring \<Rightarrow> cstring" where
  "episode_text val = map to_upper (the (reduce_str ''-'' [] (take 99 (''E'' @ val))))"

definition parse_season_episode :: "regexec \<Rightarrow> feed_item \<Rightarrow> feed_item" where
  "parse_season_episode rx it =
     (if \<not> fit_helper it then it
      else (let it = it\<lparr>fit_seasonEpisodeParsed := True\<rparr>
            in case rx season_pattern 10 (fit_title it) of
                 None \<Rightarrow> it
               | Some ms \<Rightarrow>
                   (let (so1, eo1) = ms ! 1; (so2, eo2) = ms ! 2;
                        it = set_season (season_text (drop (nat so1) (fit_title it))) it
                    in set_episode (episode_text (bstring_set 100 (drop (nat so2) (fit_title it)) (eo2 - so2))) it)))"

definition get_season_num :: "regexec \<Rightarrow> feed_item \<Rightarrow> int \<times> feed_item" where
  "get_season_num rx it =
     (let it = (if fit_season it = [] \<and> \<not> fit_seasonEpisodeParsed it then parse_season_episode rx it else it)
      in (fit_seasonNum it, it))"

definition get_episode_num :: "regexec \<Rightarrow> feed_item \<Rightarrow> int \<times> feed_item" where
  "get_episode_num rx it =
     (let it = (if fit_episode it = [] \<and> \<not> fit_seasonEpisodeParsed it then parse_season_episode rx it else it)
      in (fit_episodeNum it, it))"

text \<open>What \<open>ReduceStr\<close> leaves of an episode: the text without dashes.\<close>

lemma strstr_char: "strstr s [c] = None \<longleftrightarrow> c \<notin> set s"
  by (induction s) auto

lemma reduce_char: "reduce_str [c] [] s = Some (filter (\<lambda>d. d \<noteq> c) s)"
proof (induction s rule: length_induct)
  case (1 s)
  show ?case
  proof (cases "strstr s [c]")
    case None
    then have "c \<notin> set s" by (simp add: strstr_char)
    then have "filter (\<lambda>d. d \<noteq> c) s = s" by (auto simp: filter_id_conv)
    then show ?thesis using None by (simp add: reduce_str.simps)
  next
    case (Some p)
    obtain u v where s: "s = u @ [c] @ v"
      and t: "take (length s - length p) s @ [] @ drop (length [c]) p = u @ [] @ v"
      by (rule reduce_str_step [OF Some])
    have "reduce_str [c] [] s = reduce_str [c] [] (u @ v)"
      using Some t by (simp add: reduce_str.simps [of "[c]" "[]" s])
    also have "\<dots> = Some (filter (\<lambda>d. d \<noteq> c) (u @ v))" using 1 s by simp
    finally show ?thesis using s by simp
  qed
qed

lemma episode_text_eq: "episode_text val = map to_upper (filter (\<lambda>c. c \<noteq> CHR ''-'') (take 99 (''E'' @ val)))"
  by (simp add: episode_text_def reduce_char)

section \<open>Duplicate keys\<close>

definition append_dupe_key :: "cstring \<Rightarrow> feed_item \<Rightarrow> feed_item" where
  "append_dupe_key extra it =
     (if fit_dupeKey it \<noteq> [] \<and> extra \<noteq> [] then it\<lparr>fit_dupeKey := fit_dupeKey it @ ''-'' @ extra\<rparr> else it)"

text \<open>The test that season and episode are known, which may parse the title.\<close>

definition episode_known :: "regexec \<Rightarrow> feed_item \<Rightarrow> bool \<times> feed_item" where
  "episode_known rx it =
     (let (s, it) = get_season_num rx it
      in if s = 0 then (False, it)
         else (let (e, it) = get_episode_num rx it in (e \<noteq> 0, it)))"

definition show_key :: "cstring \<Rightarrow> feed_item \<Rightarrow> feed_item" where
  "show_key name it = it\<lparr>fit_dupeKey := name @ ''-'' @ fit_season it @ ''-'' @ fit_episode it\<rparr>"

text \<open>One of the last four branches of \<open>BuildDupeKey\<close>: its condition, and what happens else.\<close>

definition key_branch ::
  "regexec \<Rightarrow> bool \<Rightarrow> cstring \<Rightarrow> (feed_item \<Rightarrow> feed_item) \<Rightarrow> feed_item \<Rightarrow> feed_item" where
  "key_branch rx given name otherwise it =
     (if given then (let (known, it) = episode_known rx it in if known then show_key name it else otherwise it)
      else otherwise it)"

definition build_dupe_key :: "regexec \<Rightarrow> cstring \<Rightarrow> cstring \<Rightarrow> cstring \<Rightarrow> cstring \<Rightarrow> feed_item \<Rightarrow> feed_item" where
  "build_dupe_key rx rageId tvdbId tvmazeId series it =
     (let rage = (if rageId \<noteq> [] then atoi_c rageId else fit_rageId it);
          tvdb = (if tvdbId \<noteq> [] then atoi_c tvdbId else fit_tvdbId it);
          tvmaze = (if tvmazeId \<noteq> [] then atoi_c tvmazeId else fit_tvmazeId it)
      in if fit_imdbId it \<noteq> 0 then it\<lparr>fit_dupeKey := ''imdb='' @ show_int (fit_imdbId it)\<rparr>
         else key_branch rx (series \<noteq> []) (''series='' @ series)
                (key_branch rx (rage \<noteq> 0) (''rageid='' @ show_int rage)
                  (key_branch rx (tvdb \<noteq> 0) (''tvdbid='' @ show_int tvdb)
                    (key_branch rx (tvmaze \<noteq> 0) (''tvmazeid='' @ show_int tvmaze)
                      (\<lambda>it. it\<lparr>fit_dupeKey := []\<rparr>)))) it)"

section \<open>The duplicate status\<close>

text \<open>\<open>FilterHelper::CalcDupeStatus\<close> (\<open>FeedCoordinator.cpp\<close>): the names of the bits, between commas; the five names
  fit into the buffer.\<close>

definition dupe_status_names :: "(cstring \<times> (dupe_status \<Rightarrow> bool)) list" where
  "dupe_status_names =
     [(''QUEUED'', st_queued), (''DOWNLOADING'', st_downloading), (''SUCCESS'', st_success), (''WARNING'', st_warning),
      (''FAILURE'', st_failure)]"

definition calc_dupe_status :: "dupe_status \<Rightarrow> cstring" where
  "calc_dupe_status st =
     foldl (\<lambda>s (name, bit). if bit st then (if s \<noteq> [] then s @ '','' else s) @ name else s) [] dupe_status_names"

text \<open>What the items and filters ask from outside: regular expressions, queue and history, the time.\<close>

record feed_env =
  fe_regexec :: regexec
  fe_queue :: queue
  fe_history :: "history_info list"
  fe_now :: int

definition get_dupe_status_text :: "feed_env \<Rightarrow> feed_item \<Rightarrow> cstring \<times> feed_item" where
  "get_dupe_status_text env it =
     (let it = (if fit_dupeStatus it = []
                then it\<lparr>fit_dupeStatus := calc_dupe_status
                       (get_dupe_status (fe_queue env) (fe_history env) (fit_title it) (fit_dupeKey it))\<rparr>
                else it)
      in (fit_dupeStatus it, it))"

section \<open>What parsing an item keeps\<close>

text \<open>Reading season and episode changes only these.\<close>

definition same_but_episode :: "feed_item \<Rightarrow> feed_item \<Rightarrow> bool" where
  "same_but_episode a b \<longleftrightarrow>
     b = a\<lparr>fit_season := fit_season b, fit_seasonNum := fit_seasonNum b, fit_episode := fit_episode b,
           fit_episodeNum := fit_episodeNum b, fit_seasonEpisodeParsed := fit_seasonEpisodeParsed b\<rparr>"

lemma same_but_episode_refl [simp]: "same_but_episode a a"
  by (simp add: same_but_episode_def)

lemma parse_season_episode_same: "same_but_episode it (parse_season_episode rx it)"
  by (simp add: parse_season_episode_def same_but_episode_def set_season_def set_episode_def Let_def
      split: option.splits prod.splits)

lemma get_season_num_same: "same_but_episode it (snd (get_season_num rx it))"
  by (simp add: get_season_num_def Let_def parse_season_episode_same)

lemma get_episode_num_same: "same_but_episode it (snd (get_episode_num rx it))"
  by (simp add: get_episode_num_def Let_def parse_season_episode_same)

lemma same_but_episodeD:
  assumes "same_but_episode a b"
  shows "fit_matchStatus b = fit_matchStatus a" "fit_matchRule b = fit_matchRule a" "fit_url b = fit_url a"
    "fit_title b = fit_title a"
proof -
  have e: "b = a\<lparr>fit_season := fit_season b, fit_seasonNum := fit_seasonNum b, fit_episode := fit_episode b,
      fit_episodeNum := fit_episodeNum b, fit_seasonEpisodeParsed := fit_seasonEpisodeParsed b\<rparr>"
    using assms by (simp add: same_but_episode_def)
  show "fit_matchStatus b = fit_matchStatus a" using arg_cong [where f = fit_matchStatus, OF e] by simp
  show "fit_matchRule b = fit_matchRule a" using arg_cong [where f = fit_matchRule, OF e] by simp
  show "fit_url b = fit_url a" using arg_cong [where f = fit_url, OF e] by simp
  show "fit_title b = fit_title a" using arg_cong [where f = fit_title, OF e] by simp
qed

lemmas season_num_keeps [simp] = same_but_episodeD [OF get_season_num_same]
lemmas episode_num_keeps [simp] = same_but_episodeD [OF get_episode_num_same]

lemma episode_known_keeps [simp]:
  "fit_matchStatus (snd (episode_known rx it)) = fit_matchStatus it"
  "fit_matchRule (snd (episode_known rx it)) = fit_matchRule it"
  "fit_url (snd (episode_known rx it)) = fit_url it"
  by (simp_all add: episode_known_def case_prod_unfold Let_def)

lemma show_key_keeps [simp]:
  "fit_matchStatus (show_key name it) = fit_matchStatus it" "fit_matchRule (show_key name it) = fit_matchRule it"
  "fit_url (show_key name it) = fit_url it"
  by (simp_all add: show_key_def)

lemma key_branch_cases:
  "key_branch rx given name otherwise it =
     (if given \<and> fst (episode_known rx it) then show_key name (snd (episode_known rx it))
      else otherwise (if given then snd (episode_known rx it) else it))"
  by (simp add: key_branch_def case_prod_unfold)

lemma key_branch_keeps:
  assumes "\<And>it. fit_matchStatus (otherwise it) = fit_matchStatus it" "\<And>it. fit_matchRule (otherwise it) = fit_matchRule it"
    "\<And>it. fit_url (otherwise it) = fit_url it"
  shows "fit_matchStatus (key_branch rx given name otherwise it) = fit_matchStatus it"
    "fit_matchRule (key_branch rx given name otherwise it) = fit_matchRule it"
    "fit_url (key_branch rx given name otherwise it) = fit_url it"
  using assms by (simp_all add: key_branch_cases)

lemma build_dupe_key_keeps [simp]:
  "fit_matchStatus (build_dupe_key rx a b c d it) = fit_matchStatus it"
  "fit_matchRule (build_dupe_key rx a b c d it) = fit_matchRule it"
  "fit_url (build_dupe_key rx a b c d it) = fit_url it"
  by (simp_all add: build_dupe_key_def Let_def key_branch_keeps)

end
