(* ===== verification/FeedTerm.thy ===== *)
theory FeedTerm
  imports FeedItem Complex_Main
begin

text \<open>
  The terms of the feed filter (\<open>daemon/feed/FeedFilter.cpp\<close>, class \<open>FeedFilter::Term\<close>): compiling a term and
  matching it with an item.

  A C double is a rational number, rounded to 53 bits after each operation; the limits of the exponent are left
  out. \<open>atof\<close> reads decimal numbers (the names of infinity and not-a-number and the hexadecimal form of C are left
  out).
\<close>

section \<open>Doubles\<close>

definition two_power :: "int \<Rightarrow> rat" where
  "two_power e = (if 0 \<le> e then 2 ^ nat e else 1 / 2 ^ nat (- e))"

definition ten_power :: "int \<Rightarrow> rat" where
  "ten_power e = (if 0 \<le> e then 10 ^ nat e else 1 / 10 ^ nat (- e))"

function log2_floor :: "int \<Rightarrow> int" where
  "log2_floor n = (if n < 2 then 0 else 1 + log2_floor (n div 2))"
  by pat_completeness auto
termination by (relation "measure nat") auto

declare log2_floor.simps [simp del]

definition rat_log2 :: "rat \<Rightarrow> int" where
  "rat_log2 q =
     (let (n, d) = quotient_of q; l = log2_floor n - log2_floor d
      in if two_power l \<le> q then l else l - 1)"

definition round_half_even :: "rat \<Rightarrow> int" where
  "round_half_even q =
     (let f = \<lfloor>q\<rfloor>; r = q - of_int f
      in if r < 1 / 2 \<or> (r = 1 / 2 \<and> even f) then f else f + 1)"

definition double :: "rat \<Rightarrow> rat" where
  "double q =
     (if q = 0 then 0
      else (let u = two_power (rat_log2 \<bar>q\<bar> - 52); m = of_int (round_half_even (\<bar>q\<bar> / u)) * u
            in if q < 0 then - m else m))"

definition int_of_double :: "rat \<Rightarrow> int" where
  "int_of_double q = (if q < 0 then - \<lfloor>- q\<rfloor> else \<lfloor>q\<rfloor>)"

definition atof :: "cstring \<Rightarrow> rat" where
  "atof s =
     (let t = dropWhile is_space s;
          neg = (peek t = CHR ''-'');
          u = (if peek t = CHR ''-'' \<or> peek t = CHR ''+'' then tl t else t);
          ds = takeWhile is_digit u;
          r = dropWhile is_digit u;
          fs = (if peek r = CHR ''.'' then takeWhile is_digit (tl r) else []);
          r = (if peek r = CHR ''.'' then dropWhile is_digit (tl r) else r);
          x = (if peek r = CHR ''e'' \<or> peek r = CHR ''E'' then tl r else []);
          xd = (if peek x = CHR ''-'' \<or> peek x = CHR ''+'' then tl x else x);
          e = (if is_digit (peek xd) then atoi_c x else 0);
          q = double (of_nat (digits_val (ds @ fs)) * ten_power (e - int (length fs)))
      in if ds = [] \<and> fs = [] then 0 else if neg then - q else q)"

section \<open>The data of a term\<close>

datatype term_command = fcText | fcRegex | fcEqual | fcLess | fcLessEqual | fcGreater | fcGreaterEqual
  | fcOpeningBrace | fcClosingBrace | fcOrOperator

text \<open>\<open>command >= fcEqual\<close>.\<close>

definition numeric_command :: "term_command \<Rightarrow> bool" where
  "numeric_command c \<longleftrightarrow> c \<noteq> fcText \<and> c \<noteq> fcRegex"

record feed_term =
  tm_positive :: bool
  tm_field :: "cstring option"
  tm_command :: term_command
  tm_param :: cstring
  tm_intParam :: int
  tm_floatParam :: rat
  tm_float :: bool
  tm_refs :: bool

definition new_term :: "bool \<Rightarrow> feed_term" where
  "new_term rvs =
     \<lparr>tm_positive = False, tm_field = None, tm_command = fcEqual, tm_param = [], tm_intParam = 0,
      tm_floatParam = 0, tm_float = False, tm_refs = rvs\<rparr>"

section \<open>Fields\<close>

text \<open>\<open>Term::GetFieldData\<close> in two parts: the names it knows, and the text or number of the item. A term without
  field means the title.\<close>

datatype feed_field = ffTitle | ffFilename | ffCategory | ffUrl | ffSize | ffAge | ffImdbId | ffRageId | ffTvdbId
  | ffTvmazeId | ffDescription | ffSeason | ffEpisode | ffPriority | ffDupeKey | ffDupeScore | ffDupeStatus
  | ffAttr cstring

definition field_names :: "(cstring \<times> feed_field) list" where
  "field_names =
     [(''title'', ffTitle), (''filename'', ffFilename), (''category'', ffCategory), (''link'', ffUrl),
      (''url'', ffUrl), (''size'', ffSize), (''age'', ffAge), (''imdbid'', ffImdbId), (''rageid'', ffRageId),
      (''tvdbid'', ffTvdbId), (''tvmazeid'', ffTvmazeId), (''description'', ffDescription), (''season'', ffSeason),
      (''episode'', ffEpisode), (''priority'', ffPriority), (''dupekey'', ffDupeKey), (''dupescore'', ffDupeScore),
      (''dupestatus'', ffDupeStatus)]"

definition field_of :: "cstring option \<Rightarrow> feed_field option" where
  "field_of field =
     (case field of
        None \<Rightarrow> Some ffTitle
      | Some name \<Rightarrow>
          (case find (\<lambda>(n, f). strcase_eq name n) field_names of
             Some (n, f) \<Rightarrow> Some f
           | None \<Rightarrow> if strcase_eq (take 5 name) ''attr-'' then Some (ffAttr (drop 5 name)) else None))"

fun field_data :: "feed_env \<Rightarrow> feed_field \<Rightarrow> feed_item \<Rightarrow> (cstring option \<times> int) \<times> feed_item" where
  "field_data env ffTitle it = ((Some (fit_title it), 0), it)"
| "field_data env ffFilename it = ((Some (fit_filename it), 0), it)"
| "field_data env ffCategory it = ((Some (fit_category it), 0), it)"
| "field_data env ffUrl it = ((Some (fit_url it), 0), it)"
| "field_data env ffSize it = ((None, fit_size it), it)"
| "field_data env ffAge it = ((None, fe_now env - fit_time it), it)"
| "field_data env ffImdbId it = ((None, fit_imdbId it), it)"
| "field_data env ffRageId it = ((None, fit_rageId it), it)"
| "field_data env ffTvdbId it = ((None, fit_tvdbId it), it)"
| "field_data env ffTvmazeId it = ((None, fit_tvmazeId it), it)"
| "field_data env ffDescription it = ((Some (fit_description it), 0), it)"
| "field_data env ffSeason it = (let (n, it) = get_season_num (fe_regexec env) it in ((None, n), it))"
| "field_data env ffEpisode it = (let (n, it) = get_episode_num (fe_regexec env) it in ((None, n), it))"
| "field_data env ffPriority it = ((None, fit_priority it), it)"
| "field_data env ffDupeKey it = ((Some (fit_dupeKey it), 0), it)"
| "field_data env ffDupeScore it = ((None, fit_dupeScore it), it)"
| "field_data env ffDupeStatus it = (let (s, it) = get_dupe_status_text env it in ((Some s, 0), it))"
| "field_data env (ffAttr name) it = ((find_attr name (fit_attributes it), 0), it)"

section \<open>Compiling a term\<close>

abbreviation number_char :: "char \<Rightarrow> bool" where
  "number_char c \<equiv> is_digit c \<or> c = CHR ''.''"

text \<open>\<open>ParseSizeParam\<close> and \<open>ParseAgeParam\<close>: the number and the unit behind it; all products are of doubles.\<close>

definition scaled :: "cstring \<Rightarrow> rat list \<Rightarrow> int" where
  "scaled param factors = int_of_double (foldl (\<lambda>x f. double (x * f)) (atof param) factors)"

definition parse_size_param :: "cstring \<Rightarrow> int option" where
  "parse_size_param param =
     (let p = dropWhile number_char param
      in if p = [] then Some (scaled param [])
         else if strcase_eq p ''K'' \<or> strcase_eq p ''KB'' then Some (scaled param [1024])
         else if strcase_eq p ''M'' \<or> strcase_eq p ''MB'' then Some (scaled param [1024, 1024])
         else if strcase_eq p ''G'' \<or> strcase_eq p ''GB'' then Some (scaled param [1024, 1024, 1024])
         else None)"

definition parse_age_param :: "cstring \<Rightarrow> int option" where
  "parse_age_param param =
     (let p = dropWhile number_char param
      in if p = [] then Some (scaled param [60, 60, 24])
         else if strcase_eq p ''m'' then Some (scaled param [60])
         else if strcase_eq p ''h'' then Some (scaled param [60, 60])
         else if strcase_eq p ''d'' then Some (scaled param [60, 60, 24])
         else None)"

definition numeric_param :: "cstring \<Rightarrow> bool" where
  "numeric_param param \<longleftrightarrow> (\<forall>c\<in>set param. number_char c \<or> c = CHR ''-'')"

definition parse_param :: "cstring \<Rightarrow> cstring \<Rightarrow> feed_term \<Rightarrow> feed_term option" where
  "parse_param field param t =
     (if strcase_eq field ''size'' then map_option (\<lambda>n. t\<lparr>tm_intParam := n\<rparr>) (parse_size_param param)
      else if strcase_eq field ''age'' then map_option (\<lambda>n. t\<lparr>tm_intParam := n\<rparr>) (parse_age_param param)
      else if numeric_command (tm_command t)
      then if numeric_param param
           then Some (t\<lparr>tm_floatParam := atof param, tm_intParam := int_of_double (atof param),
                        tm_float := CHR ''.'' \<in> set param\<rparr>)
           else None
      else Some t)"

text \<open>The parts of \<open>Term::Compile\<close>: the sign, a brace or bar, the field before the colon, the command.\<close>

definition term_sign :: "cstring \<Rightarrow> bool \<times> cstring" where
  "term_sign sv =
     (peek sv \<noteq> CHR ''-'', if peek sv = CHR ''-'' \<or> peek sv = CHR ''+'' then tl sv else sv)"

definition term_brace :: "cstring \<Rightarrow> term_command option" where
  "term_brace sv =
     (if length sv < 2 \<or> sv ! 1 = CHR '' ''
      then if peek sv = CHR ''('' then Some fcOpeningBrace
           else if peek sv = CHR '')'' then Some fcClosingBrace
           else if peek sv = CHR ''|'' then Some fcOrOperator else None
      else None)"

definition term_field :: "cstring \<Rightarrow> cstring option \<times> cstring" where
  "term_field sv =
     (if peek sv \<in> set ''@$<>='' \<or> CHR '':'' \<notin> set sv then (None, sv)
      else (let name = takeWhile (\<lambda>c. c \<noteq> CHR '':'') sv
            in (Some (cstring_set sv (int (length name))), drop (Suc (length name)) sv)))"

definition term_operator :: "cstring \<Rightarrow> term_command \<times> cstring" where
  "term_operator sv =
     (if peek sv = CHR ''@'' then (fcText, tl sv)
      else if peek sv = CHR ''$'' then (fcRegex, tl sv)
      else if peek sv = CHR ''='' then (fcEqual, tl sv)
      else if starts_with ''<='' sv then (fcLessEqual, drop 2 sv)
      else if starts_with ''>='' sv then (fcGreaterEqual, drop 2 sv)
      else if peek sv = CHR ''<'' then (fcLess, tl sv)
      else if peek sv = CHR ''>'' then (fcGreater, tl sv)
      else (fcText, sv))"

definition compile_body :: "bool \<Rightarrow> bool \<Rightarrow> cstring \<Rightarrow> feed_term option" where
  "compile_body rvs positive sv =
     (if sv = [] then None
      else case term_brace sv of
        Some cmd \<Rightarrow> Some ((new_term rvs)\<lparr>tm_positive := positive, tm_command := cmd\<rparr>)
      | None \<Rightarrow>
          (let (field, sv) = term_field sv
           in if sv = [] then None
              else (let (cmd, sv) = term_operator sv;
                        t = (new_term rvs)\<lparr>tm_positive := positive, tm_field := field, tm_command := cmd\<rparr>
                    in if field_of field = None then None
                       else map_option (\<lambda>t. t\<lparr>tm_param := sv\<rparr>)
                              (case field of None \<Rightarrow> Some t | Some name \<Rightarrow> parse_param name sv t))))"

definition compile_term :: "bool \<Rightarrow> cstring \<Rightarrow> feed_term option" where
  "compile_term rvs token = (let (positive, sv) = term_sign token in compile_body rvs positive sv)"

section \<open>Matching a term\<close>

text \<open>\<open>FillWildMaskRefValues\<close> and \<open>FillRegExRefValues\<close>: the pieces of the text that can be used in the options.\<close>

definition ref_value :: "cstring \<Rightarrow> int \<times> int \<Rightarrow> cstring" where
  "ref_value s = (\<lambda>(start, len). cstring_set (drop (nat start) s) len)"

definition fill_refs :: "feed_term \<Rightarrow> cstring \<Rightarrow> (int \<times> int) list \<Rightarrow> nat \<Rightarrow> cstring list \<Rightarrow> cstring list" where
  "fill_refs t s marks offset rvs = (if tm_refs t then rvs @ map (ref_value s) (drop offset marks) else rvs)"

definition word_separators :: cstring where
  "word_separators = '' !'' @ [dquote] @ ''#$%&'' @ [squote] @ ''()*+,-./:;<=>?@['' @ [bslash] @ '']^_`{|}~''"

definition substring_search :: "cstring \<Rightarrow> bool" where
  "substring_search param \<longleftrightarrow>
     (2 \<le> length param \<and> hd param = CHR ''*'' \<and> List.last param = CHR ''*'') \<or>
     (\<exists>c\<in>set param. c \<in> set word_separators \<and> c \<noteq> CHR ''*'' \<and> c \<noteq> CHR ''?'' \<and> c \<noteq> CHR ''#'')"

text \<open>The mask of a search for a part, and the first of its positions that counts.\<close>

definition substring_mask :: "cstring \<Rightarrow> cstring \<times> nat" where
  "substring_mask param =
     (if 2 \<le> length param \<and> hd param = CHR ''*'' \<and> List.last param = CHR ''*'' then (param, 0)
      else if 1 \<le> length param \<and> hd param = CHR ''*'' then (param @ ''*'', 0)
      else if 1 \<le> length param \<and> List.last param = CHR ''*'' then (CHR ''*'' # param, 1)
      else (CHR ''*'' # param @ ''*'', 1))"

fun match_words :: "feed_term \<Rightarrow> cstring list \<Rightarrow> cstring list \<Rightarrow> bool \<times> cstring list" where
  "match_words t [] rvs = (False, rvs)"
| "match_words t (word # ws) rvs =
     (case wild_match (tm_refs t) (tm_param t) word of
        Some marks \<Rightarrow> (True, fill_refs t word marks 0 rvs)
      | None \<Rightarrow> match_words t ws rvs)"

definition match_text :: "feed_term \<Rightarrow> cstring \<Rightarrow> cstring list \<Rightarrow> bool \<times> cstring list" where
  "match_text t s rvs =
     (if \<not> substring_search (tm_param t) then match_words t (tokens word_separators s) rvs
      else (let (pattern, offset) = substring_mask (tm_param t)
            in case wild_match (tm_refs t) pattern s of
                 Some marks \<Rightarrow> (True, fill_refs t s marks offset rvs)
               | None \<Rightarrow> (False, rvs)))"

definition match_regex :: "regexec \<Rightarrow> feed_term \<Rightarrow> cstring \<Rightarrow> cstring list \<Rightarrow> bool \<times> cstring list" where
  "match_regex rx t s rvs =
     (case regex_match rx (tm_param t) (if tm_refs t then 100 else 0) s of
        Some groups \<Rightarrow> (True, fill_refs t s groups 1 rvs)
      | None \<Rightarrow> (False, rvs))"

definition compare_with :: "feed_term \<Rightarrow> (rat \<Rightarrow> rat \<Rightarrow> bool) \<Rightarrow> (int \<Rightarrow> int \<Rightarrow> bool) \<Rightarrow> rat \<Rightarrow> int \<Rightarrow> bool" where
  "compare_with t relf reli x n = (if tm_float t then relf x (tm_floatParam t) else reli n (tm_intParam t))"

text \<open>\<open>Term::MatchValue\<close>: a number is printed for the search of a text, a text is read for a comparison.\<close>

definition match_value ::
  "regexec \<Rightarrow> feed_term \<Rightarrow> cstring option \<times> int \<Rightarrow> cstring list \<Rightarrow> bool \<times> cstring list" where
  "match_value rx t data rvs =
     (let (str, n) = data;
          s = (case str of Some s \<Rightarrow> s | None \<Rightarrow> show_int n);
          x = (case str of Some s \<Rightarrow> atof s | None \<Rightarrow> double (of_int n));
          m = (case str of Some s \<Rightarrow> int_of_double (atof s) | None \<Rightarrow> n)
      in case tm_command t of
           fcText \<Rightarrow> match_text t s rvs
         | fcRegex \<Rightarrow> match_regex rx t s rvs
         | fcEqual \<Rightarrow> (compare_with t (=) (=) x m, rvs)
         | fcLess \<Rightarrow> (compare_with t (<) (<) x m, rvs)
         | fcLessEqual \<Rightarrow> (compare_with t (\<le>) (\<le>) x m, rvs)
         | fcGreater \<Rightarrow> (compare_with t (>) (>) x m, rvs)
         | fcGreaterEqual \<Rightarrow> (compare_with t (\<ge>) (\<ge>) x m, rvs)
         | _ \<Rightarrow> (False, rvs))"

text \<open>\<open>Term::Match\<close>: with the item after it and the pieces found so far.\<close>

definition match_term ::
  "feed_env \<Rightarrow> feed_term \<Rightarrow> feed_item \<Rightarrow> cstring list \<Rightarrow> bool \<times> feed_item \<times> cstring list" where
  "match_term env t it rvs =
     (case field_of (tm_field t) of
        None \<Rightarrow> (False, it, rvs)
      | Some f \<Rightarrow>
          (let (data, it) = field_data env f it; (match, rvs) = match_value (fe_regexec env) t data rvs
           in (tm_positive t = match, it, rvs)))"


section \<open>Compiled terms\<close>

definition brace_command :: "term_command \<Rightarrow> bool" where
  "brace_command c \<longleftrightarrow> c = fcOpeningBrace \<or> c = fcClosingBrace \<or> c = fcOrOperator"

text \<open>The parameter of a comparison fits the field: a size, an age, or a plain number.\<close>

definition param_typed :: "feed_term \<Rightarrow> cstring \<Rightarrow> bool" where
  "param_typed t name \<longleftrightarrow>
     (if strcase_eq name ''size'' then parse_size_param (tm_param t) = Some (tm_intParam t) \<and> \<not> tm_float t
      else if strcase_eq name ''age'' then parse_age_param (tm_param t) = Some (tm_intParam t) \<and> \<not> tm_float t
      else numeric_command (tm_command t) \<longrightarrow>
             numeric_param (tm_param t) \<and> tm_floatParam t = atof (tm_param t) \<and>
             tm_intParam t = int_of_double (atof (tm_param t)) \<and> tm_float t = (CHR ''.'' \<in> set (tm_param t)))"

definition term_typed :: "feed_term \<Rightarrow> bool" where
  "term_typed t \<longleftrightarrow>
     (\<not> brace_command (tm_command t) \<longrightarrow>
        field_of (tm_field t) \<noteq> None \<and> (\<forall>name. tm_field t = Some name \<longrightarrow> param_typed t name))"

lemma term_operator_no_brace: "\<not> brace_command (fst (term_operator sv))"
  by (simp add: term_operator_def brace_command_def)

lemma parse_param_typed:
  assumes "parse_param name sv t = Some t'" and "\<not> tm_float t"
  shows "tm_field t' = tm_field t" "tm_command t' = tm_command t" "param_typed (t'\<lparr>tm_param := sv\<rparr>) name"
  using assms by (auto simp: parse_param_def param_typed_def split: if_splits)

lemma compile_body_typed:
  assumes "compile_body rvs positive sv = Some t"
  shows "term_typed t"
proof (cases "term_brace sv")
  case (Some cmd)
  then have "brace_command cmd" by (auto simp: term_brace_def brace_command_def split: if_splits)
  then show ?thesis using assms Some by (auto simp: compile_body_def term_typed_def split: if_splits)
next
  case None
  obtain field sv' where f: "term_field sv = (field, sv')" by fastforce
  obtain cmd sv'' where o: "term_operator sv' = (cmd, sv'')" by fastforce
  define t0 where "t0 = (new_term rvs)\<lparr>tm_positive := positive, tm_field := field, tm_command := cmd\<rparr>"
  have c: "field_of field \<noteq> None" "map_option (\<lambda>t. t\<lparr>tm_param := sv''\<rparr>)
      (case field of None \<Rightarrow> Some t0 | Some name \<Rightarrow> parse_param name sv'' t0) = Some t"
    using assms None f o unfolding compile_body_def t0_def by (auto simp: Let_def split: if_splits)
  have t0: "tm_field t0 = field" "tm_command t0 = cmd" "\<not> tm_float t0" by (simp_all add: t0_def new_term_def)
  show ?thesis
  proof (cases field)
    case None
    then show ?thesis using c t0 by (auto simp: term_typed_def)
  next
    case (Some name)
    then obtain t1 where "parse_param name sv'' t0 = Some t1" "t = t1\<lparr>tm_param := sv''\<rparr>" using c(2) by auto
    then show ?thesis using parse_param_typed [of name sv'' t0 t1] t0 c(1) Some by (simp add: term_typed_def)
  qed
qed


lemma compile_sample:
  "compile_term False ''-size:>=2K'' =
     Some \<lparr>tm_positive = False, tm_field = Some ''size'', tm_command = fcGreaterEqual, tm_param = ''2K'',
           tm_intParam = 2048, tm_floatParam = 0, tm_float = False, tm_refs = False\<rparr>"
  by code_simp


text \<open>The sign is the only difference between a term and its negation.\<close>

lemma compile_body_positive:
  "compile_body rvs p sv = map_option (\<lambda>t. t\<lparr>tm_positive := p\<rparr>) (compile_body rvs q sv)"
proof (cases "term_brace sv")
  case (Some cmd)
  then show ?thesis by (simp add: compile_body_def)
next
  case None
  have pp: "parse_param name s (t\<lparr>tm_positive := p\<rparr>) = map_option (\<lambda>t. t\<lparr>tm_positive := p\<rparr>) (parse_param name s t)"
    for name s t by (cases "parse_size_param s"; cases "parse_age_param s") (simp_all add: parse_param_def)
  obtain field sv' where f: "term_field sv = (field, sv')" by fastforce
  obtain cmd sv'' where o: "term_operator sv' = (cmd, sv'')" by fastforce
  have sw: "map_option (\<lambda>x :: feed_term. x\<lparr>tm_positive := p, tm_param := w\<rparr>) r =
      map_option (\<lambda>x. x\<lparr>tm_param := w, tm_positive := p\<rparr>) r" for w r
    by (cases r) simp_all
  show ?thesis
    using None f o sw pp [of _ sv'' "(new_term rvs)\<lparr>tm_positive := q, tm_field := field, tm_command := cmd\<rparr>"]
    by (cases field) (simp_all add: new_term_def compile_body_def Let_def option.map_comp comp_def)
qed

lemma match_value_sign:
  "match_value rx (t\<lparr>tm_positive := p\<rparr>) data rvs = match_value rx t data rvs"
proof -
  have f: "fill_refs (t\<lparr>tm_positive := p\<rparr>) = fill_refs t" by (simp add: fill_refs_def fun_eq_iff)
  have w: "match_words (t\<lparr>tm_positive := p\<rparr>) ws rvs = match_words t ws rvs" for ws rvs
    by (induction ws) (simp_all add: f split: option.splits)
  have "match_text (t\<lparr>tm_positive := p\<rparr>) = match_text t" "compare_with (t\<lparr>tm_positive := p\<rparr>) = compare_with t"
    "match_regex rx (t\<lparr>tm_positive := p\<rparr>) = match_regex rx t"
    by (simp_all add: match_text_def compare_with_def match_regex_def f w fun_eq_iff split: option.splits prod.splits)
  then show ?thesis by (simp add: match_value_def Let_def split: term_command.split prod.split)
qed

text \<open>A term with a minus matches exactly the items that the term without it does not match, and leaves the same
  item and pieces.\<close>

theorem negated_term_complement:
  assumes "compile_term rvs token = Some t" and "\<not> brace_command (tm_command t)"
    and "peek token \<noteq> CHR ''-''" and "peek token \<noteq> CHR ''+''"
  shows "\<exists>t'. compile_term rvs (CHR ''-'' # token) = Some t' \<and>
           (\<forall>env it rs. fst (match_term env t' it rs) = (\<not> fst (match_term env t it rs)) \<and>
                        snd (match_term env t' it rs) = snd (match_term env t it rs))"
proof -
  have c: "compile_body rvs True token = Some t" using assms(1,3,4) by (simp add: compile_term_def term_sign_def)
  have p: "tm_positive t" using compile_body_positive [of rvs True token True] c by (cases t) auto
  have "compile_term rvs (CHR ''-'' # token) = Some (t\<lparr>tm_positive := False\<rparr>)"
    using c compile_body_positive [of rvs False token True] by (simp add: compile_term_def term_sign_def)
  moreover obtain f where "field_of (tm_field t) = Some f"
    using compile_body_typed [OF c] assms(2) by (auto simp: term_typed_def)
  ultimately show ?thesis using p by (simp add: match_term_def match_value_sign split: prod.splits)
qed

theorem negated_term_complement_witness:
  "\<exists>t'. compile_term False (CHR ''-'' # ''size:>=2K'') = Some t' \<and>
     (\<forall>env it rs. fst (match_term env t' it rs) =
        (\<not> fst (match_term env \<lparr>tm_positive = True, tm_field = Some ''size'', tm_command = fcGreaterEqual,
           tm_param = ''2K'', tm_intParam = 2048, tm_floatParam = 0, tm_float = False, tm_refs = False\<rparr> it rs)) \<and>
      snd (match_term env t' it rs) = snd (match_term env \<lparr>tm_positive = True, tm_field = Some ''size'',
        tm_command = fcGreaterEqual, tm_param = ''2K'', tm_intParam = 2048, tm_floatParam = 0, tm_float = False,
        tm_refs = False\<rparr> it rs))"
proof (rule negated_term_complement)
  show "compile_term False ''size:>=2K'' = Some \<lparr>tm_positive = True, tm_field = Some ''size'',
    tm_command = fcGreaterEqual, tm_param = ''2K'', tm_intParam = 2048, tm_floatParam = 0, tm_float = False,
    tm_refs = False\<rparr>" by code_simp
qed (simp_all add: brace_command_def)

text \<open>A comparison without field is not checked: its parameter is not read, and the title is compared with 0.\<close>

lemma comparison_without_field:
  "compile_term False ''=5'' =
     Some \<lparr>tm_positive = True, tm_field = None, tm_command = fcEqual, tm_param = ''5'', tm_intParam = 0,
           tm_floatParam = 0, tm_float = False, tm_refs = False\<rparr>"
  "fst (match_value rx (the (compile_term False ''=5'')) (Some ''5'', 0) []) = False"
  "fst (match_value rx (the (compile_term False ''=5'')) (Some ''0'', 0) []) = True"
proof -
  show c: "compile_term False ''=5'' =
     Some \<lparr>tm_positive = True, tm_field = None, tm_command = fcEqual, tm_param = ''5'', tm_intParam = 0,
           tm_floatParam = 0, tm_float = False, tm_refs = False\<rparr>" by code_simp
  have "int_of_double (atof ''5'') = 5" "int_of_double (atof ''0'') = 0" by code_simp+
  then show "fst (match_value rx (the (compile_term False ''=5'')) (Some ''5'', 0) []) = False"
    "fst (match_value rx (the (compile_term False ''=5'')) (Some ''0'', 0) []) = True"
    unfolding c by (simp_all add: match_value_def compare_with_def)
qed

text \<open>A piece of the text that is empty becomes the rest of the text: for the mask \<open>*b*\<close> and the text \<open>bc\<close> the
  first star stands for nothing, but its piece is \<open>bc\<close>.\<close>

lemma empty_piece:
  "wild_match True ''*b*'' ''bc'' = Some [(0, 0), (1, 1)]" "ref_value ''bc'' (0, 0) = ''bc''"
  by code_simp+

end
