(* ===== verification/FeedRule.thy ===== *)
theory FeedRule
  imports FeedTerm
begin

text \<open>
  The rules of the feed filter (\<open>daemon/feed/FeedFilter.cpp\<close>, classes \<open>FeedFilter::Rule\<close> and \<open>FeedFilter\<close>):
  compiling a rule with its command, options and terms, matching it, and the choice of the rule that decides about
  an item.
\<close>

section \<open>The data of a rule\<close>

datatype rule_command = frAccept | frReject | frRequire | frOptions | frComment

record feed_rule =
  fr_isValid :: bool
  fr_command :: rule_command
  fr_category :: cstring
  fr_priority :: int
  fr_addPriority :: int
  fr_pause :: bool
  fr_dupeScore :: int
  fr_addDupeScore :: int
  fr_dupeKey :: cstring
  fr_addDupeKey :: cstring
  fr_dupeMode :: dupe_mode
  fr_series :: cstring
  fr_rageId :: cstring
  fr_tvdbId :: cstring
  fr_tvmazeId :: cstring
  fr_hasCategory :: bool
  fr_hasPriority :: bool
  fr_hasAddPriority :: bool
  fr_hasPause :: bool
  fr_hasDupeScore :: bool
  fr_hasAddDupeScore :: bool
  fr_hasDupeKey :: bool
  fr_hasAddDupeKey :: bool
  fr_hasDupeMode :: bool
  fr_hasPatCategory :: bool
  fr_hasPatDupeKey :: bool
  fr_hasPatAddDupeKey :: bool
  fr_hasSeries :: bool
  fr_hasRageId :: bool
  fr_hasTvdbId :: bool
  fr_hasTvmazeId :: bool
  fr_patCategory :: cstring
  fr_patDupeKey :: cstring
  fr_patAddDupeKey :: cstring
  fr_terms :: "feed_term list"

definition new_rule :: feed_rule where
  "new_rule =
     \<lparr>fr_isValid = False, fr_command = frAccept, fr_category = [], fr_priority = 0, fr_addPriority = 0,
      fr_pause = False, fr_dupeScore = 0, fr_addDupeScore = 0, fr_dupeKey = [], fr_addDupeKey = [],
      fr_dupeMode = dmScore, fr_series = [], fr_rageId = [], fr_tvdbId = [], fr_tvmazeId = [],
      fr_hasCategory = False, fr_hasPriority = False, fr_hasAddPriority = False, fr_hasPause = False,
      fr_hasDupeScore = False, fr_hasAddDupeScore = False, fr_hasDupeKey = False, fr_hasAddDupeKey = False,
      fr_hasDupeMode = False, fr_hasPatCategory = False, fr_hasPatDupeKey = False, fr_hasPatAddDupeKey = False,
      fr_hasSeries = False, fr_hasRageId = False, fr_hasTvdbId = False, fr_hasTvmazeId = False,
      fr_patCategory = [], fr_patDupeKey = [], fr_patAddDupeKey = [], fr_terms = []\<rparr>"

section \<open>Options\<close>

definition any_of :: "cstring \<Rightarrow> cstring list \<Rightarrow> bool" where
  "any_of s names \<longleftrightarrow> (\<exists>n\<in>set names. strcase_eq s n)"

definition has_pattern :: "cstring \<Rightarrow> bool" where
  "has_pattern s \<longleftrightarrow> strstr s ''${'' \<noteq> None"

definition number_start :: "cstring \<Rightarrow> bool" where
  "number_start s \<longleftrightarrow> strchr_in ''0123456789-+'' (peek s)"

text \<open>An option is cut at its colon.\<close>

definition option_parts :: "cstring \<Rightarrow> cstring \<times> cstring" where
  "option_parts opt =
     (case strchr opt (CHR '':'') of
        None \<Rightarrow> (opt, [])
      | Some c \<Rightarrow> (takeWhile (\<lambda>c. c \<noteq> CHR '':'') opt, trim (tl c)))"

definition pause_option :: "cstring \<Rightarrow> feed_rule \<Rightarrow> feed_rule option" where
  "pause_option value r =
     (let pause = (value = [] \<or> any_of value [''yes'', ''y''])
      in if \<not> pause \<and> \<not> any_of value [''no'', ''n''] then None
         else Some (r\<lparr>fr_hasPause := True, fr_pause := pause\<rparr>))"

definition mode_option :: "cstring \<Rightarrow> feed_rule \<Rightarrow> feed_rule option" where
  "mode_option value r =
     (let r = r\<lparr>fr_hasDupeMode := True\<rparr>
      in if any_of value [''score'', ''s''] then Some (r\<lparr>fr_dupeMode := dmScore\<rparr>)
         else if any_of value [''all'', ''a''] then Some (r\<lparr>fr_dupeMode := dmAll\<rparr>)
         else if any_of value [''force'', ''f''] then Some (r\<lparr>fr_dupeMode := dmForce\<rparr>)
         else None)"

text \<open>The names of older versions: a pause, a number as priority, anything else as category.\<close>

definition old_option :: "cstring \<Rightarrow> feed_rule \<Rightarrow> feed_rule" where
  "old_option opt r =
     (if any_of opt [''paused'', ''unpaused''] then r\<lparr>fr_hasPause := True, fr_pause := strcase_eq opt ''paused''\<rparr>
      else if number_start opt then r\<lparr>fr_hasPriority := True, fr_priority := atoi_c opt\<rparr>
      else r\<lparr>fr_hasCategory := True, fr_category := opt\<rparr>)"

definition compile_option :: "cstring \<Rightarrow> feed_rule \<Rightarrow> feed_rule option" where
  "compile_option token r =
     (let (opt, value) = option_parts token
      in if any_of opt [''category'', ''cat'', ''c'']
         then Some (r\<lparr>fr_hasCategory := True, fr_category := value, fr_hasPatCategory := has_pattern value\<rparr>)
         else if any_of opt [''pause'', ''p''] then pause_option value r
         else if any_of opt [''priority'', ''pr'', ''r'']
         then if number_start value then Some (r\<lparr>fr_hasPriority := True, fr_priority := atoi_c value\<rparr>) else None
         else if any_of opt [''priority+'', ''pr+'', ''r+'']
         then if number_start value then Some (r\<lparr>fr_hasAddPriority := True, fr_addPriority := atoi_c value\<rparr>) else None
         else if any_of opt [''dupescore'', ''ds'', ''s'']
         then if number_start value then Some (r\<lparr>fr_hasDupeScore := True, fr_dupeScore := atoi_c value\<rparr>) else None
         else if any_of opt [''dupescore+'', ''ds+'', ''s+'']
         then if number_start value then Some (r\<lparr>fr_hasAddDupeScore := True, fr_addDupeScore := atoi_c value\<rparr>) else None
         else if any_of opt [''dupekey'', ''dk'', ''k'']
         then Some (r\<lparr>fr_hasDupeKey := True, fr_dupeKey := value, fr_hasPatDupeKey := has_pattern value\<rparr>)
         else if any_of opt [''dupekey+'', ''dk+'', ''k+'']
         then Some (r\<lparr>fr_hasAddDupeKey := True, fr_addDupeKey := value, fr_hasPatAddDupeKey := has_pattern value\<rparr>)
         else if any_of opt [''dupemode'', ''dm'', ''m''] then mode_option value r
         else if strcase_eq opt ''rageid'' then Some (r\<lparr>fr_hasRageId := True, fr_rageId := value\<rparr>)
         else if strcase_eq opt ''tvdbid'' then Some (r\<lparr>fr_hasTvdbId := True, fr_tvdbId := value\<rparr>)
         else if strcase_eq opt ''tvmazeid'' then Some (r\<lparr>fr_hasTvmazeId := True, fr_tvmazeId := value\<rparr>)
         else if strcase_eq opt ''series'' then Some (r\<lparr>fr_hasSeries := True, fr_series := value\<rparr>)
         else Some (old_option opt r))"

fun compile_option_list :: "cstring list \<Rightarrow> feed_rule \<Rightarrow> feed_rule option" where
  "compile_option_list [] r = Some r"
| "compile_option_list (opt # opts) r = Option.bind (compile_option opt r) (compile_option_list opts)"

text \<open>\<open>CompileOptions\<close>: up to the closing brace; with the text behind it and behind a colon.\<close>

definition compile_options :: "cstring \<Rightarrow> feed_rule \<Rightarrow> (feed_rule \<times> cstring) option" where
  "compile_options s r =
     (case strchr s (CHR '')'') of
        None \<Rightarrow> None
      | Some p \<Rightarrow>
          map_option (\<lambda>r. (r, if peek (tl p) = CHR '':'' then tl (tl p) else tl p))
            (compile_option_list (tokens '','' (takeWhile (\<lambda>c. c \<noteq> CHR '')'') s)) r))"

section \<open>Compiling a rule\<close>

text \<open>\<open>CompileCommand\<close>: the command at the start of the rule, in its short and its long form.\<close>

definition after_command :: "nat \<Rightarrow> cstring \<Rightarrow> cstring" where
  "after_command n s = drop (if s ! 1 = CHR '':'' \<or> s ! 1 = CHR ''('' then 2 else n) s"

definition command_of :: "cstring \<Rightarrow> (rule_command \<times> nat) option" where
  "command_of s =
     (if strncase_eq s ''A:'' 2 \<or> strncase_eq s ''Accept:'' 7 \<or> strncase_eq s ''A('' 2 \<or> strncase_eq s ''Accept('' 7
      then Some (frAccept, 7)
      else if strncase_eq s ''O('' 2 \<or> strncase_eq s ''Options('' 8 then Some (frOptions, 8)
      else if strncase_eq s ''R:'' 2 \<or> strncase_eq s ''Reject:'' 7 then Some (frReject, 7)
      else if strncase_eq s ''Q:'' 2 \<or> strncase_eq s ''Require:'' 8 then Some (frRequire, 8)
      else None)"

definition compile_command :: "cstring \<Rightarrow> feed_rule \<Rightarrow> (feed_rule \<times> cstring) option" where
  "compile_command s r =
     (case command_of s of
        Some (cmd, n) \<Rightarrow>
          (let r = r\<lparr>fr_command := cmd\<rparr>; t = after_command n s
           in if (cmd = frAccept \<or> cmd = frOptions) \<and> s ! (length s - length t - 1) = CHR ''(''
              then compile_options t r else Some (r, t))
      | None \<Rightarrow> Some (if peek s = CHR ''#'' then r\<lparr>fr_command := frComment\<rparr> else r, s))"

text \<open>The terms of a rule stand between blanks.\<close>

function term_pieces :: "cstring \<Rightarrow> cstring list" where
  "term_pieces s =
     (case dropWhile (\<lambda>c. c \<noteq> CHR '' '') s of
        [] \<Rightarrow> [s]
      | b # t \<Rightarrow> takeWhile (\<lambda>c. c \<noteq> CHR '' '') s # term_pieces (dropWhile (\<lambda>c. c = CHR '' '') t))"
  by pat_completeness auto
termination
proof (relation "measure length")
  fix s b t assume "dropWhile (\<lambda>c. c \<noteq> CHR '' '') s = b # t"
  then have "length t < length s" using length_dropWhile_le [of "\<lambda>c. c \<noteq> CHR '' ''" s] by simp
  then show "(dropWhile (\<lambda>c. c = CHR '' '') t, s) \<in> measure length"
    using length_dropWhile_le [of "\<lambda>c. c = CHR '' ''" t] by simp
qed simp

declare term_pieces.simps [simp del]

fun compile_terms :: "bool \<Rightarrow> cstring list \<Rightarrow> feed_rule \<Rightarrow> feed_rule" where
  "compile_terms want [] r = r"
| "compile_terms want (p # ps) r =
     (case compile_term want p of
        None \<Rightarrow> r\<lparr>fr_isValid := False\<rparr>
      | Some t \<Rightarrow> compile_terms want ps (r\<lparr>fr_terms := fr_terms r @ [t]\<rparr>))"

text \<open>The options with references become patterns, and are empty until the rule has matched.\<close>

definition bind_patterns :: "feed_rule \<Rightarrow> feed_rule" where
  "bind_patterns r =
     (let r = (if fr_isValid r \<and> fr_hasPatCategory r then r\<lparr>fr_patCategory := fr_category r, fr_category := []\<rparr> else r);
          r = (if fr_isValid r \<and> fr_hasPatDupeKey r then r\<lparr>fr_patDupeKey := fr_dupeKey r, fr_dupeKey := []\<rparr> else r)
      in if fr_isValid r \<and> fr_hasPatAddDupeKey r then r\<lparr>fr_patAddDupeKey := fr_addDupeKey r, fr_addDupeKey := []\<rparr>
         else r)"

definition wants_refs :: "feed_rule \<Rightarrow> bool" where
  "wants_refs r \<longleftrightarrow> fr_hasPatCategory r \<or> fr_hasPatDupeKey r \<or> fr_hasPatAddDupeKey r"

text \<open>\<open>Rule::Compile\<close>. After an error in the options the rule is not used any more, whatever it holds.\<close>

definition compile_rule :: "cstring \<Rightarrow> feed_rule" where
  "compile_rule rule =
     (case compile_command (trim rule) (new_rule\<lparr>fr_isValid := True\<rparr>) of
        None \<Rightarrow> new_rule
      | Some (r, t) \<Rightarrow>
          if fr_command r = frComment then r
          else bind_patterns (compile_terms (wants_refs r) (term_pieces (trim t)) r))"

section \<open>Matching a rule\<close>

text \<open>\<open>Rule::MatchExpression\<close>: all terms are matched, in order, and give the text of the expression.\<close>

fun expr_chars :: "feed_env \<Rightarrow> feed_term list \<Rightarrow> feed_item \<Rightarrow> cstring list \<Rightarrow> cstring \<times> feed_item \<times> cstring list" where
  "expr_chars env [] it rvs = ([], it, rvs)"
| "expr_chars env (t # ts) it rvs =
     (case tm_command t of
        fcOpeningBrace \<Rightarrow> (let (s, x) = expr_chars env ts it rvs in (CHR ''('' # s, x))
      | fcClosingBrace \<Rightarrow> (let (s, x) = expr_chars env ts it rvs in (CHR '')'' # s, x))
      | fcOrOperator \<Rightarrow> (let (s, x) = expr_chars env ts it rvs in (CHR ''|'' # s, x))
      | _ \<Rightarrow>
          (let (b, it, rvs) = match_term env t it rvs; (s, x) = expr_chars env ts it rvs
           in (truth_char b # s, x)))"

definition match_terms :: "feed_env \<Rightarrow> feed_rule \<Rightarrow> feed_item \<Rightarrow> bool \<times> feed_item \<times> cstring list" where
  "match_terms env r it =
     (let (expr, it, rvs) = expr_chars env (fr_terms r) it []
      in (match_expression expr = Some True, it, rvs))"

text \<open>\<open>GetRefValue\<close> and \<open>ExpandRefValues\<close>: at most a hundred references are replaced.\<close>

definition get_ref_value :: "regexec \<Rightarrow> cstring list \<Rightarrow> cstring \<Rightarrow> feed_item \<Rightarrow> cstring option \<times> feed_item" where
  "get_ref_value rx rvs name it =
     (if strcase_eq name ''season'' then (let it = snd (get_season_num rx it) in (Some (fit_season it), it))
      else if strcase_eq name ''episode'' then (let it = snd (get_episode_num rx it) in (Some (fit_episode it), it))
      else (let i = atoi_c name - 1
            in (if 0 \<le> i \<and> i < int (length rvs) then Some (rvs ! nat i) else None, it)))"

fun expand_refs :: "regexec \<Rightarrow> cstring list \<Rightarrow> nat \<Rightarrow> cstring \<Rightarrow> feed_item \<Rightarrow> cstring \<times> feed_item" where
  "expand_refs rx rvs 0 cur it = (cur, it)"
| "expand_refs rx rvs (Suc n) cur it =
     (case strstr cur ''${'' of
        None \<Rightarrow> (cur, it)
      | Some dollar \<Rightarrow>
          if CHR ''}'' \<notin> set dollar then (cur, it)
          else (let varlen = length (takeWhile (\<lambda>c. c \<noteq> CHR ''}'') dollar) - 2;
                    (val, it) = get_ref_value rx rvs (bstring_set 100 (drop 2 dollar) (int varlen)) it
                in case val of
                     None \<Rightarrow> (cur, it)
                   | Some v \<Rightarrow>
                       expand_refs rx rvs n
                         (take (length cur - length dollar) cur @ v @ drop (varlen + 3) dollar) it))"

definition expand_ref_values :: "regexec \<Rightarrow> cstring list \<Rightarrow> cstring \<Rightarrow> feed_item \<Rightarrow> cstring \<times> feed_item" where
  "expand_ref_values rx rvs pat it = expand_refs rx rvs 100 pat it"

text \<open>\<open>Rule::Match\<close>, with the rule whose options have been filled in.\<close>

definition match_rule :: "feed_env \<Rightarrow> feed_rule \<Rightarrow> feed_item \<Rightarrow> bool \<times> feed_rule \<times> feed_item" where
  "match_rule env r it =
     (let rx = fe_regexec env;
          (match, it, rvs) = match_terms env r it
      in if \<not> match then (False, r, it)
         else (let (r, it) = (if fr_hasPatCategory r
                 then (let (v, it) = expand_ref_values rx rvs (fr_patCategory r) it in (r\<lparr>fr_category := v\<rparr>, it))
                 else (r, it));
               (r, it) = (if fr_hasPatDupeKey r
                 then (let (v, it) = expand_ref_values rx rvs (fr_patDupeKey r) it in (r\<lparr>fr_dupeKey := v\<rparr>, it))
                 else (r, it));
               (r, it) = (if fr_hasPatAddDupeKey r
                 then (let (v, it) = expand_ref_values rx rvs (fr_patAddDupeKey r) it in (r\<lparr>fr_addDupeKey := v\<rparr>, it))
                 else (r, it))
               in (True, r, it)))"

section \<open>The filter\<close>

definition compile_filter :: "cstring \<Rightarrow> feed_rule list" where
  "compile_filter s = map compile_rule (pieces (\<lambda>c. c = CHR ''%'') s)"

text \<open>\<open>ApplyOptions\<close>.\<close>

definition apply_score_options :: "feed_rule \<Rightarrow> feed_item \<Rightarrow> feed_item" where
  "apply_score_options r it =
     (let it = (if fr_hasPause r then it\<lparr>fit_pauseNzb := fr_pause r\<rparr> else it);
          it = (if fr_hasCategory r then it\<lparr>fit_addCategory := fr_category r\<rparr> else it);
          it = (if fr_hasPriority r then it\<lparr>fit_priority := fr_priority r\<rparr> else it);
          it = (if fr_hasAddPriority r then it\<lparr>fit_priority := int32 (fit_priority it + fr_addPriority r)\<rparr> else it);
          it = (if fr_hasDupeScore r then it\<lparr>fit_dupeScore := fr_dupeScore r\<rparr> else it)
      in if fr_hasAddDupeScore r then it\<lparr>fit_dupeScore := int32 (fit_dupeScore it + fr_addDupeScore r)\<rparr> else it)"

definition apply_key_options :: "regexec \<Rightarrow> feed_rule \<Rightarrow> feed_item \<Rightarrow> feed_item" where
  "apply_key_options rx r it =
     (let it = (if fr_hasRageId r \<or> fr_hasTvdbId r \<or> fr_hasTvmazeId r \<or> fr_hasSeries r
                then build_dupe_key rx (fr_rageId r) (fr_tvdbId r) (fr_tvmazeId r) (fr_series r) it else it);
          it = (if fr_hasDupeKey r then it\<lparr>fit_dupeKey := fr_dupeKey r\<rparr> else it);
          it = (if fr_hasAddDupeKey r then append_dupe_key (fr_addDupeKey r) it else it)
      in if fr_hasDupeMode r then it\<lparr>fit_dupeMode := fr_dupeMode r\<rparr> else it)"

definition apply_options :: "regexec \<Rightarrow> feed_rule \<Rightarrow> feed_item \<Rightarrow> feed_item" where
  "apply_options rx r it = apply_key_options rx r (apply_score_options r it)"

definition set_match :: "match_status \<Rightarrow> nat \<Rightarrow> feed_item \<Rightarrow> feed_item" where
  "set_match st n it = it\<lparr>fit_matchStatus := st, fit_matchRule := int n\<rparr>"

text \<open>One valid rule: the item after it, and whether the filter ends here.\<close>

definition rule_step :: "feed_env \<Rightarrow> nat \<Rightarrow> feed_rule \<Rightarrow> feed_item \<Rightarrow> bool \<times> feed_item" where
  "rule_step env n r it =
     (let (match, r, it) = match_rule env r it
      in case fr_command r of
           frAccept \<Rightarrow> if match then (True, apply_options (fe_regexec env) r (set_match msAccepted n it)) else (False, it)
         | frOptions \<Rightarrow> (False, if match then apply_options (fe_regexec env) r (set_match msAccepted n it) else it)
         | frReject \<Rightarrow> if match then (True, set_match msRejected n it) else (False, it)
         | frRequire \<Rightarrow> if match then (False, it) else (True, set_match msRejected n it)
         | frComment \<Rightarrow> (False, it))"

text \<open>\<open>FeedFilter::Match\<close>: the loop over the rules, counted from 1. The options a rule has been filled with are set
  anew at each match, so the rule is not kept for the next item.\<close>

fun match_rules :: "feed_env \<Rightarrow> nat \<Rightarrow> feed_rule list \<Rightarrow> feed_item \<Rightarrow> feed_item" where
  "match_rules env n [] it = set_match msIgnored 0 it"
| "match_rules env n (r # rs) it =
     (if fr_isValid r
      then (let (stop, it) = rule_step env (Suc n) r it in if stop then it else match_rules env (Suc n) rs it)
      else match_rules env (Suc n) rs it)"

definition match_filter :: "feed_env \<Rightarrow> feed_rule list \<Rightarrow> feed_item \<Rightarrow> feed_item" where
  "match_filter env rules it = match_rules env 0 rules it"


section \<open>The deciding rule\<close>

lemma apply_score_options_keeps:
  "fit_matchStatus (apply_score_options r it) = fit_matchStatus it"
  "fit_matchRule (apply_score_options r it) = fit_matchRule it"
  by (simp_all add: apply_score_options_def Let_def)

lemma apply_key_options_keeps:
  "fit_matchStatus (apply_key_options rx r it) = fit_matchStatus it"
  "fit_matchRule (apply_key_options rx r it) = fit_matchRule it"
  by (simp_all add: apply_key_options_def append_dupe_key_def Let_def)

lemma apply_options_keeps [simp]:
  "fit_matchStatus (apply_options rx r it) = fit_matchStatus it"
  "fit_matchRule (apply_options rx r it) = fit_matchRule it"
  by (simp_all add: apply_options_def apply_score_options_keeps apply_key_options_keeps)

lemma match_rule_command: "fr_command (fst (snd (match_rule env r it))) = fr_command r"
  by (simp add: match_rule_def Let_def case_prod_unfold)

text \<open>A step that ends the filter is one of an accepting, rejecting or requiring rule, and has set status and number.\<close>

lemma rule_step_stop:
  assumes "rule_step env n r it = (True, it')"
  shows "fit_matchRule it' = int n"
    "(fit_matchStatus it' = msAccepted \<and> fr_command r = frAccept) \<or>
     (fit_matchStatus it' = msRejected \<and> (fr_command r = frReject \<or> fr_command r = frRequire))"
proof -
  obtain match r' it1 where m: "match_rule env r it = (match, r', it1)" by (metis prod_cases3)
  have c: "fr_command r' = fr_command r" using match_rule_command [of env r it] m by simp
  have "(fr_command r = frAccept \<and> match \<and> it' = apply_options (fe_regexec env) r' (set_match msAccepted n it1)) \<or>
      (fr_command r = frReject \<and> match \<and> it' = set_match msRejected n it1) \<or>
      (fr_command r = frRequire \<and> \<not> match \<and> it' = set_match msRejected n it1)"
    using assms m c by (cases "fr_command r") (simp_all add: rule_step_def split: if_splits)
  then show "fit_matchRule it' = int n"
    "(fit_matchStatus it' = msAccepted \<and> fr_command r = frAccept) \<or>
     (fit_matchStatus it' = msRejected \<and> (fr_command r = frReject \<or> fr_command r = frRequire))"
    by (auto simp: set_match_def)
qed

text \<open>What the filter leaves: nothing decided, or a rule that decided and behind which nothing matters.\<close>

definition decided_by :: "feed_env \<Rightarrow> nat \<Rightarrow> feed_rule list \<Rightarrow> feed_item \<Rightarrow> nat \<Rightarrow> bool" where
  "decided_by env n rules it k \<longleftrightarrow>
     k < length rules \<and> fr_isValid (rules ! k) \<and>
     (let it' = match_rules env n rules it
      in fit_matchRule it' = int (n + k + 1) \<and>
         ((fit_matchStatus it' = msAccepted \<and> fr_command (rules ! k) = frAccept) \<or>
          (fit_matchStatus it' = msRejected \<and> fr_command (rules ! k) \<in> {frReject, frRequire})) \<and>
         (\<forall>rules'. match_rules env n (take (Suc k) rules @ rules') it = it'))"

lemma match_rules_decided:
  "(fit_matchStatus (match_rules env n rules it) = msIgnored \<and> fit_matchRule (match_rules env n rules it) = 0) \<or>
   (\<exists>k. decided_by env n rules it k)"
proof (induction rules arbitrary: n it)
  case Nil
  show ?case by (simp add: set_match_def)
next
  case (Cons r rs)
  have later: "(fit_matchStatus (match_rules env n (r # rs) it) = msIgnored \<and> fit_matchRule (match_rules env n (r # rs) it) = 0) \<or>
      (\<exists>k. decided_by env n (r # rs) it k)"
    if "\<And>rs'. match_rules env n (r # rs') it = match_rules env (Suc n) rs' it1" for it1
    using Cons.IH [of "Suc n" it1]
  proof
    assume "\<exists>k. decided_by env (Suc n) rs it1 k"
    then obtain k where "decided_by env (Suc n) rs it1 k" ..
    then have "decided_by env n (r # rs) it (Suc k)" using that by (simp add: decided_by_def Let_def)
    then show ?thesis by blast
  qed (use that in simp)
  obtain stop it1 where st: "rule_step env (Suc n) r it = (stop, it1)" by fastforce
  consider "\<not> fr_isValid r" | "fr_isValid r" "\<not> stop" | "fr_isValid r" "stop" by blast
  then show ?case
  proof cases
    case 1
    show ?thesis by (rule later [of it]) (simp add: 1)
  next
    case 2
    show ?thesis by (rule later [of it1]) (simp add: 2 st)
  next
    case 3
    have "rule_step env (Suc n) r it = (True, it1)" using 3 st by simp
    note s = rule_step_stop [OF this]
    have "match_rules env n (r # rs') it = it1" for rs' using 3 st by simp
    then have "decided_by env n (r # rs) it 0" using s 3 by (auto simp: decided_by_def Let_def)
    then show ?thesis by blast
  qed
qed


end
