(* ===== verification/FeedFile.thy ===== *)
theory FeedFile
  imports FeedTerm Dates WebText
begin

text \<open>
  Reading a feed (\<open>daemon/feed/FeedFile.cpp\<close>): the handlers of the XML parser, one definition each. The parser
  (libxml2) is outside; the model starts with the events it sends. An element without attributes comes with a null
  pointer instead of a list. \<open>None\<close> stands for a read through a null pointer or behind the end of a text.
\<close>

section \<open>Parts\<close>

definition split_par2 :: "cstring \<Rightarrow> cstring" where
  "split_par2 s =
     (case last_pos (CHR ''.'') s of
        Some i \<Rightarrow> if strcase_eq (drop i s) ''.par2'' then take i s else s
      | None \<Rightarrow> s)"

text \<open>\<open>ParseSubject\<close>: the text \<open>s\<close> follows the first quotation mark; the second is searched behind its first
  character.\<close>

definition subject_filename :: "cstring \<Rightarrow> cstring option" where
  "subject_filename title =
     (case strchr title dquote of
        None \<Rightarrow> Some title
      | Some q \<Rightarrow>
          (case tl q of
             [] \<Rightarrow> None
           | c # s \<Rightarrow>
               (case (strchr s dquote, strchr s (CHR ''.'')) of
                  (Some e, Some p) \<Rightarrow>
                    if length p > length e
                    then Some (split_par2 (cstring_set (c # s) (int (length (c # s) - length e))))
                    else Some title
                | _ \<Rightarrow> Some title)))"

definition parse_subject :: "feed_item \<Rightarrow> feed_item option" where
  "parse_subject it = map_option (\<lambda>f. it\<lparr>fit_filename := f\<rparr>) (subject_filename (fit_title it))"

text \<open>\<open>ExtractSizeFromDescription\<close>. \<open>strtod\<close> finds a number when a digit follows, or a point and a digit.\<close>

definition number_at :: "cstring \<Rightarrow> bool" where
  "number_at s \<longleftrightarrow>
     (let t = dropWhile is_space s;
          u = (if peek t = CHR ''-'' \<or> peek t = CHR ''+'' then tl t else t)
      in is_digit (peek u) \<or> (peek u = CHR ''.'' \<and> is_digit (peek (tl u))))"

fun find_units :: "cstring \<Rightarrow> cstring" where
  "find_units [] = []"
| "find_units (c # r) =
     (if c = CHR '':'' \<or> is_space c then find_units r else if r \<noteq> [] then take 2 (c # r) else find_units r)"

fun find_size :: "cstring \<Rightarrow> (rat \<times> cstring) option" where
  "find_size [] = Some (0, [])"
| "find_size (c # r) =
     (if c = CHR '':'' \<or> is_space c then find_size r
      else if \<not> number_at (c # r) then Some (0, [])
      else (case dropWhile (\<lambda>c. \<not> is_space c) (c # r) of
              [] \<Rightarrow> None
            | _ # t \<Rightarrow> Some (atof (c # r), find_units t)))"

definition unit_size :: "cstring \<Rightarrow> rat" where
  "unit_size units =
     (if units = ''KB'' then 1024 else if units = ''MB'' then 1024 ^ 2 else if units = ''GB'' then 1024 ^ 3
      else if units = ''TB'' then 1024 ^ 4 else 1)"

definition round_away :: "rat \<Rightarrow> int" where
  "round_away q = (if q < 0 then - \<lfloor>- q + 1 / 2\<rfloor> else \<lfloor>q + 1 / 2\<rfloor>)"

definition extract_size :: "cstring \<Rightarrow> int option" where
  "extract_size description =
     (case (case strstr description ''Size'' of Some p \<Rightarrow> Some p | None \<Rightarrow> strstr description ''size'') of
        None \<Rightarrow> Some 0
      | Some p \<Rightarrow> map_option (\<lambda>(size, units). round_away (double (size * unit_size units))) (find_size (drop 4 p)))"

section \<open>The handlers\<close>

record feed_file =
  ff_items :: "feed_item list"
  ff_current :: cstring
  ff_content :: cstring

type_synonym attributes = "(cstring \<times> cstring) list option"

text \<open>The item of the handlers is the last one, and stays it after its end.\<close>

definition map_item :: "(feed_item \<Rightarrow> feed_item option) \<Rightarrow> feed_file \<Rightarrow> feed_file option" where
  "map_item f st =
     map_option (\<lambda>it. st\<lparr>ff_items := butlast (ff_items st) @ [it]\<rparr>) (f (List.last (ff_items st)))"

definition enclosure_attr :: "cstring \<Rightarrow> cstring \<Rightarrow> feed_item \<Rightarrow> feed_item option" where
  "enclosure_attr name value it =
     do {
       it \<leftarrow> (if name = ''url'' then map_option (\<lambda>u. it\<lparr>fit_url := c_str u\<rparr>) (xml_decode value)
             else Some (if name = ''length'' then it\<lparr>fit_size := atoi_c value\<rparr> else it));
       if fit_size it = 0 then map_option (\<lambda>n. it\<lparr>fit_size := n\<rparr>) (extract_size (fit_description it)) else Some it
     }"

fun enclosure_attrs :: "(cstring \<times> cstring) list \<Rightarrow> feed_item \<Rightarrow> feed_item option" where
  "enclosure_attrs [] it = Some it"
| "enclosure_attrs ((n, v) # as) it = Option.bind (enclosure_attr n v it) (enclosure_attrs as)"

definition newznab_attr :: "cstring \<Rightarrow> cstring \<Rightarrow> feed_item \<Rightarrow> feed_item" where
  "newznab_attr name value it =
     (let it = it\<lparr>fit_attributes := fit_attributes it @ [(name, value)]\<rparr>
      in if fit_size it = 0 \<and> name = ''size'' then it\<lparr>fit_size := atoi_c value\<rparr>
         else if name = ''imdb'' then it\<lparr>fit_imdbId := atoi_c value\<rparr>
         else if name = ''rageid'' then it\<lparr>fit_rageId := atoi_c value\<rparr>
         else if name = ''tvdbid'' then it\<lparr>fit_tvdbId := atoi_c value\<rparr>
         else if name = ''tvmazeid'' then it\<lparr>fit_tvmazeId := atoi_c value\<rparr>
         else if name = ''episode'' then set_episode value it
         else if name = ''season'' then set_season value it
         else it)"

definition start_element :: "cstring \<Rightarrow> attributes \<Rightarrow> feed_file \<Rightarrow> feed_file option" where
  "start_element name atts st =
     (let st = st\<lparr>ff_current := name, ff_content := []\<rparr>
      in if name = ''item'' then Some (st\<lparr>ff_items := ff_items st @ [new_item]\<rparr>)
         else if ff_items st = [] then Some st
         else if name = ''enclosure''
         then (case atts of None \<Rightarrow> None | Some as \<Rightarrow> map_item (enclosure_attrs as) st)
         else if name = ''newznab:attr'' \<or> name = ''nZEDb:attr''
         then (case atts of
                 None \<Rightarrow> None
               | Some ((n1, v1) # (n2, v2) # _) \<Rightarrow>
                   if n1 = ''name'' \<and> n2 = ''value'' then map_item (\<lambda>it. Some (newznab_attr v1 v2 it)) st else Some st
               | Some _ \<Rightarrow> Some st)
         else Some st)"

definition set_description :: "cstring \<Rightarrow> feed_item \<Rightarrow> feed_item option" where
  "set_description s it =
     do {
       s \<leftarrow> xml_decode (xml_strip_tags s);
       s \<leftarrow> xml_remove_entities (c_str s);
       Some (it\<lparr>fit_description := s\<rparr>)
     }"

definition end_element :: "cstring \<Rightarrow> feed_file \<Rightarrow> feed_file option" where
  "end_element name st =
     (let s = trim (ff_content st); st = st\<lparr>ff_content := s\<rparr>; cleared = st\<lparr>ff_content := []\<rparr>
      in map_option (\<lambda>st. st\<lparr>ff_current := []\<rparr>)
           (if ff_items st = [] then Some st
            else if name = ''title'' then map_item (\<lambda>it. parse_subject (it\<lparr>fit_title := s\<rparr>)) cleared
            else if name = ''link'' \<and> fit_url (List.last (ff_items st)) = []
            then map_item (\<lambda>it. Some (it\<lparr>fit_url := s\<rparr>)) cleared
            else if name = ''category'' then map_item (\<lambda>it. Some (it\<lparr>fit_category := s\<rparr>)) cleared
            else if name = ''description'' then map_item (set_description s) cleared
            else if name = ''pubDate''
            then map_item (\<lambda>it. Some (if parse_rfc822 s > 0 then it\<lparr>fit_time := parse_rfc822 s\<rparr> else it)) cleared
            else Some st))"

definition text_handler :: "cstring \<Rightarrow> feed_file \<Rightarrow> feed_file" where
  "text_handler s st =
     (if s = [] then st
      else st\<lparr>ff_content := ff_content st @ (if ff_current st = ''category'' then trim s else s)\<rparr>)"

datatype sax = StartElement cstring attributes | EndElement cstring | Characters cstring

fun sax_event :: "sax \<Rightarrow> feed_file \<Rightarrow> feed_file option" where
  "sax_event (StartElement name atts) st = start_element name atts st"
| "sax_event (EndElement name) st = end_element name st"
| "sax_event (Characters s) st = Some (text_handler s st)"

fun sax_events :: "sax list \<Rightarrow> feed_file \<Rightarrow> feed_file option" where
  "sax_events [] st = Some st"
| "sax_events (e # es) st = Option.bind (sax_event e st) (sax_events es)"

definition parse_feed :: "sax list \<Rightarrow> feed_item list option" where
  "parse_feed es = map_option ff_items (sax_events es \<lparr>ff_items = [], ff_current = [], ff_content = []\<rparr>)"

section \<open>Reading an item back\<close>

lemma sax_events_append: "sax_events (es @ fs) st = Option.bind (sax_events es st) (sax_events fs)"
  by (induction es arbitrary: st) (simp_all split: Option.bind_split)

text \<open>The parser may cut a text anywhere.\<close>

definition chunks :: "cstring list \<Rightarrow> sax list" where
  "chunks = map Characters"

lemma text_chunks:
  "ff_current st \<noteq> ''category'' \<Longrightarrow>
   sax_events (chunks ss) st = Some (st\<lparr>ff_content := ff_content st @ concat ss\<rparr>)"
  by (induction ss arbitrary: st) (simp_all add: chunks_def text_handler_def)

definition element :: "cstring \<Rightarrow> cstring list \<Rightarrow> sax list" where
  "element name ss = StartElement name None # chunks ss @ [EndElement name]"

lemma element_events:
  assumes "name \<notin> {''item'', ''enclosure'', ''newznab:attr'', ''nZEDb:attr'', ''category''}"
  shows "sax_events (element name ss @ es) st =
    Option.bind (end_element name (st\<lparr>ff_current := name, ff_content := concat ss\<rparr>)) (sax_events es)"
proof -
  have "start_element name None st = Some (st\<lparr>ff_current := name, ff_content := []\<rparr>)"
    using assms by (simp add: start_element_def Let_def)
  then show ?thesis using assms by (simp add: element_def sax_events_append text_chunks)
qed

text \<open>The events of an item: its title, address, and date, and in any order of the attributes its identifiers.\<close>

definition item_events :: "cstring list \<Rightarrow> cstring list \<Rightarrow> cstring list \<Rightarrow> (cstring \<times> cstring) list \<Rightarrow> sax list" where
  "item_events titles links dates ids =
     StartElement ''item'' None # element ''title'' titles @ element ''link'' links @ element ''pubDate'' dates @
     concat (map (\<lambda>(n, v). [StartElement ''newznab:attr'' (Some [(''name'', n), (''value'', v)]),
       EndElement ''newznab:attr'']) ids) @ [EndElement ''item'']"

lemma attr_events:
  "sax_events (concat (map (\<lambda>(n, v). [StartElement ''newznab:attr'' (Some [(''name'', n), (''value'', v)]),
     EndElement ''newznab:attr'']) ids) @ es) \<lparr>ff_items = its @ [it], ff_current = [], ff_content = []\<rparr> =
   sax_events es \<lparr>ff_items = its @ [foldl (\<lambda>it (n, v). newznab_attr n v it) it ids], ff_current = [], ff_content = []\<rparr>"
  by (induction ids arbitrary: it) (auto simp: start_element_def end_element_def map_item_def Let_def)

definition read_item :: "cstring list \<Rightarrow> cstring list \<Rightarrow> cstring list \<Rightarrow> (cstring \<times> cstring) list \<Rightarrow> feed_item" where
  "read_item titles links dates ids =
     foldl (\<lambda>it (n, v). newznab_attr n v it)
       (new_item\<lparr>fit_title := trim (concat titles), fit_filename := trim (concat titles), fit_url := trim (concat links),
                 fit_time := max 0 (parse_rfc822 (trim (concat dates)))\<rparr>) ids"

lemma item_read:
  assumes "dquote \<notin> set (trim (concat titles))"
  shows "sax_events (item_events titles links dates ids @ es) \<lparr>ff_items = its, ff_current = cur, ff_content = con\<rparr> =
    sax_events es \<lparr>ff_items = its @ [read_item titles links dates ids], ff_current = [], ff_content = []\<rparr>"
proof -
  have "dropWhile (\<lambda>d. d \<noteq> dquote) (trim (concat titles)) = []" using assms by auto
  then have "strchr (trim (concat titles)) dquote = None" by (simp add: strchr_def del: dropWhile_eq_Nil_conv)
  then have subj: "subject_filename (trim (concat titles)) = Some (trim (concat titles))"
    by (simp add: subject_filename_def)
  show ?thesis
    using attr_events [where es = "EndElement ''item'' # es" and its = its and ids = ids]
    by (simp add: item_events_def element_events start_element_def end_element_def map_item_def parse_subject_def subj
        new_item_def read_item_def Let_def)
qed




text \<open>Feeds for which the code reads where it must not: an enclosure without attributes, a title that ends with its
  only quotation mark, a description that ends with its size.\<close>

lemma feed_crashes:
  "parse_feed [StartElement ''item'' None, StartElement ''enclosure'' None] = None"
  "subject_filename [dquote] = None"
  "extract_size ''Size: 5'' = None"
  by (simp_all add: parse_feed_def start_element_def subject_filename_def strchr_def extract_size_def number_at_def
      is_space_def byte_def is_digit_def)

end
