(* ===== verification/FeedRun.thy ===== *)
theory FeedRun
  imports FeedRule FeedFile
begin

text \<open>
  The feed coordinator (\<open>daemon/feed/FeedCoordinator.cpp\<close>, \<open>FeedInfo.h\<close>): when feeds are fetched, how their items are
  filtered, which become downloads, and the history that remembers the items already seen. The downloader, the
  feed scripts and the parser of the file are outside: what they deliver is an argument. The time is the one of the
  environment \<open>feed_env\<close>.
\<close>

section \<open>Feeds\<close>

datatype feed_status = fsUndefined | fsRunning | fsFinished | fsFailed
datatype category_source = csAuto | csNZBFile | csFeedFile

record feed_info =
  fd_id :: int
  fd_name :: cstring
  fd_url :: cstring
  fd_category :: cstring
  fd_extensions :: cstring
  fd_filter :: cstring
  fd_outputFilename :: cstring
  fd_lastUpdate :: int
  fd_nextUpdate :: int
  fd_status :: feed_status
  fd_categorySource :: category_source
  fd_interval :: int
  fd_priority :: int
  fd_lastInterval :: int
  fd_backlog :: bool
  fd_pauseNzb :: bool
  fd_preview :: bool
  fd_fetch :: bool
  fd_force :: bool

text \<open>The constructor; the hash of the filter, which only the state file uses, is left out.\<close>

definition new_feed ::
  "int \<Rightarrow> cstring \<Rightarrow> cstring \<Rightarrow> bool \<Rightarrow> int \<Rightarrow> cstring \<Rightarrow> bool \<Rightarrow> cstring \<Rightarrow> category_source \<Rightarrow> int \<Rightarrow> cstring \<Rightarrow> feed_info" where
  "new_feed i name address backlog interval filt pauseNzb cat source priority extensions =
     \<lparr>fd_id = i, fd_name = (if name = [] then ''Feed'' @ show_int i else name), fd_url = address,
      fd_category = cat, fd_extensions = extensions, fd_filter = filt, fd_outputFilename = [],
      fd_lastUpdate = 0, fd_nextUpdate = 0, fd_status = fsUndefined, fd_categorySource = source,
      fd_interval = interval, fd_priority = priority, fd_lastInterval = 0, fd_backlog = backlog,
      fd_pauseNzb = pauseNzb, fd_preview = False, fd_fetch = False, fd_force = False\<rparr>"

section \<open>The history of the items\<close>

datatype feed_history_status = hsUnknown | hsBacklog | hsFetched

record feed_history_info =
  fh_url :: cstring
  fh_status :: feed_history_status
  fh_lastSeen :: int

type_synonym feed_history = "feed_history_info list"

definition history_find :: "cstring \<Rightarrow> feed_history \<Rightarrow> feed_history_info option" where
  "history_find u hist = find (\<lambda>h. fh_url h = u) hist"

fun history_remove :: "cstring \<Rightarrow> feed_history \<Rightarrow> feed_history" where
  "history_remove u [] = []"
| "history_remove u (h # hs) = (if fh_url h = u then hs else h # history_remove u hs)"

text \<open>The changes through the pointer that \<open>Find\<close> returns: to the first entry of the address.\<close>

fun history_update :: "cstring \<Rightarrow> (feed_history_info \<Rightarrow> feed_history_info) \<Rightarrow> feed_history \<Rightarrow> feed_history" where
  "history_update u f [] = []"
| "history_update u f (h # hs) = (if fh_url h = u then f h # hs else h # history_update u f hs)"

section \<open>When a feed is fetched\<close>

text \<open>The condition in \<open>FeedCoordinator::Run\<close>.\<close>

definition feed_due :: "int \<Rightarrow> feed_info \<Rightarrow> bool" where
  "feed_due now fd \<longleftrightarrow>
     ((fd_interval fd > 0 \<and>
       (fd_nextUpdate fd = 0 \<or> now \<ge> fd_nextUpdate fd \<or> now < fd_nextUpdate fd - fd_interval fd * 60)) \<or>
      fd_fetch fd) \<and>
     fd_status fd \<noteq> fsRunning"

text \<open>\<open>StartFeedDownload\<close>: what changes in the feed; the downloader gets its address.\<close>

definition start_feed :: "bool \<Rightarrow> feed_info \<Rightarrow> feed_info" where
  "start_feed force fd = fd\<lparr>fd_status := fsRunning, fd_force := force, fd_fetch := False\<rparr>"

text \<open>The loop over the feeds in \<open>Run\<close>: the feeds, the identifiers of those started, and the flag \<open>m_force\<close>.\<close>

fun feed_loop :: "int \<Rightarrow> feed_info list \<Rightarrow> bool \<Rightarrow> feed_info list \<times> int list \<times> bool" where
  "feed_loop now [] force = ([], [], force)"
| "feed_loop now (fd # fds) force =
     (if feed_due now fd
      then (let (fds', started, force) = feed_loop now fds force
            in (start_feed (fd_fetch fd) fd # fds', fd_id fd # started, force))
      else (let (fds', started, force) = feed_loop now fds (force \<or> fd_fetch fd)
            in (fd # fds', started, force)))"

definition feed_round ::
  "bool \<Rightarrow> bool \<Rightarrow> int \<Rightarrow> int \<Rightarrow> feed_info list \<Rightarrow> int list \<Rightarrow> bool \<Rightarrow> feed_info list \<times> int list \<times> bool" where
  "feed_round pauseDownload urlForce urlConnections now fds active force =
     (if (\<not> pauseDownload \<or> force \<or> urlForce) \<and> int (length active) < urlConnections
      then (let (fds, started, force) = feed_loop now fds False in (fds, active @ started, force))
      else (fds, active, force))"

text \<open>\<open>SchedulerNextUpdate\<close>.\<close>

definition schedule_next :: "int \<Rightarrow> bool \<Rightarrow> feed_info \<Rightarrow> feed_info" where
  "schedule_next now success fd =
     (if success
      then fd\<lparr>fd_lastInterval := 0, fd_nextUpdate := now + fd_interval fd * 60\<rparr>
      else (let interval = min (max (fd_lastInterval fd * 2) 60) (fd_interval fd * 60)
            in fd\<lparr>fd_lastInterval := interval, fd_nextUpdate := now + interval\<rparr>))"

definition fetch_feed :: "int \<Rightarrow> feed_info list \<Rightarrow> bool \<Rightarrow> feed_info list \<times> bool" where
  "fetch_feed i fds force =
     (map (\<lambda>fd. if fd_id fd = i \<or> i = 0 then fd\<lparr>fd_fetch := True\<rparr> else fd) fds,
      force \<or> (\<exists>fd\<in>set fds. fd_id fd = i \<or> i = 0))"

section \<open>Items that become downloads\<close>

definition resolve_category :: "feed_info \<Rightarrow> feed_item \<Rightarrow> cstring" where
  "resolve_category fd it =
     (if fd_category fd \<noteq> [] then fd_category fd
      else case fd_categorySource fd of csNZBFile \<Rightarrow> fit_category it | csAuto \<Rightarrow> fit_category it | csFeedFile \<Rightarrow> [])"

definition filter_item :: "feed_env \<Rightarrow> feed_info \<Rightarrow> feed_item \<Rightarrow> feed_item" where
  "filter_item env fd it =
     (let it = it\<lparr>fit_matchStatus := msAccepted, fit_matchRule := 0, fit_pauseNzb := fd_pauseNzb fd,
                  fit_priority := fd_priority fd, fit_addCategory := resolve_category fd it, fit_dupeScore := 0,
                  fit_dupeMode := dmScore, fit_helper := True\<rparr>;
          it = build_dupe_key (fe_regexec env) [] [] [] [] it
      in if fd_filter fd \<noteq> [] then match_filter env (compile_filter (fd_filter fd)) it else it)"

definition filter_feed :: "feed_env \<Rightarrow> feed_info \<Rightarrow> feed_item list \<Rightarrow> feed_item list" where
  "filter_feed env fd items = map (filter_item env fd) items"

text \<open>\<open>NzbInfoCreator::Create\<close> and \<open>ApplyCategory\<close>.\<close>

definition nzb_filename :: "cstring \<Rightarrow> cstring" where
  "nzb_filename s = make_valid_filename False (take 1023 (s @ ''.nzb''))"

definition apply_category :: "feed_info \<Rightarrow> feed_item \<Rightarrow> nzb_info \<Rightarrow> nzb_info" where
  "apply_category fd it nz =
     nz\<lparr>nz_category := (if fit_addCategory it \<noteq> [] then fit_addCategory it else resolve_category fd it)\<rparr>"

text \<open>The naming needs only the function that makes names safe.\<close>

definition feed_names :: name_options where
  "feed_names = code_names [] [] False []"

definition remove_nzb_ext :: "cstring \<Rightarrow> cstring" where
  "remove_nzb_ext s =
     (case last_pos (CHR ''.'') s of
        Some i \<Rightarrow> if strcase_eq (drop i s) ''.nzb'' then take i s else s
      | None \<Rightarrow> s)"

definition create_nzb :: "feed_info \<Rightarrow> feed_item \<Rightarrow> nzb_info" where
  "create_nzb fd it =
     (let nz = nzb_set_url feed_names (fit_url it) (nzb_init\<lparr>nz_kind := nkUrl, nz_feedId := fd_id fd\<rparr>);
          name = remove_nzb_ext (take 1023 (fit_filename it));
          nz = (if name \<noteq> [] then nz_set_filename feed_names (nzb_filename name) nz else nz);
          nz = apply_category fd it nz
      in nz\<lparr>nz_priority := fit_priority it, nz_addUrlPaused := fit_pauseNzb it, nz_dupeKey := fit_dupeKey it,
            nz_dupeScore := fit_dupeScore it, nz_dupeMode := fit_dupeMode it, nz_size := fit_size it,
            nz_minTime := fit_time it, nz_maxTime := fit_time it\<rparr>)"

text \<open>\<open>ProcessFeed\<close>, one item at a time: the history and the downloads made so far.\<close>

definition process_item ::
  "int \<Rightarrow> bool \<Rightarrow> feed_info \<Rightarrow> feed_item \<Rightarrow> feed_history \<times> nzb_info list \<Rightarrow> feed_history \<times> nzb_info list" where
  "process_item now firstFetch fd it = (\<lambda>(hist, nzbs).
     if fit_matchStatus it = msAccepted
     then (let found = (history_find (fit_url it) hist \<noteq> None);
               fetch = (\<not> (firstFetch \<and> fd_backlog fd) \<and> \<not> found);
               status = (if firstFetch \<and> fd_backlog fd then hsBacklog else if \<not> found then hsFetched else hsUnknown)
           in (if found then history_update (fit_url it) (\<lambda>h. h\<lparr>fh_lastSeen := now\<rparr>) hist
               else hist @ [\<lparr>fh_url = fit_url it, fh_status = status, fh_lastSeen = now\<rparr>],
               if fetch then nzbs @ [create_nzb fd it] else nzbs))
     else (hist, nzbs))"

definition process_feed ::
  "feed_env \<Rightarrow> feed_info \<Rightarrow> feed_item list \<Rightarrow> feed_history \<Rightarrow> feed_history \<times> nzb_info list" where
  "process_feed env fd items hist =
     foldl (\<lambda>st it. process_item (fe_now env) (fd_lastUpdate fd = 0) fd it st) (hist, []) (filter_feed env fd items)"

text \<open>\<open>FeedCompleted\<close>: the feed, the history and the downloads for the queue. The script of the feed and the parser
  deliver \<open>scriptSuccess\<close> and the items.\<close>

definition feed_completed ::
  "feed_env \<Rightarrow> bool \<Rightarrow> cstring \<Rightarrow> bool \<Rightarrow> feed_item list option \<Rightarrow> feed_info \<Rightarrow> feed_history \<Rightarrow>
   feed_info \<times> feed_history \<times> nzb_info list" where
  "feed_completed env statusOK output scriptSuccess items fd hist =
     (let fd = (if statusOK then fd\<lparr>fd_outputFilename := output\<rparr> else fd);
          fd = schedule_next (fe_now env) statusOK fd
      in if \<not> statusOK then (fd\<lparr>fd_status := fsFailed\<rparr>, hist, [])
         else if fd_preview fd then (fd\<lparr>fd_status := fsFinished\<rparr>, hist, [])
         else if \<not> scriptSuccess then (fd\<lparr>fd_status := fsFailed\<rparr>, hist, [])
         else (let (hist, nzbs) = (case items of Some its \<Rightarrow> process_feed env fd its hist | None \<Rightarrow> (hist, []))
               in (fd\<lparr>fd_lastUpdate := fe_now env, fd_force := False, fd_status := fsFinished\<rparr>, hist, nzbs)))"

text \<open>\<open>DownloadQueueUpdate\<close> for a download that was completed from its address.\<close>

definition url_completed :: "int \<Rightarrow> cstring \<Rightarrow> feed_history \<Rightarrow> feed_history" where
  "url_completed now u hist =
     (if history_find u hist \<noteq> None then history_update u (\<lambda>h. h\<lparr>fh_status := hsFetched\<rparr>) hist
      else hist @ [\<lparr>fh_url = u, fh_status = hsFetched, fh_lastSeen = now\<rparr>])"

definition cleanup_history :: "int \<Rightarrow> int \<Rightarrow> feed_info list \<Rightarrow> feed_history \<Rightarrow> feed_history" where
  "cleanup_history now feedHistory fds hist =
     (let oldest = foldl (\<lambda>t fd. if fd_lastUpdate fd < t then fd_lastUpdate fd else t) now fds;
          border = oldest - feedHistory * 60 * 60 * 24
      in filter (\<lambda>h. \<not> fh_lastSeen h < border) hist)"

section \<open>Previews and their cache\<close>

record feed_cache_item =
  ch_url :: cstring
  ch_cacheTimeSec :: int
  ch_cacheId :: cstring
  ch_lastUsage :: int
  ch_items :: "feed_item list"

definition cleanup_cache :: "int \<Rightarrow> feed_cache_item list \<Rightarrow> feed_cache_item list" where
  "cleanup_cache now cache =
     filter (\<lambda>c. \<not> (ch_lastUsage c + ch_cacheTimeSec c < now \<or> ch_lastUsage c > now)) cache"

fun cache_lookup :: "int \<Rightarrow> cstring \<Rightarrow> feed_cache_item list \<Rightarrow> (feed_item list \<times> feed_cache_item list) option" where
  "cache_lookup now i [] = None"
| "cache_lookup now i (c # cs) =
     (if ch_cacheId c = i then Some (ch_items c, c\<lparr>ch_lastUsage := now\<rparr> # cs)
      else map_option (\<lambda>(items, cs). (items, c # cs)) (cache_lookup now i cs))"

text \<open>The status of the items of a preview, from the history.\<close>

definition preview_status :: "bool \<Rightarrow> feed_info \<Rightarrow> feed_history \<Rightarrow> feed_item \<Rightarrow> feed_item" where
  "preview_status firstFetch fd hist it =
     (case history_find (fit_url it) hist of
        None \<Rightarrow> it\<lparr>fit_status := (if firstFetch \<and> fd_backlog fd then isBacklog else isNew)\<rparr>
      | Some h \<Rightarrow> it\<lparr>fit_status := (case fh_status h of hsUnknown \<Rightarrow> isUnknown | hsBacklog \<Rightarrow> isBacklog | hsFetched \<Rightarrow> isFetched)\<rparr>)"

definition preview_first_fetch :: "feed_info \<Rightarrow> feed_info list \<Rightarrow> bool" where
  "preview_first_fetch fd fds \<longleftrightarrow>
     \<not> (\<exists>fd2\<in>set fds. fd_url fd2 = fd_url fd \<and> fd_filter fd2 = fd_filter fd \<and> fd_lastUpdate fd2 > 0)"


section \<open>Nothing is fetched twice\<close>

lemma history_find_iff: "history_find u hist \<noteq> None \<longleftrightarrow> u \<in> fh_url ` set hist"
  by (auto simp: history_find_def find_None_iff)

lemma history_update_urls:
  "(\<And>h. fh_url (f h) = fh_url h) \<Longrightarrow> map fh_url (history_update u f hist) = map fh_url hist"
  by (induction hist) simp_all

lemma seen_update:
  assumes "\<And>h. fh_url (f h) = fh_url h"
  shows "fh_url ` set (history_update u f hist) = fh_url ` set hist"
proof -
  have "set (map fh_url (history_update u f hist)) = set (map fh_url hist)"
    using history_update_urls [of f, OF assms] by simp
  then show ?thesis by simp
qed

lemma seen_update_simps [simp]:
  "fh_url ` set (history_update u (\<lambda>h. h\<lparr>fh_lastSeen := t\<rparr>) hist) = fh_url ` set hist"
  "fh_url ` set (history_update u (\<lambda>h. h\<lparr>fh_status := s\<rparr>) hist) = fh_url ` set hist"
  by (simp_all add: seen_update)

lemma create_nzb_url: "nz_url (create_nzb fd it) = fit_url it"
proof -
  have u: "nz_url (nzb_set_url no a nz) = a" for no a nz by (simp add: nzb_set_url_def Let_def)
  have f: "nz_url (nz_set_filename no a nz) = nz_url nz" for no a nz by (simp add: nz_set_filename_def Let_def)
  show ?thesis by (simp add: create_nzb_def Let_def apply_category_def u f)
qed

text \<open>What one item changes.\<close>

lemma process_item_seen:
  assumes "process_item now ff fd it (hist, nzbs) = (hist', nzbs')"
  shows "fh_url ` set hist' = fh_url ` set hist \<union> (if fit_matchStatus it = msAccepted then {fit_url it} else {})"
    "nzbs' = nzbs \<or> (nzbs' = nzbs @ [create_nzb fd it] \<and> fit_matchStatus it = msAccepted \<and>
       fit_url it \<notin> fh_url ` set hist \<and> \<not> (ff \<and> fd_backlog fd))"
proof -
  have "fh_url ` set hist' = fh_url ` set hist \<union> (if fit_matchStatus it = msAccepted then {fit_url it} else {}) \<and>
    (nzbs' = nzbs \<or> (nzbs' = nzbs @ [create_nzb fd it] \<and> fit_matchStatus it = msAccepted \<and>
       fit_url it \<notin> fh_url ` set hist \<and> \<not> (ff \<and> fd_backlog fd)))"
  proof (cases "fit_matchStatus it = msAccepted")
    case acc: True
    show ?thesis
    proof (cases "fit_url it \<in> fh_url ` set hist")
      case True
      then obtain y where "history_find (fit_url it) hist = Some y" using history_find_iff by blast
      then have "hist' = history_update (fit_url it) (\<lambda>h. h\<lparr>fh_lastSeen := now\<rparr>) hist" "nzbs' = nzbs"
        using assms acc by (simp_all add: process_item_def)
      then show ?thesis using acc insert_absorb [OF True] by simp
    next
      case False
      then have "history_find (fit_url it) hist = None" using history_find_iff by blast
      then show ?thesis using assms acc False by (auto simp: process_item_def)
    qed
  qed (use assms in \<open>simp add: process_item_def\<close>)
  then show "fh_url ` set hist' = fh_url ` set hist \<union> (if fit_matchStatus it = msAccepted then {fit_url it} else {})"
    "nzbs' = nzbs \<or> (nzbs' = nzbs @ [create_nzb fd it] \<and> fit_matchStatus it = msAccepted \<and>
       fit_url it \<notin> fh_url ` set hist \<and> \<not> (ff \<and> fd_backlog fd))" by blast+
qed

lemma process_items_seen:
  assumes "foldl (\<lambda>st it. process_item now ff fd it st) (hist, nzbs) items = (hist', nzbs')"
  shows "fh_url ` set hist' = fh_url ` set hist \<union> fit_url ` {it \<in> set items. fit_matchStatus it = msAccepted} \<and>
    (\<exists>new. nzbs' = nzbs @ new \<and> distinct (map nz_url new) \<and> nz_url ` set new \<inter> fh_url ` set hist = {} \<and>
       nz_url ` set new \<subseteq> fit_url ` {it \<in> set items. fit_matchStatus it = msAccepted} \<and>
       (ff \<and> fd_backlog fd \<longrightarrow> new = []))"
  using assms
proof (induction items arbitrary: hist nzbs)
  case (Cons it items)
  obtain hist1 nzbs1 where p: "process_item now ff fd it (hist, nzbs) = (hist1, nzbs1)" by fastforce
  note s = process_item_seen [OF p]
  have "foldl (\<lambda>st it. process_item now ff fd it st) (hist1, nzbs1) items = (hist', nzbs')"
    using Cons.prems p by simp
  note ih = Cons.IH [OF this]
  obtain new where new: "nzbs' = nzbs1 @ new" "distinct (map nz_url new)" "nz_url ` set new \<inter> fh_url ` set hist1 = {}"
    "nz_url ` set new \<subseteq> fit_url ` {it \<in> set items. fit_matchStatus it = msAccepted}" "ff \<and> fd_backlog fd \<longrightarrow> new = []"
    using ih by blast
  have h: "fh_url ` set hist' = fh_url ` set hist \<union> fit_url ` {i \<in> set (it # items). fit_matchStatus i = msAccepted}"
    using ih s(1) by (auto split: if_splits)
  show ?case
  proof (cases "nzbs1 = nzbs")
    case True
    then show ?thesis using new s(1) h by (intro conjI exI [of _ new]) (auto split: if_splits)
  next
    case False
    then have n: "nzbs1 = nzbs @ [create_nzb fd it]" "fit_matchStatus it = msAccepted"
      "fit_url it \<notin> fh_url ` set hist" "\<not> (ff \<and> fd_backlog fd)" using s(2) by auto
    have "fit_url it \<in> fh_url ` set hist1" using s(1) n(2) by simp
    then have "fit_url it \<notin> nz_url ` set new" using new(3) by blast
    then show ?thesis using new s(1) n h
      by (intro conjI exI [of _ "create_nzb fd it # new"]) (auto simp: create_nzb_url)
  qed
qed simp

definition accepted_urls :: "feed_env \<Rightarrow> feed_info \<Rightarrow> feed_item list \<Rightarrow> cstring set" where
  "accepted_urls env fd items = fit_url ` {it \<in> set (filter_feed env fd items). fit_matchStatus it = msAccepted}"

text \<open>C21: Processing a feed makes a download of each accepted address at most once, never of one that the history holds
  and none at all on the first fetch of a feed with backlog; afterwards the history holds every accepted address, so
  that the same items make no download again.\<close>

theorem process_feed_once:
  assumes "process_feed env fd items hist = (hist', nzbs)"
  shows "distinct (map nz_url nzbs) \<and> nz_url ` set nzbs \<subseteq> accepted_urls env fd items - fh_url ` set hist \<and>
    (fd_lastUpdate fd = 0 \<and> fd_backlog fd \<longrightarrow> nzbs = []) \<and>
    fh_url ` set hist' = fh_url ` set hist \<union> accepted_urls env fd items \<and>
    snd (process_feed env fd items hist') = []"
proof -
  have p: "fh_url ` set h' = fh_url ` set h \<union> accepted_urls env fd items" "distinct (map nz_url n)"
      "nz_url ` set n \<inter> fh_url ` set h = {}" "nz_url ` set n \<subseteq> accepted_urls env fd items"
      "fd_lastUpdate fd = 0 \<and> fd_backlog fd \<longrightarrow> n = []"
    if "process_feed env fd items h = (h', n)" for h h' n
  proof -
    note q = process_items_seen [OF that [unfolded process_feed_def]]
    show "fh_url ` set h' = fh_url ` set h \<union> accepted_urls env fd items"
      unfolding accepted_urls_def by (rule conjunct1 [OF q])
    obtain new where new: "n = [] @ new" "distinct (map nz_url new)" "nz_url ` set new \<inter> fh_url ` set h = {}"
      "nz_url ` set new \<subseteq> fit_url ` {it \<in> set (filter_feed env fd items). fit_matchStatus it = msAccepted}"
      "fd_lastUpdate fd = 0 \<and> fd_backlog fd \<longrightarrow> new = []"
      using conjunct2 [OF q] by (elim exE conjE) (rule that)
    have n: "n = new" using new(1) by simp
    show "distinct (map nz_url n)" "nz_url ` set n \<inter> fh_url ` set h = {}" "nz_url ` set n \<subseteq> accepted_urls env fd items"
      "fd_lastUpdate fd = 0 \<and> fd_backlog fd \<longrightarrow> n = []"
      unfolding n accepted_urls_def by (fact new)+
  qed
  note h = p(1) [OF assms] and n = p(2-5) [OF assms]
  obtain hist2 nzbs2 where again: "process_feed env fd items hist' = (hist2, nzbs2)" by fastforce
  note n2 = p(3,4) [OF again]
  have sets: "X \<inter> (H \<union> A) = {} \<Longrightarrow> X \<subseteq> A \<Longrightarrow> X = {}" "X \<inter> H = {} \<Longrightarrow> X \<subseteq> A \<Longrightarrow> X \<subseteq> A - H"
    for X H A :: "cstring set" by blast+
  have "nz_url ` set nzbs2 = {}" by (rule sets(1) [OF n2(1) [unfolded h] n2(2)])
  then have "snd (process_feed env fd items hist') = []" using again by simp
  moreover have "nz_url ` set nzbs \<subseteq> accepted_urls env fd items - fh_url ` set hist" by (rule sets(2) [OF n(2,3)])
  ultimately show ?thesis using h n(1,4) by (intro conjI)
qed


definition sample_env :: feed_env where
  "sample_env = \<lparr>fe_regexec = (\<lambda>_ _ _. None), fe_queue = [], fe_history = [], fe_now = 1000\<rparr>"

definition sample_feed :: feed_info where
  "sample_feed = new_feed 1 [] ''http://feed'' False 15 [] False [] csAuto 0 []"

lemma sample_process:
  "process_feed sample_env sample_feed [new_item\<lparr>fit_url := ''u''\<rparr>] [] =
     ([\<lparr>fh_url = ''u'', fh_status = hsFetched, fh_lastSeen = 1000\<rparr>],
      [create_nzb sample_feed (filter_item sample_env sample_feed (new_item\<lparr>fit_url := ''u''\<rparr>))])"
proof -
  define it where "it = filter_item sample_env sample_feed (new_item\<lparr>fit_url := ''u''\<rparr>)"
  have "fit_matchStatus it = msAccepted" "fit_url it = ''u''"
    by (simp_all add: it_def filter_item_def Let_def sample_feed_def new_feed_def)
  moreover have "fe_now sample_env = 1000" "fd_lastUpdate sample_feed = 0" "\<not> fd_backlog sample_feed"
    by (simp_all add: sample_env_def sample_feed_def new_feed_def)
  ultimately show ?thesis
    by (simp add: process_feed_def filter_feed_def it_def [symmetric] process_item_def history_find_def)
qed

theorem process_feed_once_witness:
  "snd (process_feed sample_env sample_feed [new_item\<lparr>fit_url := ''u''\<rparr>]
     [\<lparr>fh_url = ''u'', fh_status = hsFetched, fh_lastSeen = 1000\<rparr>]) = []"
  using process_feed_once [OF sample_process] by (elim conjE)

section \<open>Failures\<close>

text \<open>C26: After a success, failures one after another are followed by the next attempt after 1, 2, 4, ... minutes, never
  later than the interval of the feed.\<close>

theorem failed_feed_backs_off:
  assumes "0 < fd_interval fd" and "ts \<noteq> []"
  shows "fd_nextUpdate (foldl (\<lambda>fd t. schedule_next t False fd) (schedule_next t0 True fd) ts) =
    List.last ts + min (60 * 2 ^ (length ts - 1)) (60 * fd_interval fd)"
proof -
  define f where "f ts = foldl (\<lambda>fd t. schedule_next t False fd) (schedule_next t0 True fd) ts" for ts
  have i: "fd_interval (f ts) = fd_interval fd" for ts
    by (induction ts rule: rev_induct) (simp_all add: f_def schedule_next_def Let_def)
  have step: "f (us @ [t]) = schedule_next t False (f us)" for us t by (simp add: f_def)
  have z: "fd_lastInterval (f []) = 0" by (simp add: f_def schedule_next_def)
  have "fd_nextUpdate (f us) = List.last us + fd_lastInterval (f us) \<and>
      fd_lastInterval (f us) = min (60 * 2 ^ (length us - 1)) (60 * fd_interval fd)" if "us \<noteq> []" for us
    using that
  proof (induction us rule: rev_induct)
    case (snoc t us)
    have n: "fd_nextUpdate (f (us @ [t])) = t + fd_lastInterval (f (us @ [t]))"
      "fd_lastInterval (f (us @ [t])) = min (max (fd_lastInterval (f us) * 2) 60) (fd_interval fd * 60)"
      unfolding step by (simp_all add: schedule_next_def Let_def i)
    show ?case
    proof (cases us)
      case Nil
      then show ?thesis using n z by (simp add: mult.commute)
    next
      case (Cons a as)
      then have l: "fd_lastInterval (f us) = min (60 * 2 ^ length as) (60 * fd_interval fd)" using snoc.IH by simp
      have double_min: "min (max (min (60 * p) (60 * i) * 2) 60) (i * 60) = min (60 * (2 * p)) (60 * i)"
        if "1 \<le> p" "0 < i" for p i :: int
        using that by (auto simp: min_def max_def)
      have "(1 :: int) \<le> 2 ^ length as" by simp
      then have "min (max (fd_lastInterval (f us) * 2) 60) (fd_interval fd * 60) =
          min (60 * (2 * 2 ^ length as)) (60 * fd_interval fd)"
        unfolding l by (rule double_min [OF _ assms(1)])
      then show ?thesis using n Cons by simp
    qed
  qed simp
  from this [OF assms(2)]
  have "fd_nextUpdate (f ts) = List.last ts + min (60 * 2 ^ (length ts - 1)) (60 * fd_interval fd)" by simp
  then show ?thesis unfolding f_def .
qed

theorem failed_feed_backs_off_witness:
  "fd_nextUpdate (foldl (\<lambda>fd t. schedule_next t False fd) (schedule_next 0 True sample_feed) [900, 960, 1080]) = 1320"
proof -
  have i: "fd_interval sample_feed = 15" by (simp add: sample_feed_def new_feed_def)
  show ?thesis by (subst failed_feed_backs_off) (simp_all add: i)
qed

section \<open>Nothing that stays in its feed is fetched again\<close>

text \<open>The events that change the history: a feed that was fetched, a download that was completed, the cleaning.\<close>

datatype feed_event = FeedDone nat feed_env "feed_item list" | UrlDone int cstring | CleanHistory int int

fun feed_step ::
  "feed_event \<Rightarrow> feed_info list \<times> feed_history \<Rightarrow> (feed_info list \<times> feed_history) \<times> nzb_info list" where
  "feed_step (FeedDone k env items) (fds, hist) =
     (let (fd, hist, nzbs) = feed_completed env True [] True (Some items) (fds ! k) hist in ((fds[k := fd], hist), nzbs))"
| "feed_step (UrlDone now u) (fds, hist) = ((fds, url_completed now u hist), [])"
| "feed_step (CleanHistory now days) (fds, hist) = ((fds, cleanup_history now days fds hist), [])"

fun feed_steps :: "feed_event list \<Rightarrow> feed_info list \<times> feed_history \<Rightarrow> feed_info list \<times> feed_history" where
  "feed_steps [] st = st"
| "feed_steps (e # es) st = feed_steps es (fst (feed_step e st))"

fun other_event :: "nat \<Rightarrow> int \<Rightarrow> feed_event \<Rightarrow> bool" where
  "other_event k t (FeedDone j env items) \<longleftrightarrow> j \<noteq> k \<and> t \<le> fe_now env"
| "other_event k t (UrlDone now u) \<longleftrightarrow> t \<le> now"
| "other_event k t (CleanHistory now days) \<longleftrightarrow> t \<le> now \<and> 0 \<le> days"

definition seen_since :: "int \<Rightarrow> cstring \<Rightarrow> feed_history \<Rightarrow> bool" where
  "seen_since t u hist \<longleftrightarrow> (\<exists>h\<in>set hist. fh_url h = u \<and> t \<le> fh_lastSeen h)"

lemma seen_since_simps [simp]:
  "\<not> seen_since t u []"
  "seen_since t u (h # hs) \<longleftrightarrow> (fh_url h = u \<and> t \<le> fh_lastSeen h) \<or> seen_since t u hs"
  "seen_since t u (hs @ hs') \<longleftrightarrow> seen_since t u hs \<or> seen_since t u hs'"
  by (auto simp: seen_since_def)

lemma seen_since_update:
  "t \<le> now \<Longrightarrow> seen_since t u hist \<Longrightarrow> seen_since t u (history_update v (\<lambda>h. h\<lparr>fh_lastSeen := now\<rparr>) hist)"
  "seen_since t u hist \<Longrightarrow> seen_since t u (history_update v (\<lambda>h. h\<lparr>fh_status := s\<rparr>) hist)"
  by (induction hist) auto

lemma updated_seen:
  "t \<le> now \<Longrightarrow> history_find u hist \<noteq> None \<Longrightarrow> seen_since t u (history_update u (\<lambda>h. h\<lparr>fh_lastSeen := now\<rparr>) hist)"
  by (induction hist) (auto simp: history_find_def)

lemma process_item_since:
  assumes "t \<le> now"
  shows "seen_since t u (fst st) \<Longrightarrow> seen_since t u (fst (process_item now ff fd it st))"
    "fit_matchStatus it = msAccepted \<Longrightarrow> seen_since t (fit_url it) (fst (process_item now ff fd it st))"
proof -
  obtain hist nzbs where st: "st = (hist, nzbs)" by fastforce
  show "seen_since t u (fst st) \<Longrightarrow> seen_since t u (fst (process_item now ff fd it st))"
    using seen_since_update(1) [OF assms] by (simp add: st process_item_def Let_def)
  show "fit_matchStatus it = msAccepted \<Longrightarrow> seen_since t (fit_url it) (fst (process_item now ff fd it st))"
    using updated_seen [OF assms] assms by (simp add: st process_item_def Let_def)
qed

lemma process_items_since:
  assumes "t \<le> now"
  shows "seen_since t u (fst st) \<or> (\<exists>it\<in>set items. fit_matchStatus it = msAccepted \<and> fit_url it = u) \<Longrightarrow>
    seen_since t u (fst (foldl (\<lambda>st it. process_item now ff fd it st) st items))"
proof (induction items arbitrary: st)
  case (Cons it items)
  define st1 where "st1 = process_item now ff fd it st"
  consider "seen_since t u (fst st)" | "fit_matchStatus it = msAccepted" "fit_url it = u"
    | "\<exists>it\<in>set items. fit_matchStatus it = msAccepted \<and> fit_url it = u" using Cons.prems by auto
  then have "seen_since t u (fst st1) \<or> (\<exists>it\<in>set items. fit_matchStatus it = msAccepted \<and> fit_url it = u)"
  proof cases
    case 1
    then show ?thesis unfolding st1_def by (intro disjI1 process_item_since(1) [OF assms])
  next
    case 2
    then show ?thesis using process_item_since(2) [OF assms 2(1)] unfolding st1_def by blast
  qed simp
  then show ?case using Cons.IH [of st1] by (simp add: st1_def)
qed simp

lemma process_feed_since:
  assumes "t \<le> fe_now env" and "seen_since t u hist \<or> u \<in> accepted_urls env fd items"
  shows "seen_since t u (fst (process_feed env fd items hist))"
  using process_items_since [OF assms(1), of u "(hist, [])" "filter_feed env fd items"] assms(2)
  by (auto simp: process_feed_def accepted_urls_def)

lemma oldest_update:
  "foldl (\<lambda>t fd. if fd_lastUpdate fd < t then fd_lastUpdate fd else t) now fds \<le> now \<and>
   (\<forall>fd\<in>set fds. foldl (\<lambda>t fd. if fd_lastUpdate fd < t then fd_lastUpdate fd else t) now fds \<le> fd_lastUpdate fd)"
proof (induction fds arbitrary: now)
  case (Cons fd fds)
  show ?case
  proof (cases "fd_lastUpdate fd < now")
    case True
    then show ?thesis using Cons.IH [of "fd_lastUpdate fd"] by (auto intro: order_trans)
  next
    case False
    then show ?thesis using Cons.IH [of now] by (auto intro: order_trans)
  qed
qed simp

lemma cleanup_since:
  assumes "fd \<in> set fds" and "fd_lastUpdate fd \<le> t" and "0 \<le> days" and "seen_since t u hist"
  shows "seen_since t u (cleanup_history now days fds hist)"
proof -
  define oldest where "oldest = foldl (\<lambda>t fd. if fd_lastUpdate fd < t then fd_lastUpdate fd else t) now fds"
  have "oldest \<le> fd_lastUpdate fd" using oldest_update [of now fds] assms(1) by (simp add: oldest_def)
  then have "oldest - days * 60 * 60 * 24 \<le> t" using assms(2,3) by linarith
  moreover obtain h where "h \<in> set hist" "fh_url h = u" "t \<le> fh_lastSeen h" using assms(4) by (auto simp: seen_since_def)
  ultimately show ?thesis
    unfolding cleanup_history_def Let_def oldest_def [symmetric] seen_since_def by (intro bexI [of _ h]) auto
qed

lemma feed_completed_cases:
  "feed_completed env True [] True (Some items) fd hist = (fd', hist', nzbs) \<Longrightarrow>
   (hist' = hist \<and> nzbs = []) \<or> (\<exists>fd0. process_feed env fd0 items hist = (hist', nzbs))"
  by (auto simp: feed_completed_def Let_def split: if_splits prod.splits)

lemma other_events_since:
  assumes "\<forall>e\<in>set es. other_event k t e" and "k < length fds" and "fd_lastUpdate (fds ! k) \<le> t"
    and "seen_since t u hist"
  shows "seen_since t u (snd (feed_steps es (fds, hist)))"
  using assms
proof (induction es arbitrary: fds hist)
  case (Cons e es)
  show ?case
  proof (cases e)
    case (FeedDone j env items)
    obtain fd' hist' nzbs where c: "feed_completed env True [] True (Some items) (fds ! j) hist = (fd', hist', nzbs)"
      by (metis prod_cases3)
    have "t \<le> fe_now env" using Cons.prems(1) FeedDone by simp
    note since = process_feed_since [OF this disjI1, OF Cons.prems(4)]
    from feed_completed_cases [OF c] have "seen_since t u hist'"
    proof
      assume "\<exists>fd0. process_feed env fd0 items hist = (hist', nzbs)"
      then obtain fd0 where "process_feed env fd0 items hist = (hist', nzbs)" ..
      then show ?thesis using since [of fd0 items] by simp
    qed (use Cons.prems(4) in simp)
    moreover have "fds[j := fd'] ! k = fds ! k" using Cons.prems(1) FeedDone by simp
    ultimately show ?thesis using Cons.IH [of "fds[j := fd']" hist'] Cons.prems FeedDone c by simp
  next
    case (UrlDone now v)
    have "seen_since t u (url_completed now v hist)"
      using Cons.prems(4) seen_since_update(2) by (simp add: url_completed_def)
    then show ?thesis using Cons UrlDone by simp
  next
    case (CleanHistory now days)
    have "seen_since t u (cleanup_history now days fds hist)"
      using Cons.prems CleanHistory cleanup_since [of "fds ! k" fds t days u hist now] by simp
    then show ?thesis using Cons CleanHistory by simp
  qed
qed simp



text \<open>The limit on connections is looked at once for all feeds: two feeds start although only one may.\<close>

lemma feeds_above_limit:
  "(let (_, active, _) = feed_round False False 1 1000 [sample_feed, sample_feed\<lparr>fd_id := 2\<rparr>] [] False in active) = [1, 2]"
  by (simp add: feed_round_def feed_due_def start_feed_def sample_feed_def new_feed_def)

end
