(* ===== verification/Spec2Isabelle.thy ===== *)
theory Spec2Isabelle
  imports Prelude WebText Crc Decoder YEncoder QueueData NzbInfo NzbTotals NzbHealth ServerPool
    QueueSearch QueueSteps QueueInv QueueRun QueueMoves ParNames QueueEdit QueueMerge DupeCheck History
    TextUtil Archives Unpack PostJob QuickVerify ParBlocks FileNames Dates FeedExpr FeedItem FeedTerm FeedRule
    FeedFile FeedRun
begin

text \<open>
  A verification development for NZBGet, a downloader of files posted to Usenet (C++, \<open>src/daemon\<close>).

  \<^bold>\<open>The program.\<close> A \<^emph>\<open>download\<close> (\<open>NzbInfo\<close>) is a list of files (\<open>FileInfo\<close>), a file a list of articles.
  The queue coordinator chooses the next article of the queue, takes a connection from the pool of news servers
  and starts a downloader for it; the decoder turns the body of the article into bytes and checks their size
  and checksum. When the articles of a file are done the file is completed, when its files are done the
  download goes to post-processing (renaming, par-check, unpack, moving, scripts) and to the history, from which
  it can be downloaded again. In between, the user edits the queue: downloads and files are moved, sorted,
  paused, merged and split, and the duplicate check keeps backups of the same title in the history. RSS feeds are
  fetched now and then; their filters choose the items that become downloads. The Web front end and the remote
  control read and print XML, JSON and URLs.

  \<^bold>\<open>Theories and the files they model.\<close>
  \<^item> \<open>Prelude\<close>: bytes, C strings and the functions of the C library the code uses; \<open>BaseFileName\<close>, \<open>DiskFile::Read\<close>.
  \<^item> \<open>WebText\<close>, \<open>TextUtil\<close>, \<open>Crc\<close>: \<open>util/Util.cpp\<close> -- the text codecs and scanners of \<open>WebUtil\<close>; tokenizer, command
    lines and wild cards; the checksum \<open>Crc32\<close> with \<open>Combine\<close>.
  \<^item> \<open>Decoder\<close>, \<open>YEncoder\<close>: \<open>nntp/Decoder.cpp\<close> and \<open>nserv/YEncoder.cpp\<close>, the two ends of the yEnc format.
  \<^item> \<open>ServerPool\<close>: \<open>nntp/ServerPool.cpp\<close>, levels, connections, blocked servers.
  \<^item> \<open>QueueData\<close>, \<open>NzbInfo\<close>, \<open>NzbTotals\<close>, \<open>NzbHealth\<close>: \<open>queue/DownloadInfo.h\<close> and \<open>.cpp\<close> -- the records of the queue with the
    members of the classes, their keyed lists, the counters a download keeps, health and statuses.
  \<^item> \<open>QueueSearch\<close>, \<open>QueueSteps\<close>, \<open>QueueInv\<close>, \<open>QueueRun\<close>: \<open>queue/QueueCoordinator.cpp\<close> -- choosing the next article, the
    steps of the coordinator, their invariant, and the coordinator as a step relation.
  \<^item> \<open>QueueMoves\<close>, \<open>QueueEdit\<close>, \<open>QueueMerge\<close>, \<open>ParNames\<close>: \<open>queue/QueueEditor.cpp\<close>, the merging and splitting of the
    coordinator, and the names of par-files (\<open>postprocess/ParParser.cpp\<close>).
  \<^item> \<open>DupeCheck\<close>, \<open>History\<close>: \<open>queue/DupeCoordinator.cpp\<close> and \<open>queue/HistoryCoordinator.cpp\<close>.
  \<^item> \<open>Archives\<close>, \<open>Unpack\<close>: \<open>postprocess/UnpackController.cpp\<close>.
  \<^item> \<open>PostJob\<close>: the stages of a post-processing job, \<open>postprocess/PrePostProcessor.cpp\<close> with \<open>Rename.cpp\<close>, \<open>Repair.cpp\<close>,
    \<open>Cleanup.cpp\<close>, \<open>PostUnpackRenamer.cpp\<close> and \<open>extension/PostScript.cpp\<close>.
  \<^item> \<open>QuickVerify\<close>, \<open>ParBlocks\<close>: the quick verification of \<open>postprocess/ParChecker.cpp\<close> and the recovery blocks that
    \<open>postprocess/Repair.cpp\<close> asks for.
  \<^item> \<open>FileNames\<close>, \<open>Dates\<close>: safe file names (\<open>util/FileSystem.cpp\<close>), addresses and dates (\<open>util/Util.cpp\<close>), categories
    (\<open>main/Options.cpp\<close>).
  \<^item> \<open>FeedExpr\<close>, \<open>FeedItem\<close>, \<open>FeedTerm\<close>, \<open>FeedRule\<close>, \<open>FeedFile\<close>, \<open>FeedRun\<close>: \<open>feed/FeedFilter.cpp\<close> (expressions, terms, rules),
    \<open>feed/FeedInfo.cpp\<close>, \<open>feed/FeedFile.cpp\<close> and \<open>feed/FeedCoordinator.cpp\<close>.

  \<^bold>\<open>How the model corresponds to the code.\<close> A class is a record whose fields are its members, with the prefix of the
  class (\<open>nz_\<close>, \<open>fi_\<close>, \<open>ai_\<close>, ...); a method is a function on the record, and keeps the order of the code's tests and
  assignments. Enumerations are datatypes; where the code compares them with \<open><\<close> they are instances of the
  order class, with the order of the constants. Pointers between the objects of the queue are ids or positions;
  a pointer that outlives its object is what the invariant of \<open>QueueInv\<close> excludes. Counters are \<open>int\<close>, the 64-bit
  members being large enough for every size that occurs; checksums are 32-bit words, and so is everything whose
  wrap-around the code relies on. A C string is its list of characters, without the final NUL;
  reads behind the end of a buffer are results of their own. Refusals and errors are \<open>None\<close> or constructors of
  their own. What comes from outside (time, options, the directory, the article loader, the block
  routines of the decoder library, \<open>std::sort\<close>, the unpack programs) is an argument or a field of an environment
  record, and what the code relies on of it is a hypothesis of the theorem.

  \<^bold>\<open>What is shown.\<close> Decoding: an article is accepted exactly when size and checksum agree with its
  trailer, the terminator is found however the body is cut into blocks, and what the encoder writes is read
  back. Connections: in every reachable state of the pool the free connections are those not in use,
  and a connection handed out is one the caller may have. Queue: the downloaders of every reachable state refer to
  files and articles of the queue, and the counters agree with the article states; the last article of a file
  completes it; the search respects priorities; every edit action is a permutation described by a
  short specification; merging and splitting keep the counters. Duplicates and history: the best backup is
  chosen, the history keeps what the duplicate check asks for, and returning to the queue settles the counters.
  Unpacking: a download counts as unpacked only after the unpackers have said so, and complete
  split files are joined in order. Post-processing: a job comes to its end after a bounded number of rounds, and
  enters a stage only when what it needs is settled; the checksum of a byte range is computed without reading it;
  the volumes unpaused for a repair are enough and none is superfluous. Feeds: the expression of a rule has its value
  under the replacements of the code, compiled terms are well typed, one rule decides about an item, and an item that
  stays in its feed is downloaded once. Names: what foreign texts become is safe as a file name; addresses and dates are
  read back. Text: round trips of the codecs, their buffer bounds, the matcher against its
  reference. Theorems of kind \<^emph>\<open>error\<close> show what goes wrong on particular inputs.

  \<^bold>\<open>Interfaces.\<close> Locales state what several operations share and are interpreted on the definitions of the code:
  the encoders and token codecs of \<open>WebText\<close>, the checksum engine of \<open>Crc\<close>, the keyed lists of \<open>QueueData\<close>, the running
  totals of \<open>NzbTotals\<close>, the comparisons of \<open>QueueEdit\<close>, and the choice of the best item in \<open>DupeCheck\<close>.

  \<^bold>\<open>Loops and fuel.\<close> Loops over data are structural or have a measure. Only the line loop of the decoder has
  fuel, one more than the length of the text it splits; that this is enough is the theorem that \<open>decode_buffer\<close> ends.
  The loops that replace pieces of a text (\<open>FeedExpr\<close>) are partial functions with lemmas that they return; the
  expansion of references in a rule counts down from the hundred of the code.

  \<^bold>\<open>Not modelled.\<close> Sockets, TLS, the file system and the processes the program starts; the operating system
  facts and the Windows integration; the terminal front ends; the par2 library and the regular expression
  library (vendored); libxml2, whose events are the input of \<open>FeedFile\<close>; the threads of the feeds; the disk format of the queue; the texts of log messages and
  the progress labels. The manifest lists every part with its status.
\<close>

end
